(* ===== verification/Prelude.thy ===== *)
theory Prelude
  imports Complex_Main "HOL-Library.Word" "HOL-Library.Sublist"
begin

text \<open>
  The part of the Rust language and of its standard library that the gateway uses, and the
  generic lemmas the components share.

  \<^item> Integers keep their width: \<open>u8\<close>, \<open>u16\<close>, \<open>u32\<close>, \<open>u64\<close> and \<open>usize\<close> (a 64-bit target)
    are words.  An unchecked \<open>+\<close> of the source goes through \<open>add_chk\<close>, whose first argument
    is the compiler setting \<open>overflow-checks\<close>: on in Cargo's dev profile, where an overflow
    panics, and off in the release profile, where it wraps.
  \<^item> A panic is the value \<open>Panic\<close> of the type \<open>'a rust\<close>.
  \<^item> A \<open>String\<close> is its UTF-8 byte sequence (a \<open>char\<close> of HOL is a byte), so \<open>len\<close> is \<open>length\<close>
    and \<open>starts_with\<close> is \<open>prefix\<close>.  White space is Unicode white space, in its UTF-8 encoding.
  \<^item> An \<open>Instant\<close> is the number of nanoseconds on the monotonic clock; \<open>duration_since\<close>
    saturates at zero, which is subtraction on \<open>nat\<close>.
  \<^item> \<open>Result<T, String>\<close> is a sum with the error on the left.
\<close>

section \<open>Collections of facts\<close>

named_theorems rust_simps \<open>equations that evaluate the standard-library operations\<close>
named_theorems rust_defs \<open>definitions a component proof unfolds\<close>

section \<open>Types\<close>

type_synonym u8 = "8 word"
type_synonym u16 = "16 word"
type_synonym u32 = "32 word"
type_synonym u64 = "64 word"
type_synonym usize = "64 word"
type_synonym instant = nat
type_synonym duration = nat
type_synonym 'a res = "string + 'a"

datatype 'a rust = Panic | Ret 'a

primrec bind_rust :: "'a rust \<Rightarrow> ('a \<Rightarrow> 'b rust) \<Rightarrow> 'b rust" where
  "bind_rust Panic f = Panic"
| "bind_rust (Ret x) f = f x"

lemma bind_rust_Ret_iff [simp]: "bind_rust m f = Ret y \<longleftrightarrow> (\<exists>x. m = Ret x \<and> f x = Ret y)"
  by (cases m) auto

lemma bind_rust_Panic_iff [simp]:
  "bind_rust m f = Panic \<longleftrightarrow> m = Panic \<or> (\<exists>x. m = Ret x \<and> f x = Panic)"
  by (cases m) auto

text \<open>\<open>?\<close> on a \<open>Result\<close>, a test that returns an error, and a loop whose body may return one.\<close>

primrec bind_res :: "'a res \<Rightarrow> ('a \<Rightarrow> 'b res) \<Rightarrow> 'b res" where
  "bind_res (Inl e) f = Inl e"
| "bind_res (Inr x) f = f x"

definition ensure :: "bool \<Rightarrow> string \<Rightarrow> unit res" where
  "ensure b e = (if b then Inr () else Inl e)"

fun for_res :: "('a \<Rightarrow> unit res) \<Rightarrow> 'a list \<Rightarrow> unit res" where
  "for_res f [] = Inr ()"
| "for_res f (x # xs) = bind_res (f x) (\<lambda>_. for_res f xs)"

lemma bind_res_Inr_iff [simp]: "bind_res m f = Inr y \<longleftrightarrow> (\<exists>x. m = Inr x \<and> f x = Inr y)"
  by (cases m) auto

lemma map_err_Inr_iff [simp]: "map_sum f id r = Inr y \<longleftrightarrow> r = Inr y"
  by (cases r) auto

lemma ensure_Inr_iff [simp]: "ensure b e = Inr u \<longleftrightarrow> b"
  by (simp add: ensure_def)

lemma ensure_Inl_iff [simp]: "ensure b e = Inl e' \<longleftrightarrow> \<not> b \<and> e' = e"
  by (auto simp: ensure_def)

lemma for_res_Inr_iff [simp]: "for_res f xs = Inr u \<longleftrightarrow> (\<forall>x\<in>set xs. f x = Inr ())"
  by (induction xs) auto

lemma for_res_Inl_iff:
  "for_res f xs = Inl e \<longleftrightarrow> (\<exists>us x vs. xs = us @ x # vs \<and> (\<forall>u\<in>set us. f u = Inr ()) \<and> f x = Inl e)"
proof (induction xs)
  case (Cons y ys)
  show ?case
  proof (cases "f y")
    case (Inl e')
    then show ?thesis by (auto simp: Cons_eq_append_conv intro: exI [of _ "[]"])
  next
    case (Inr u)
    then have "for_res f (y # ys) = Inl e \<longleftrightarrow>
        (\<exists>us x vs. ys = us @ x # vs \<and> (\<forall>u\<in>set us. f u = Inr ()) \<and> f x = Inl e)"
      using Cons by simp
    also have "\<dots> \<longleftrightarrow> (\<exists>us x vs. y # ys = us @ x # vs \<and> (\<forall>u\<in>set us. f u = Inr ()) \<and> f x = Inl e)"
    proof
      assume "\<exists>us x vs. ys = us @ x # vs \<and> (\<forall>u\<in>set us. f u = Inr ()) \<and> f x = Inl e"
      then obtain us x vs where "ys = us @ x # vs" "\<forall>u\<in>set us. f u = Inr ()" "f x = Inl e" by blast
      with Inr show "\<exists>us x vs. y # ys = us @ x # vs \<and> (\<forall>u\<in>set us. f u = Inr ()) \<and> f x = Inl e"
        by (intro exI [of _ "y # us"] exI [of _ x] exI [of _ vs]) auto
    qed (use Inr in \<open>auto simp: Cons_eq_append_conv; blast\<close>)
    finally show ?thesis .
  qed
qed simp

section \<open>Machine integers\<close>

definition add_chk :: "bool \<Rightarrow> 'n::len word \<Rightarrow> 'n word \<Rightarrow> 'n word rust" where
  "add_chk ovf a b = (if ovf \<and> 2 ^ LENGTH('n) \<le> unat a + unat b then Panic else Ret (a + b))"

definition sat_add :: "'n::len word \<Rightarrow> 'n word \<Rightarrow> 'n word" where
  "sat_add a b = (if 2 ^ LENGTH('n) \<le> unat a + unat b then - 1 else a + b)"

lemma unat_plus_no_overflow:
  fixes a b :: "'n::len word"
  assumes "unat a + unat b < 2 ^ LENGTH('n)"
  shows "unat (a + b) = unat a + unat b"
  using assms by (simp add: unat_word_ariths)

lemma add_chk_no_overflow [simp]:
  fixes a b :: "'n::len word"
  shows "unat a + unat b < 2 ^ LENGTH('n) \<Longrightarrow> add_chk ovf a b = Ret (a + b)"
  by (simp add: add_chk_def)

lemma unat_lt_max_word: "unat (a :: 'n::len word) < 2 ^ LENGTH('n)"
  by (rule unsigned_less)

lemma unat_minus_one_word: "unat (- 1 :: 'n::len word) = 2 ^ LENGTH('n) - 1"
  by (simp add: unsigned_minus_1_eq_mask mask_eq_exp_minus_1)

lemma unat_sat_add: "unat (sat_add a b) = min (unat a + unat b) (2 ^ LENGTH('n) - 1)"
  for a b :: "'n::len word"
proof (cases "unat a + unat b < 2 ^ LENGTH('n)")
  case True
  then show ?thesis
    by (simp add: sat_add_def unat_plus_no_overflow)
next
  case False
  then have "sat_add a b = - 1" by (simp add: sat_add_def)
  with False show ?thesis by (simp add: unat_minus_one_word)
qed

lemma unat_plus_one_less:
  fixes a b :: "'n::len word"
  assumes "a < b"
  shows "unat (a + 1) = unat a + 1"
proof -
  have "unat a < unat b" using assms by (simp add: word_less_nat_alt)
  then have "unat a + 1 < 2 ^ LENGTH('n)" using unat_lt_max_word [of b] by linarith
  then show ?thesis
    using unat_plus_no_overflow [of a 1] by (cases "LENGTH('n) = 1") (auto simp: unat_word_ariths)
qed

lemma unat_plus_one_nonzero:
  fixes a :: "'n::len word"
  assumes "a + 1 \<noteq> 0"
  shows "unat (a + 1) = unat a + 1"
proof -
  have "unat a < 2 ^ LENGTH('n) - 1"
  proof (rule ccontr)
    assume "\<not> unat a < 2 ^ LENGTH('n) - 1"
    then have "unat a = unat (- 1 :: 'n word)"
      using unat_lt_max_word [of a] unfolding unat_minus_one_word by linarith
    then have "a = - 1" by (simp only: word_unat_eq_iff)
    with assms show False by simp
  qed
  then have "a < - 1" by (simp add: word_less_nat_alt unat_minus_one_word)
  then show ?thesis by (rule unat_plus_one_less)
qed

lemma unat_u64_ucast_u8: "unat (ucast (p :: u8) :: u64) = unat p"
  using unat_lt_max_word [of p] by (simp add: unsigned_ucast_eq take_bit_nat_eq_self)

lemma sat_add_ge: "a \<le> sat_add a b"
proof -
  have "unat a \<le> 2 ^ LENGTH('a) - 1"
    using unat_lt_max_word [of a] by linarith
  then show ?thesis by (simp add: word_le_nat_alt unat_sat_add)
qed

section \<open>Durations\<close>

definition from_millis :: "u64 \<Rightarrow> duration" where
  "from_millis ms = unat ms * 1000000"

definition from_secs :: "u64 \<Rightarrow> duration" where
  "from_secs s = unat s * 1000000000"

definition duration_since :: "instant \<Rightarrow> instant \<Rightarrow> duration" where
  "duration_since later earlier = later - earlier"

lemma duration_since_self [simp]: "duration_since t t = 0"
  by (simp add: duration_since_def)

section \<open>Strings\<close>

definition starts_with :: "string \<Rightarrow> string \<Rightarrow> bool" where
  "starts_with s p = prefix p s"

definition strip_prefix :: "string \<Rightarrow> string \<Rightarrow> string option" where
  "strip_prefix s p = (if prefix p s then Some (drop (length p) s) else None)"

text \<open>The UTF-8 encodings of the characters with the Unicode property White_Space.\<close>

definition white_space :: "string list" where
  "white_space =
     [[CHR 0x09], [CHR 0x0A], [CHR 0x0B], [CHR 0x0C], [CHR 0x0D], [CHR 0x20],
      [CHR 0xC2, CHR 0x85], [CHR 0xC2, CHR 0xA0], [CHR 0xE1, CHR 0x9A, CHR 0x80],
      [CHR 0xE2, CHR 0x80, CHR 0x80], [CHR 0xE2, CHR 0x80, CHR 0x81],
      [CHR 0xE2, CHR 0x80, CHR 0x82], [CHR 0xE2, CHR 0x80, CHR 0x83],
      [CHR 0xE2, CHR 0x80, CHR 0x84], [CHR 0xE2, CHR 0x80, CHR 0x85],
      [CHR 0xE2, CHR 0x80, CHR 0x86], [CHR 0xE2, CHR 0x80, CHR 0x87],
      [CHR 0xE2, CHR 0x80, CHR 0x88], [CHR 0xE2, CHR 0x80, CHR 0x89],
      [CHR 0xE2, CHR 0x80, CHR 0x8A], [CHR 0xE2, CHR 0x80, CHR 0xA8],
      [CHR 0xE2, CHR 0x80, CHR 0xA9], [CHR 0xE2, CHR 0x80, CHR 0xAF],
      [CHR 0xE2, CHR 0x81, CHR 0x9F], [CHR 0xE3, CHR 0x80, CHR 0x80]]"

definition strip_ws_start :: "string \<Rightarrow> string option" where
  "strip_ws_start s =
     map_option (\<lambda>w. drop (length w) s) (find (\<lambda>w. prefix w s) white_space)"

definition strip_ws_end :: "string \<Rightarrow> string option" where
  "strip_ws_end s =
     map_option (\<lambda>w. take (length s - length w) s) (find (\<lambda>w. suffix w s) white_space)"

lemma white_space_nonempty: "w \<in> set white_space \<Longrightarrow> w \<noteq> []"
  by (auto simp: white_space_def)

lemma find_white_spaceD:
  assumes "find P white_space = Some w"
  shows "P w" and "0 < length w"
proof -
  from assms obtain i where "i < length white_space" "P (white_space ! i)" "w = white_space ! i"
    by (auto simp: find_Some_iff)
  then show "P w" and "0 < length w"
    using white_space_nonempty [OF nth_mem] by auto
qed

lemma strip_ws_start_shorter:
  assumes "strip_ws_start s = Some s'"
  shows "length s' < length s"
proof -
  obtain w where w: "find (\<lambda>w. prefix w s) white_space = Some w" and s': "s' = drop (length w) s"
    using assms by (auto simp: strip_ws_start_def)
  from find_white_spaceD [OF w] have "length w \<le> length s" and "0 < length w"
    by (auto dest: prefix_length_le)
  then have "length s - length w < length s" by linarith
  then show ?thesis by (simp add: s')
qed

lemma strip_ws_end_shorter:
  assumes "strip_ws_end s = Some s'"
  shows "length s' < length s"
proof -
  obtain w where w: "find (\<lambda>w. suffix w s) white_space = Some w" and s': "s' = take (length s - length w) s"
    using assms by (auto simp: strip_ws_end_def)
  from find_white_spaceD [OF w] have "length w \<le> length s" and "0 < length w"
    by (auto dest: suffix_length_le)
  then have "length s - length w < length s" by linarith
  then show ?thesis by (simp add: s')
qed

function trim_start :: "string \<Rightarrow> string" where
  "trim_start s = (case strip_ws_start s of None \<Rightarrow> s | Some s' \<Rightarrow> trim_start s')"
  by pat_completeness auto
termination
  by (relation "measure length") (auto dest: strip_ws_start_shorter)

function trim_end :: "string \<Rightarrow> string" where
  "trim_end s = (case strip_ws_end s of None \<Rightarrow> s | Some s' \<Rightarrow> trim_end s')"
  by pat_completeness auto
termination
  by (relation "measure length") (auto dest: strip_ws_end_shorter)

declare trim_start.simps [simp del] trim_end.simps [simp del]

definition trim :: "string \<Rightarrow> string" where
  "trim s = trim_end (trim_start s)"

fun split_char :: "char \<Rightarrow> string \<Rightarrow> string list" where
  "split_char c [] = [[]]"
| "split_char c (x # xs) =
     (if x = c then [] # split_char c xs
      else (case split_char c xs of [] \<Rightarrow> [[x]] | y # ys \<Rightarrow> (x # y) # ys))"

lemma split_char_append: "c \<notin> set w \<Longrightarrow> split_char c (w @ c # rest) = w # split_char c rest"
  by (induction w) auto

fun split_once :: "char \<Rightarrow> string \<Rightarrow> (string \<times> string) option" where
  "split_once c [] = None"
| "split_once c (x # xs) =
     (if x = c then Some ([], xs)
      else map_option (\<lambda>(a, b). (x # a, b)) (split_once c xs))"

text \<open>\<open>str::split_whitespace\<close>: the pieces between white-space characters that are not empty.\<close>

function split_ws_from :: "string \<Rightarrow> string \<Rightarrow> string list" where
  "split_ws_from acc s =
     (case s of [] \<Rightarrow> [rev acc]
      | c # r \<Rightarrow> (case strip_ws_start s of
          None \<Rightarrow> split_ws_from (c # acc) r
        | Some s' \<Rightarrow> rev acc # split_ws_from [] s'))"
  by pat_completeness auto
termination
  by (relation "measure (\<lambda>(acc, s). length s)") (auto dest: strip_ws_start_shorter)

declare split_ws_from.simps [simp del]

definition split_whitespace :: "string \<Rightarrow> string list" where
  "split_whitespace s = filter (\<lambda>w. w \<noteq> []) (split_ws_from [] s)"

definition ascii_lower :: "char \<Rightarrow> char" where
  "ascii_lower c =
     (if 65 \<le> (of_char c :: nat) \<and> (of_char c :: nat) \<le> 90 then char_of ((of_char c :: nat) + 32)
      else c)"

definition to_ascii_lowercase :: "string \<Rightarrow> string" where
  "to_ascii_lowercase s = map ascii_lower s"

definition eq_ignore_ascii_case :: "string \<Rightarrow> string \<Rightarrow> bool" where
  "eq_ignore_ascii_case a b = (to_ascii_lowercase a = to_ascii_lowercase b)"

text \<open>\<open>&s[n..]\<close>: a panic unless \<open>n\<close> is within the string and on a character boundary.\<close>

definition is_char_boundary :: "string \<Rightarrow> nat \<Rightarrow> bool" where
  "is_char_boundary s n \<longleftrightarrow>
     n = 0 \<or> n = length s \<or>
     (n < length s \<and> \<not> (128 \<le> (of_char (s ! n) :: nat) \<and> (of_char (s ! n) :: nat) < 192))"

definition slice_from :: "string \<Rightarrow> nat \<Rightarrow> string rust" where
  "slice_from s n = (if is_char_boundary s n then Ret (drop n s) else Panic)"

fun show_nat :: "nat \<Rightarrow> string" where
  "show_nat n =
     (if n < 10 then [char_of (48 + n)] else show_nat (n div 10) @ [char_of (48 + n mod 10)])"

declare show_nat.simps [simp del]

text \<open>Quotation marks in messages.\<close>

definition quoted :: "string \<Rightarrow> string" where
  "quoted s = [CHR 0x27] @ s @ [CHR 0x27]"

fun join :: "string \<Rightarrow> string list \<Rightarrow> string" where
  "join sep [] = []"
| "join sep [x] = x"
| "join sep (x # y # ys) = x @ sep @ join sep (y # ys)"

section \<open>Hashing\<close>

text \<open>
  \<open>DefaultHasher\<close> promises only that equal inputs give equal hashes within one program; its
  algorithm is unspecified.  The model takes it as a parameter: a function of the values fed to
  the hasher, in order.
\<close>

datatype hash_item = HStr string | HUsize usize

type_synonym hasher = "hash_item list \<Rightarrow> u64"

section \<open>Iterators\<close>

text \<open>\<open>Iterator::max_by_key\<close> returns the last of several maximal elements,
  \<open>min_by_key\<close> the first of several minimal ones.\<close>

fun max_by_key :: "('a \<Rightarrow> 'k::linorder) \<Rightarrow> 'a list \<Rightarrow> 'a option" where
  "max_by_key f [] = None"
| "max_by_key f (x # xs) = Some (fold (\<lambda>y acc. if f acc \<le> f y then y else acc) xs x)"

fun min_by_key :: "('a \<Rightarrow> 'k::linorder) \<Rightarrow> 'a list \<Rightarrow> 'a option" where
  "min_by_key f [] = None"
| "min_by_key f (x # xs) = Some (fold (\<lambda>y acc. if f y < f acc then y else acc) xs x)"

text \<open>Both are the head of the list after a stable selection, which is how the clients use them.\<close>

lemma fold_max_spec:
  "\<exists>us vs. x # xs = us @ fold (\<lambda>y acc. if f acc \<le> f y then y else acc) xs x # vs \<and>
     (\<forall>u\<in>set us. f u \<le> f (fold (\<lambda>y acc. if f acc \<le> f y then y else acc) xs x)) \<and>
     (\<forall>v\<in>set vs. f v < (f (fold (\<lambda>y acc. if f acc \<le> f y then y else acc) xs x) :: 'k::linorder))"
proof (induction xs rule: rev_induct)
  case Nil
  then show ?case by (intro exI [of _ "[]"]) auto
next
  case (snoc y ys)
  define m where "m = fold (\<lambda>y acc. if f acc \<le> f y then y else acc) ys x"
  obtain us vs where eq: "x # ys = us @ m # vs"
    and us: "\<forall>u\<in>set us. f u \<le> f m" and vs: "\<forall>v\<in>set vs. f v < f m"
    using snoc.IH unfolding m_def by blast
  show ?case
  proof (cases "f m \<le> f y")
    case True
    then have "x # ys @ [y] = (us @ m # vs) @ y # []" using eq by simp
    moreover have "\<forall>u\<in>set (us @ m # vs). f u \<le> f y" using us vs True by fastforce
    ultimately show ?thesis using True
      by (intro exI [of _ "us @ m # vs"] exI [of _ "[]"]) (simp add: m_def [symmetric])
  next
    case False
    then have "x # ys @ [y] = us @ m # vs @ [y]" using eq by simp
    moreover have "\<forall>v\<in>set (vs @ [y]). f v < f m" using vs False by auto
    ultimately show ?thesis using False us
      by (intro exI [of _ us] exI [of _ "vs @ [y]"]) (simp add: m_def [symmetric])
  qed
qed

lemma max_by_key_Some_split:
  assumes "max_by_key f xs = Some m"
  obtains us vs where "xs = us @ m # vs" "\<forall>u\<in>set us. f u \<le> f m" "\<forall>v\<in>set vs. f v < f m"
proof (cases xs)
  case Nil
  then show ?thesis using assms by simp
next
  case (Cons y ys)
  then have "m = fold (\<lambda>y acc. if f acc \<le> f y then y else acc) ys y" using assms by simp
  with fold_max_spec [of y ys f] Cons show ?thesis using that by blast
qed

lemma fold_max_stays:
  fixes f :: "'a \<Rightarrow> 'k::linorder"
  shows "\<forall>v\<in>set vs. f v < f m \<Longrightarrow> fold (\<lambda>y acc. if f acc \<le> f y then y else acc) vs m = m"
  by (induction vs) auto

lemma fold_max_below:
  fixes f :: "'a \<Rightarrow> 'k::linorder"
  shows "f x \<le> b \<Longrightarrow> \<forall>u\<in>set us. f u \<le> b \<Longrightarrow>
   f (fold (\<lambda>y acc. if f acc \<le> f y then y else acc) us x) \<le> b"
  by (induction us arbitrary: x) auto

lemma max_by_key_append:
  fixes f :: "'a \<Rightarrow> 'k::linorder"
  assumes "\<forall>u\<in>set us. f u \<le> f m" and "\<forall>v\<in>set vs. f v < f m"
  shows "max_by_key f (us @ m # vs) = Some m"
proof (cases us)
  case Nil
  then show ?thesis using fold_max_stays [OF assms(2)] by simp
next
  case (Cons x xs)
  then have "f (fold (\<lambda>y acc. if f acc \<le> f y then y else acc) xs x) \<le> f m"
    using assms(1) fold_max_below [of f x "f m" xs] by simp
  with Cons fold_max_stays [OF assms(2)] show ?thesis by simp
qed

lemma max_by_key_None [simp]: "max_by_key f xs = None \<longleftrightarrow> xs = []"
  by (cases xs) auto

lemma fold_min_spec:
  "\<exists>us vs. x # xs = us @ fold (\<lambda>y acc. if f y < f acc then y else acc) xs x # vs \<and>
     (\<forall>u\<in>set us. (f (fold (\<lambda>y acc. if f y < f acc then y else acc) xs x) :: 'k::linorder) < f u) \<and>
     (\<forall>v\<in>set vs. f (fold (\<lambda>y acc. if f y < f acc then y else acc) xs x) \<le> f v)"
proof (induction xs rule: rev_induct)
  case Nil
  then show ?case by (intro exI [of _ "[]"]) auto
next
  case (snoc y ys)
  define m where "m = fold (\<lambda>y acc. if f y < f acc then y else acc) ys x"
  obtain us vs where eq: "x # ys = us @ m # vs"
    and us: "\<forall>u\<in>set us. f m < f u" and vs: "\<forall>v\<in>set vs. f m \<le> f v"
    using snoc.IH unfolding m_def by blast
  show ?case
  proof (cases "f y < f m")
    case True
    then have "x # ys @ [y] = (us @ m # vs) @ y # []" using eq by simp
    moreover have "\<forall>u\<in>set (us @ m # vs). f y < f u" using us vs True by fastforce
    ultimately show ?thesis using True
      by (intro exI [of _ "us @ m # vs"] exI [of _ "[]"]) (simp add: m_def [symmetric])
  next
    case False
    then have "x # ys @ [y] = us @ m # vs @ [y]" using eq by simp
    moreover have "\<forall>v\<in>set (vs @ [y]). f m \<le> f v" using vs False by auto
    ultimately show ?thesis using False us
      by (intro exI [of _ us] exI [of _ "vs @ [y]"]) (simp add: m_def [symmetric])
  qed
qed

lemma min_by_key_Some_split:
  assumes "min_by_key f xs = Some m"
  obtains us vs where "xs = us @ m # vs" "\<forall>u\<in>set us. f m < f u" "\<forall>v\<in>set vs. f m \<le> f v"
proof (cases xs)
  case Nil
  then show ?thesis using assms by simp
next
  case (Cons y ys)
  then have "m = fold (\<lambda>y acc. if f y < f acc then y else acc) ys y" using assms by simp
  with fold_min_spec [of y ys f] Cons show ?thesis using that by blast
qed

lemma min_by_key_None [simp]: "min_by_key f xs = None \<longleftrightarrow> xs = []"
  by (cases xs) auto

section \<open>Lists\<close>

lemma filter_split_ex:
  "filter P xs = us @ m # vs \<Longrightarrow>
   \<exists>us' vs'. xs = us' @ m # vs' \<and> us = filter P us' \<and> vs = filter P vs' \<and> P m"
proof (induction xs arbitrary: us)
  case (Cons x xs)
  show ?case
  proof (cases "P x \<and> us = []")
    case True
    with Cons.prems show ?thesis by (intro exI [of _ "[]"] exI [of _ xs]) auto
  next
    case False
    with Cons.prems obtain ws where "filter P xs = ws @ m # vs" "us = filter P [x] @ ws"
      by (cases us) (auto split: if_splits)
    with Cons.IH obtain us' vs' where "xs = us' @ m # vs'" "ws = filter P us'" "vs = filter P vs'" "P m"
      by blast
    with \<open>us = filter P [x] @ ws\<close> show ?thesis
      by (intro exI [of _ "x # us'"] exI [of _ vs']) auto
  qed
qed simp

lemma filter_split:
  assumes "filter P xs = us @ m # vs"
  obtains us' vs' where "xs = us' @ m # vs'" "us = filter P us'" "vs = filter P vs'" "P m"
  using filter_split_ex [OF assms] by blast

lemma map_nth_mod_rotate:
  "map (\<lambda>i. xs ! ((k + i) mod length xs)) [0..<length xs] = rotate k xs"
  by (rule nth_equalityI) (auto simp: nth_rotate)

end
