(* ===== verification/F64.thy ===== *)
theory F64
  imports Prelude
begin

text \<open>
  The arithmetic of \<open>f64\<close> as the token buckets of \<open>rate_limit.rs\<close> use it.  IEEE 754 defines
  every basic operation as the exact result rounded to the nearest representable number, ties
  to the even significand; an \<open>f64\<close> is modelled by the real number it denotes, and an
  operation by the exact operation followed by \<open>f64_round\<close>.  Overflow to infinity is not
  modelled: the operands of the rate limiter are below \<open>2 ^ 97\<close>.

  The locale \<open>rounding\<close> is the interface a client needs; \<open>f64_round\<close> is shown to satisfy it.
\<close>

section \<open>The interface: rounding to a grid that contains the small integers\<close>

locale rounding =
  fixes rnd :: "real \<Rightarrow> real"
  assumes rnd_mono: "x \<le> y \<Longrightarrow> rnd x \<le> rnd y"
    and rnd_int: "\<bar>n\<bar> \<le> 2 ^ 53 \<Longrightarrow> rnd (of_int n) = of_int n"
    and rnd_idem: "rnd (rnd x) = rnd x"
    and rnd_pred: "rnd x = x \<Longrightarrow> 1 \<le> x \<Longrightarrow> x \<le> 2 ^ 53 \<Longrightarrow> rnd (x - 1) = x - 1"
begin

lemma rnd_nat: "n \<le> 2 ^ 53 \<Longrightarrow> rnd (real n) = real n"
  using rnd_int [of "int n"] by simp

lemma rnd_0: "rnd 0 = 0"
  using rnd_nat [of 0] by simp

lemma rnd_nonneg: "0 \<le> x \<Longrightarrow> 0 \<le> rnd x"
  using rnd_mono [of 0 x] rnd_0 by simp

lemma rnd_le_nat: "x \<le> real n \<Longrightarrow> n \<le> 2 ^ 53 \<Longrightarrow> rnd x \<le> real n"
  using rnd_mono [of x "real n"] rnd_nat by simp

lemma rnd_ge_nat: "real n \<le> x \<Longrightarrow> n \<le> 2 ^ 53 \<Longrightarrow> real n \<le> rnd x"
  using rnd_mono [of "real n" x] rnd_nat by simp

end

section \<open>Round to nearest, ties to even, 53 bits\<close>

definition round_even :: "real \<Rightarrow> int" where
  "round_even y =
     (let f = \<lfloor>y\<rfloor>; d = y - of_int f
      in if d < 1 / 2 then f else if 1 / 2 < d then f + 1 else if even f then f else f + 1)"

definition f64_exp :: "real \<Rightarrow> int" where
  "f64_exp x = max \<lfloor>log 2 \<bar>x\<bar>\<rfloor> (- 1022)"

definition ulp :: "real \<Rightarrow> real" where
  "ulp x = 2 powr (of_int (f64_exp x) - 52)"

definition f64_round :: "real \<Rightarrow> real" where
  "f64_round x = (if x = 0 then 0 else of_int (round_even (x / ulp x)) * ulp x)"

lemma round_even_of_int [simp]: "round_even (of_int k) = k"
  by (simp add: round_even_def)

lemma round_even_bounds: "\<lfloor>y\<rfloor> \<le> round_even y \<and> round_even y \<le> \<lfloor>y\<rfloor> + 1"
  by (simp add: round_even_def Let_def)

lemma round_even_mono: "x \<le> y \<Longrightarrow> round_even x \<le> round_even y"
proof (cases "\<lfloor>x\<rfloor> = \<lfloor>y\<rfloor>")
  case True
  assume "x \<le> y"
  then show ?thesis using True by (auto simp: round_even_def Let_def)
next
  case False
  assume "x \<le> y"
  then have "\<lfloor>x\<rfloor> \<le> \<lfloor>y\<rfloor>" by (rule floor_mono)
  with False have "\<lfloor>x\<rfloor> + 1 \<le> \<lfloor>y\<rfloor>" by simp
  then show ?thesis using round_even_bounds [of x] round_even_bounds [of y] by linarith
qed

lemma round_even_le_of_int: "y \<le> of_int k \<Longrightarrow> round_even y \<le> k"
  using round_even_mono [of y "of_int k"] by simp

lemma round_even_ge_of_int: "of_int k \<le> y \<Longrightarrow> k \<le> round_even y"
  using round_even_mono [of "of_int k" y] by simp

lemma round_even_minus: "round_even (- y) = - round_even y"
proof (cases "y = of_int \<lfloor>y\<rfloor>")
  case True
  then obtain k where "y = of_int k" by blast
  then show ?thesis using round_even_of_int [of "- k"] by simp
next
  case False
  then have "\<lfloor>- y\<rfloor> = - \<lfloor>y\<rfloor> - 1"
    using of_int_floor_le [of y] by (intro floor_unique) (auto, linarith+)
  then show ?thesis by (auto simp: round_even_def Let_def)
qed

section \<open>The grid of representable numbers\<close>

lemma ulp_pos [simp]: "0 < ulp x"
  by (simp add: ulp_def)

lemma ulp_minus [simp]: "ulp (- x) = ulp x"
  by (simp add: ulp_def f64_exp_def)

lemma f64_round_minus: "f64_round (- x) = - f64_round x"
  by (simp add: f64_round_def round_even_minus)

lemma f64_round_0 [simp]: "f64_round 0 = 0"
  by (simp add: f64_round_def)

lemma f64_round_nonneg: "0 \<le> x \<Longrightarrow> 0 \<le> f64_round x"
  using round_even_ge_of_int [of 0 "x / ulp x"]
  by (simp add: f64_round_def less_imp_le)

lemma f64_round_grid:
  assumes "x / ulp x = of_int k"
  shows "f64_round x = x"
proof -
  have "of_int (round_even (x / ulp x)) * ulp x = (x / ulp x) * ulp x"
    using assms by simp
  also have "\<dots> = x" using ulp_pos [of x] by (simp del: ulp_pos)
  finally show ?thesis by (simp add: f64_round_def)
qed

lemma f64_exp_mono: "x \<noteq> 0 \<Longrightarrow> \<bar>x\<bar> \<le> \<bar>y\<bar> \<Longrightarrow> f64_exp x \<le> f64_exp y"
  unfolding f64_exp_def by (intro max.mono floor_mono) auto

text \<open>A number below \<open>2 ^ (e + 1)\<close> has an exponent of at most \<open>e\<close>.\<close>

lemma abs_less_exp: "x \<noteq> 0 \<Longrightarrow> \<bar>x\<bar> < 2 powr (of_int (f64_exp x) + 1)"
proof -
  assume "x \<noteq> 0"
  have "log 2 \<bar>x\<bar> < of_int (f64_exp x) + 1" by (simp add: f64_exp_def) linarith
  with \<open>x \<noteq> 0\<close> show ?thesis by (simp add: log_less_iff)
qed

lemma exp_le_of_less:
  assumes "x \<noteq> 0" and "\<bar>x\<bar> < 2 powr (of_int e + 1)" and "- 1022 \<le> e"
  shows "f64_exp x \<le> e"
proof -
  have "log 2 \<bar>x\<bar> < of_int e + 1" using assms by (simp add: log_less_iff)
  then have "\<lfloor>log 2 \<bar>x\<bar>\<rfloor> \<le> e" by linarith
  with assms show ?thesis by (simp add: f64_exp_def)
qed

lemma powr_nat_diff: "i \<le> j \<Longrightarrow> 2 powr (of_int j - of_int i) = (of_int (2 ^ nat (j - i)) :: real)"
proof -
  assume "i \<le> j"
  then have "(of_int j - of_int i :: real) = real (nat (j - i))" by simp
  then show ?thesis by (simp only: powr_realpow) simp
qed

lemma pow2_shift: "2 powr (e + real n) = 2 ^ n * 2 powr (e :: real)"
  by (simp add: powr_add powr_realpow)

lemma grid_multiple:
  assumes "x = of_int k * 2 powr (of_int e - 52)" and "x \<noteq> 0" and "f64_exp x \<le> e"
  shows "f64_round x = x"
proof (rule f64_round_grid)
  have "2 powr (of_int e - 52) / ulp x = 2 powr (of_int e - of_int (f64_exp x))"
    by (simp add: ulp_def powr_diff [symmetric])
  also have "\<dots> = of_int (2 ^ nat (e - f64_exp x))"
    using assms(3) by (rule powr_nat_diff)
  finally have "x / ulp x = of_int k * of_int (2 ^ nat (e - f64_exp x))"
    using assms(1) by (metis times_divide_eq_right)
  then show "x / ulp x = of_int (k * 2 ^ nat (e - f64_exp x))" by simp
qed

section \<open>The laws of rounding\<close>

lemma f64_round_small_int:
  assumes "\<bar>n\<bar> < 2 ^ 53" and "n \<noteq> 0"
  shows "f64_round (of_int n) = of_int n"
proof -
  have "of_int \<bar>n\<bar> < (of_int (2 ^ 53) :: real)" using assms(1) by (simp only: of_int_less_iff)
  then have "\<bar>of_int n :: real\<bar> < 2 powr (of_int 52 + 1)"
    using powr_realpow [of 2 53] by simp
  then have "f64_exp (of_int n) \<le> 52" using assms(2) by (intro exp_le_of_less) auto
  then show ?thesis using assms(2) grid_multiple [of "of_int n" n 52] by simp
qed

lemma f64_round_two_53: "f64_round (2 ^ 53) = 2 ^ 53"
proof -
  have "f64_exp (2 ^ 53) \<le> 53"
    using powr_realpow [of 2 54] by (intro exp_le_of_less) auto
  then show ?thesis using grid_multiple [of "2 ^ 53" "2 ^ 52" 53] by simp
qed

lemma f64_round_int:
  assumes "\<bar>n\<bar> \<le> 2 ^ 53"
  shows "f64_round (of_int n) = of_int n"
proof -
  consider "n = 0" | "n = 2 ^ 53" | "n = - (2 ^ 53)" | "\<bar>n\<bar> < 2 ^ 53" "n \<noteq> 0"
    using assms by linarith
  then show ?thesis
    using f64_round_two_53 f64_round_minus [of "2 ^ 53"] f64_round_small_int [of n]
    by cases auto
qed

text \<open>The significand of a rounded number has at most 53 bits.\<close>

lemma f64_round_le_exp:
  assumes "0 < x"
  shows "f64_round x \<le> 2 powr (of_int (f64_exp x) + 1)"
proof -
  have eq: "2 powr (of_int (f64_exp x) + 1) = of_int (2 ^ 53) * ulp x"
    using pow2_shift [of "of_int (f64_exp x) - 52" 53] by (simp add: ulp_def add.commute)
  have "x < of_int (2 ^ 53) * ulp x" using abs_less_exp [of x] assms eq by simp
  then have "x / ulp x \<le> of_int (2 ^ 53)" by (simp add: pos_divide_le_eq less_imp_le)
  then have "round_even (x / ulp x) \<le> 2 ^ 53" by (rule round_even_le_of_int)
  then have "of_int (round_even (x / ulp x)) \<le> (of_int (2 ^ 53) :: real)"
    by (simp only: of_int_le_iff)
  then show ?thesis using assms by (simp add: f64_round_def eq)
qed

lemma f64_round_ge_exp:
  assumes "2 powr of_int (f64_exp x) \<le> x"
  shows "2 powr of_int (f64_exp x) \<le> f64_round x"
proof -
  have pos: "0 < x" using assms powr_gt_zero [of 2 "of_int (f64_exp x)"] by linarith
  have eq: "2 powr of_int (f64_exp x) = of_int (2 ^ 52) * ulp x"
    using pow2_shift [of "of_int (f64_exp x) - 52" 52] by (simp add: ulp_def)
  have "of_int (2 ^ 52) \<le> x / ulp x" using assms eq by (simp add: pos_le_divide_eq)
  then have "2 ^ 52 \<le> round_even (x / ulp x)" by (rule round_even_ge_of_int)
  then have "(of_int (2 ^ 52) :: real) \<le> of_int (round_even (x / ulp x))"
    by (simp only: of_int_le_iff)
  then show ?thesis using pos by (simp add: f64_round_def eq)
qed

lemma f64_round_mono_pos:
  assumes "0 < x" and "x \<le> y"
  shows "f64_round x \<le> f64_round y"
proof (cases "f64_exp x = f64_exp y")
  case True
  then have "ulp x = ulp y" by (simp add: ulp_def)
  moreover have "x / ulp y \<le> y / ulp y" using assms by (simp add: divide_right_mono less_imp_le)
  ultimately show ?thesis using assms
    by (simp add: f64_round_def round_even_mono mult_right_mono less_imp_le)
next
  case False
  have "f64_exp x \<le> f64_exp y" using assms by (intro f64_exp_mono) auto
  with False have less: "f64_exp x + 1 \<le> f64_exp y" by simp
  then have "- 1022 < f64_exp y" by (simp add: f64_exp_def [of x])
  then have "f64_exp y = \<lfloor>log 2 y\<rfloor>" using assms by (auto simp: f64_exp_def max_def split: if_splits)
  then have "of_int (f64_exp y) \<le> log 2 y" by simp
  then have "2 powr of_int (f64_exp y) \<le> y" using assms by (simp add: le_log_iff)
  then have ge: "2 powr of_int (f64_exp y) \<le> f64_round y" by (rule f64_round_ge_exp)
  have "f64_round x \<le> 2 powr (of_int (f64_exp x) + 1)" using assms(1) by (rule f64_round_le_exp)
  also have "\<dots> \<le> 2 powr of_int (f64_exp y)" using less by (intro powr_mono) auto
  finally show ?thesis using ge by linarith
qed

lemma f64_round_mono: "x \<le> y \<Longrightarrow> f64_round x \<le> f64_round y"
proof -
  assume le: "x \<le> y"
  consider "0 < x" | "x \<le> 0" "0 \<le> y" | "y < 0" by linarith
  then show ?thesis
  proof cases
    case 1
    then show ?thesis using le by (rule f64_round_mono_pos)
  next
    case 2
    then show ?thesis
      using f64_round_nonneg [of "- x"] f64_round_nonneg [of y] by (simp add: f64_round_minus)
  next
    case 3
    then show ?thesis
      using le f64_round_mono_pos [of "- y" "- x"] by (simp add: f64_round_minus)
  qed
qed

lemma f64_round_idem_pos:
  assumes "0 < x"
  shows "f64_round (f64_round x) = f64_round x"
proof (cases "f64_round x = 0")
  case False
  define k where "k = round_even (x / ulp x)"
  have k: "f64_round x = of_int k * 2 powr (of_int (f64_exp x) - 52)"
    using assms by (simp add: f64_round_def k_def ulp_def)
  have le: "f64_round x \<le> 2 powr (of_int (f64_exp x) + 1)" using assms by (rule f64_round_le_exp)
  have nonneg: "0 \<le> f64_round x" using assms by (simp add: f64_round_nonneg)
  have ge: "- 1022 \<le> f64_exp x" by (simp add: f64_exp_def)
  show ?thesis
  proof (cases "f64_round x = 2 powr (of_int (f64_exp x) + 1)")
    case True
    have "f64_round x = of_int (2 ^ 52) * 2 powr (of_int (f64_exp x + 1) - 52)"
      using True pow2_shift [of "of_int (f64_exp x + 1) - 52" 52] by (simp add: add.commute)
    moreover have "f64_exp (f64_round x) \<le> f64_exp x + 1"
      using True False ge by (intro exp_le_of_less) auto
    ultimately show ?thesis using False by (intro grid_multiple) auto
  next
    case neq: False
    then have "f64_exp (f64_round x) \<le> f64_exp x"
      using le nonneg False ge by (intro exp_le_of_less) auto
    then show ?thesis using k False by (intro grid_multiple) auto
  qed
qed simp

lemma f64_round_idem: "f64_round (f64_round x) = f64_round x"
proof -
  consider "0 < x" | "x = 0" | "0 < - x" by linarith
  then show ?thesis
  proof cases
    case 3
    then show ?thesis using f64_round_idem_pos [of "- x"] by (simp add: f64_round_minus)
  qed (auto simp: f64_round_idem_pos)
qed

lemma f64_round_pred:
  assumes "f64_round x = x" and "1 \<le> x" and "x \<le> 2 ^ 53"
  shows "f64_round (x - 1) = x - 1"
proof -
  consider "x = 1" | "x = 2 ^ 53" | "1 < x" "x < 2 ^ 53" using assms by linarith
  then show ?thesis
  proof cases
    case 2
    then show ?thesis using f64_round_int [of "2 ^ 53 - 1"] by simp
  next
    case 3
    have "f64_exp x \<le> 52"
      using 3 powr_realpow [of 2 53] by (intro exp_le_of_less) auto
    then have one: "2 powr (52 - of_int (f64_exp x)) = (of_int (2 ^ nat (52 - f64_exp x)) :: real)"
      using powr_nat_diff [of "f64_exp x" 52] by simp
    define k where "k = round_even (x / ulp x)"
    have "x = of_int k * 2 powr (of_int (f64_exp x) - 52)"
      using assms(1,2) by (simp add: f64_round_def k_def ulp_def split: if_splits)
    moreover have "1 = of_int (2 ^ nat (52 - f64_exp x)) * 2 powr (of_int (f64_exp x) - 52 :: real)"
      unfolding one [symmetric] by (simp add: powr_add [symmetric])
    ultimately have pred:
      "x - 1 = of_int (k - 2 ^ nat (52 - f64_exp x)) * 2 powr (of_int (f64_exp x) - 52)"
      by (metis left_diff_distrib of_int_diff)
    have "f64_exp (x - 1) \<le> f64_exp x" using 3 by (intro f64_exp_mono) auto
    with 3 grid_multiple [OF pred] show ?thesis by simp
  qed simp
qed

interpretation f64: rounding f64_round
  using f64_round_mono f64_round_int f64_round_idem f64_round_pred by unfold_locales

section \<open>Evaluation\<close>

text \<open>The exponent by halving or doubling, so that concrete operations can be computed.\<close>

function exp_up :: "real \<Rightarrow> int \<Rightarrow> int" where
  "exp_up x e = (if x < 2 then e else exp_up (x / 2) (e + 1))"
  by pat_completeness auto
termination
  by (relation "measure (\<lambda>(x, e). nat \<lfloor>x\<rfloor>)") (auto, linarith)

function exp_down :: "real \<Rightarrow> int \<Rightarrow> int" where
  "exp_down x e = (if 1 \<le> x \<or> e \<le> - 1022 then e else exp_down (x * 2) (e - 1))"
  by pat_completeness auto
termination
  by (relation "measure (\<lambda>(x, e). nat (e + 1022))") auto

declare exp_up.simps [simp del] exp_down.simps [simp del]

lemma exp_up_log: "1 \<le> x \<Longrightarrow> exp_up x e = \<lfloor>log 2 x\<rfloor> + e"
proof (induction x e rule: exp_up.induct)
  case (1 x e)
  show ?case
  proof (cases "x < 2")
    case True
    then have "\<lfloor>log 2 x\<rfloor> = 0" using "1.prems" by (simp add: floor_eq_iff log_less_iff)
    with True show ?thesis by (subst exp_up.simps) simp
  next
    case False
    then have "\<lfloor>log 2 (x / 2)\<rfloor> = \<lfloor>log 2 x\<rfloor> - 1" by (simp add: log_divide)
    with 1 False show ?thesis by (subst exp_up.simps) simp
  qed
qed

lemma exp_down_log: "0 < x \<Longrightarrow> x < 2 \<Longrightarrow> - 1022 \<le> e \<Longrightarrow> exp_down x e = max (\<lfloor>log 2 x\<rfloor> + e) (- 1022)"
proof (induction x e rule: exp_down.induct)
  case (1 x e)
  consider "1 \<le> x" | "x < 1" "e = - 1022" | "x < 1" "- 1022 < e" using "1.prems" by linarith
  then show ?case
  proof cases
    case 1
    then have "\<lfloor>log 2 x\<rfloor> = 0" using "1.prems" by (simp add: floor_eq_iff log_less_iff)
    with 1 "1.prems" show ?thesis by (subst exp_down.simps) simp
  next
    case 2
    then have "\<lfloor>log 2 x\<rfloor> \<le> 0" using "1.prems" by (simp add: floor_le_iff log_less_iff)
    with 2 show ?thesis by (subst exp_down.simps) simp
  next
    case 3
    then have "\<lfloor>log 2 (x * 2)\<rfloor> = \<lfloor>log 2 x\<rfloor> + 1" using "1.prems" by (simp add: log_mult)
    with 3 "1.IH" "1.prems" show ?thesis by (subst exp_down.simps) simp
  qed
qed

lemma f64_exp_code [code]:
  "f64_exp x = (if x = 0 then 0 else if 1 \<le> \<bar>x\<bar> then exp_up \<bar>x\<bar> 0 else exp_down \<bar>x\<bar> 0)"
proof -
  have "f64_exp 0 = 0" by (simp add: f64_exp_def log_def)
  moreover have "f64_exp x = exp_up \<bar>x\<bar> 0" if "1 \<le> \<bar>x\<bar>"
  proof -
    have "0 \<le> \<lfloor>log 2 \<bar>x\<bar>\<rfloor>" using that by simp
    then have "f64_exp x = \<lfloor>log 2 \<bar>x\<bar>\<rfloor>" unfolding f64_exp_def by linarith
    then show ?thesis using that by (simp add: exp_up_log)
  qed
  moreover have "f64_exp x = exp_down \<bar>x\<bar> 0" if "x \<noteq> 0" "\<not> 1 \<le> \<bar>x\<bar>"
    using that by (simp add: f64_exp_def exp_down_log)
  ultimately show ?thesis by auto
qed

lemma ulp_code [code]:
  "ulp x = (let k = f64_exp x - 52 in if 0 \<le> k then 2 ^ nat k else 1 / 2 ^ nat (- k))"
proof -
  have "2 powr of_int k = (if 0 \<le> k then 2 ^ nat k else 1 / 2 ^ nat (- k) :: real)" for k :: int
    by (simp add: powr_real_of_int field_simps)
  from this [of "f64_exp x - 52"] show ?thesis by (simp add: ulp_def Let_def)
qed

section \<open>Operations\<close>

definition f64_of_nat :: "nat \<Rightarrow> real" where
  "f64_of_nat n = f64_round (real n)"

definition f64_add :: "real \<Rightarrow> real \<Rightarrow> real" where
  "f64_add x y = f64_round (x + y)"

definition f64_sub :: "real \<Rightarrow> real \<Rightarrow> real" where
  "f64_sub x y = f64_round (x - y)"

definition f64_mul :: "real \<Rightarrow> real \<Rightarrow> real" where
  "f64_mul x y = f64_round (x * y)"

definition f64_div :: "real \<Rightarrow> real \<Rightarrow> real" where
  "f64_div x y = f64_round (x / y)"

text \<open>\<open>Duration::as_secs_f64\<close>: whole seconds plus the fraction, each step rounded.\<close>

definition as_secs_f64 :: "duration \<Rightarrow> real" where
  "as_secs_f64 d =
     f64_add (f64_of_nat (d div 1000000000))
       (f64_div (f64_of_nat (d mod 1000000000)) (f64_of_nat 1000000000))"

lemma f64_of_nat_u32 [simp]: "f64_of_nat (unat (w :: u32)) = real (unat w)"
proof -
  have "unat w < 2 ^ 32" using unat_lt_max_word [of w] by simp
  then show ?thesis unfolding f64_of_nat_def by (intro f64.rnd_nat) simp
qed

lemma f64_of_nat_nonneg: "0 \<le> f64_of_nat n"
  by (simp add: f64_of_nat_def f64.rnd_nonneg)

lemma as_secs_f64_0 [simp]: "as_secs_f64 0 = 0"
  by (simp add: as_secs_f64_def f64_of_nat_def f64_div_def f64_add_def)

lemma as_secs_f64_nonneg: "0 \<le> as_secs_f64 d"
  unfolding as_secs_f64_def f64_add_def f64_div_def
  by (intro f64.rnd_nonneg add_nonneg_nonneg divide_nonneg_nonneg f64_of_nat_nonneg)

end
