(* ===== verification/Rate_Limit.thy ===== *)
theory Rate_Limit
  imports F64
begin

text \<open>
  \<open>rate_limit.rs\<close>: scoped limits under three policies (token bucket, fixed window, sliding
  window), quotas, and the staged check of a request against every rule.

  \<open>check_with_context\<close> holds the mutex for the whole check, so any concurrent use is a sequence
  of checks; \<open>limiter_run\<close> runs such a sequence, each check with the instant it read.  The locale
  \<open>policy_contract\<close> is the interface between the limiter and a policy: what a policy has to
  promise about its accepted instants, and what the limiter then guarantees for every value of a
  scope that has one rule.
\<close>

section \<open>Configuration and state\<close>

datatype rate_limit_policy = TokenBucket | FixedWindow | SlidingWindow

datatype limit_scope = Route | Service | Consumer | Client

record scoped_limit_rule =
  sl_scope :: limit_scope
  sl_limit :: u32
  sl_quota :: "u64 option"
  sl_window_seconds :: u64
  sl_policy :: "rate_limit_policy option"

record rate_limit_config =
  rl_enabled :: bool
  rl_policy :: rate_limit_policy
  rl_capacity :: u32
  rl_refill_per_second :: u32
  rl_fixed_window_seconds :: u64
  rl_sliding_window_seconds :: u64
  rl_scoped_limits :: "scoped_limit_rule list"

record limit_state =
  ls_tokens :: real
  ls_last_refill :: "instant option"
  ls_fixed_window_start :: "instant option"
  ls_fixed_window_count :: u64
  ls_sliding_hits :: "instant list"
  ls_accepted_total :: u64

type_synonym limit_states = "string \<Rightarrow> limit_state option"

record rate_limit_context =
  rc_route :: string
  rc_service :: string
  rc_consumer :: "string option"
  rc_client :: string

definition default_capacity :: u32 where "default_capacity = 100"

definition default_refill_per_second :: u32 where "default_refill_per_second = 100"

definition default_window_seconds :: u64 where "default_window_seconds = 60"

definition default_rate_limit_policy :: rate_limit_policy where
  "default_rate_limit_policy = TokenBucket"

definition default_rate_limit_config :: rate_limit_config where
  "default_rate_limit_config =
     \<lparr>rl_enabled = False, rl_policy = TokenBucket, rl_capacity = default_capacity,
      rl_refill_per_second = default_refill_per_second,
      rl_fixed_window_seconds = default_window_seconds,
      rl_sliding_window_seconds = default_window_seconds, rl_scoped_limits = []\<rparr>"

definition default_limit_state :: limit_state where
  "default_limit_state =
     \<lparr>ls_tokens = 0, ls_last_refill = None, ls_fixed_window_start = None,
      ls_fixed_window_count = 0, ls_sliding_hits = [], ls_accepted_total = 0\<rparr>"

text \<open>A new limiter has no states.\<close>

definition rate_limiter_new :: limit_states where
  [simp]: "rate_limiter_new = Map.empty"

section \<open>Policies\<close>

text \<open>
  The body that the legacy bucket and the scoped token bucket share: fill a fresh bucket, refill
  it for the time that has passed, take a token if there is one.
\<close>

definition refill_bucket :: "real \<Rightarrow> real \<Rightarrow> limit_state \<Rightarrow> instant \<Rightarrow> limit_state" where
  "refill_bucket cap rate st now =
     (let st1 = (if ls_last_refill st = None
                 then st\<lparr>ls_tokens := cap, ls_last_refill := Some now\<rparr> else st)
      in case ls_last_refill st1 of
           None \<Rightarrow> st1
         | Some last_refill \<Rightarrow>
             (let elapsed = as_secs_f64 (duration_since now last_refill)
              in st1\<lparr>ls_tokens := min (f64_add (ls_tokens st1) (f64_mul elapsed rate)) cap,
                     ls_last_refill := Some now\<rparr>))"

definition token_bucket :: "real \<Rightarrow> real \<Rightarrow> limit_state \<Rightarrow> instant \<Rightarrow> bool \<times> limit_state" where
  "token_bucket cap rate st now =
     (let st' = refill_bucket cap rate st now
      in if 1 \<le> ls_tokens st' then (True, st'\<lparr>ls_tokens := f64_sub (ls_tokens st') 1\<rparr>)
         else (False, st'))"

definition apply_legacy_token_bucket ::
    "rate_limit_config \<Rightarrow> limit_state \<Rightarrow> instant \<Rightarrow> bool \<times> limit_state" where
  "apply_legacy_token_bucket cfg st now =
     token_bucket (f64_of_nat (unat (rl_capacity cfg)))
       (f64_of_nat (unat (rl_refill_per_second cfg))) st now"

definition rule_window :: "scoped_limit_rule \<Rightarrow> duration" where
  "rule_window rule = from_secs (max (sl_window_seconds rule) 1)"

definition fixed_window :: "scoped_limit_rule \<Rightarrow> limit_state \<Rightarrow> instant \<Rightarrow> bool \<times> limit_state" where
  "fixed_window rule st now =
     (let window_start = case_option now id (ls_fixed_window_start st);
          st' = (if rule_window rule \<le> duration_since now window_start
                 then st\<lparr>ls_fixed_window_start := Some now, ls_fixed_window_count := 0\<rparr>
                 else st\<lparr>ls_fixed_window_start := Some window_start\<rparr>)
      in if ls_fixed_window_count st' < (ucast (sl_limit rule) :: u64)
         then (True, st'\<lparr>ls_fixed_window_count := ls_fixed_window_count st' + 1\<rparr>)
         else (False, st'))"

definition sliding_window :: "scoped_limit_rule \<Rightarrow> limit_state \<Rightarrow> instant \<Rightarrow> bool \<times> limit_state" where
  "sliding_window rule st now =
     (let hits = dropWhile (\<lambda>front. rule_window rule \<le> duration_since now front) (ls_sliding_hits st)
      in if length hits < unat (sl_limit rule)
         then (True, st\<lparr>ls_sliding_hits := hits @ [now]\<rparr>)
         else (False, st\<lparr>ls_sliding_hits := hits\<rparr>))"

fun apply_policy ::
    "rate_limit_policy \<Rightarrow> scoped_limit_rule \<Rightarrow> limit_state \<Rightarrow> instant \<Rightarrow> bool \<times> limit_state" where
  "apply_policy TokenBucket rule st now =
     (let limit = f64_of_nat (unat (sl_limit rule));
          window_secs = f64_of_nat (unat (max (sl_window_seconds rule) 1))
      in token_bucket limit (f64_div limit window_secs) st now)"
| "apply_policy FixedWindow rule st now = fixed_window rule st now"
| "apply_policy SlidingWindow rule st now = sliding_window rule st now"

section \<open>The check\<close>

primrec scope_name :: "limit_scope \<Rightarrow> string" where
  "scope_name Route = ''route''"
| "scope_name Service = ''service''"
| "scope_name Consumer = ''consumer''"
| "scope_name Client = ''client''"

definition scope_key :: "limit_scope \<Rightarrow> string \<Rightarrow> string" where
  "scope_key scope value_key = scope_name scope @ '':'' @ value_key"

primrec scope_value :: "rate_limit_context \<Rightarrow> limit_scope \<Rightarrow> string" where
  "scope_value ctx Route = rc_route ctx"
| "scope_value ctx Service = rc_service ctx"
| "scope_value ctx Consumer = case_option ''anonymous'' id (rc_consumer ctx)"
| "scope_value ctx Client = rc_client ctx"

definition effective_rules_for_context ::
    "rate_limit_config \<Rightarrow> rate_limit_context \<Rightarrow> (scoped_limit_rule \<times> string) list" where
  "effective_rules_for_context cfg ctx =
     (if rl_scoped_limits cfg = [] then
        [(\<lparr>sl_scope = Client, sl_limit = rl_capacity cfg, sl_quota = None,
           sl_window_seconds =
             (case rl_policy cfg of TokenBucket \<Rightarrow> 1
              | FixedWindow \<Rightarrow> rl_fixed_window_seconds cfg
              | SlidingWindow \<Rightarrow> rl_sliding_window_seconds cfg),
           sl_policy = Some (rl_policy cfg)\<rparr>, rc_client ctx)]
      else map (\<lambda>rule. (rule, scope_value ctx (sl_scope rule))) (rl_scoped_limits cfg))"

definition state_of :: "limit_states \<Rightarrow> string \<Rightarrow> limit_state" where
  "state_of states k = case_option default_limit_state id (states k)"

definition quota_reached :: "scoped_limit_rule \<Rightarrow> limit_state \<Rightarrow> bool" where
  "quota_reached rule st =
     (case sl_quota rule of None \<Rightarrow> False | Some quota \<Rightarrow> quota \<le> ls_accepted_total st)"

definition rule_policy :: "rate_limit_config \<Rightarrow> scoped_limit_rule \<Rightarrow> rate_limit_policy" where
  "rule_policy cfg rule = case_option (rl_policy cfg) id (sl_policy rule)"

text \<open>
  The loop over the rules.  \<open>None\<close> is the early \<open>return false\<close>; the new states are staged, and
  every rule reads the states as they were before the request.
\<close>

fun stage_rules ::
    "bool \<Rightarrow> rate_limit_config \<Rightarrow> limit_states \<Rightarrow> instant \<Rightarrow> (scoped_limit_rule \<times> string) list \<Rightarrow>
     (string \<times> limit_state) list option rust" where
  "stage_rules ovf cfg states now [] = Ret (Some [])"
| "stage_rules ovf cfg states now ((rule, value_key) # rules) =
     (let state_key = scope_key (sl_scope rule) value_key;
          current = state_of states state_key
      in if quota_reached rule current then Ret None
         else case apply_policy (rule_policy cfg rule) rule current now of
           (False, _) \<Rightarrow> Ret None
         | (True, next) \<Rightarrow>
             bind_rust (add_chk ovf (ls_accepted_total next) 1) (\<lambda>total.
             bind_rust (stage_rules ovf cfg states now rules) (\<lambda>staged.
               Ret (map_option (\<lambda>st. (state_key, next\<lparr>ls_accepted_total := total\<rparr>) # st) staged))))"

definition commit :: "(string \<times> limit_state) list \<Rightarrow> limit_states \<Rightarrow> limit_states" where
  "commit staged states = fold (\<lambda>(k, st) m. m(k \<mapsto> st)) staged states"

definition uses_legacy_bucket :: "rate_limit_config \<Rightarrow> bool" where
  "uses_legacy_bucket cfg \<longleftrightarrow> rl_scoped_limits cfg = [] \<and> rl_policy cfg = TokenBucket"

definition check_with_context ::
    "bool \<Rightarrow> rate_limit_config \<Rightarrow> rate_limit_context \<Rightarrow> instant \<Rightarrow> limit_states \<Rightarrow>
     (bool \<times> limit_states) rust" where
  "check_with_context ovf cfg ctx now states =
     (if \<not> rl_enabled cfg then Ret (True, states)
      else if uses_legacy_bucket cfg then
        (let key = scope_key Client (rc_client ctx);
             (ok, st) = apply_legacy_token_bucket cfg (state_of states key) now
         in Ret (ok, states(key \<mapsto> st)))
      else bind_rust (stage_rules ovf cfg states now (effective_rules_for_context cfg ctx)) (\<lambda>staged.
        case staged of
          None \<Rightarrow> Ret (False, states)
        | Some st \<Rightarrow> Ret (True, commit st states)))"

definition check :: "bool \<Rightarrow> rate_limit_config \<Rightarrow> string \<Rightarrow> instant \<Rightarrow> limit_states \<Rightarrow>
     (bool \<times> limit_states) rust" where
  "check ovf cfg key now states =
     check_with_context ovf cfg
       \<lparr>rc_route = ''default-route'', rc_service = ''default-service'', rc_consumer = None,
        rc_client = key\<rparr> now states"

text \<open>A sequence of checks; the verdicts in order, and the states at the end.\<close>

fun limiter_run ::
    "bool \<Rightarrow> rate_limit_config \<Rightarrow> limit_states \<Rightarrow> (rate_limit_context \<times> instant) list \<Rightarrow>
     (bool list \<times> limit_states) rust" where
  "limiter_run ovf cfg states [] = Ret ([], states)"
| "limiter_run ovf cfg states ((ctx, now) # reqs) =
     bind_rust (check_with_context ovf cfg ctx now states) (\<lambda>(ok, states').
     bind_rust (limiter_run ovf cfg states' reqs) (\<lambda>(oks, states'').
       Ret (ok # oks, states'')))"

text \<open>The instants of the accepted requests whose value in a scope is \<open>v\<close>.\<close>

definition accepted_times ::
    "limit_scope \<Rightarrow> string \<Rightarrow> (rate_limit_context \<times> instant) list \<Rightarrow> bool list \<Rightarrow> instant list" where
  "accepted_times scope v reqs oks =
     map (\<lambda>((ctx, now), ok). now)
       (filter (\<lambda>((ctx, now), ok). ok \<and> scope_value ctx scope = v) (zip reqs oks))"

section \<open>Staging\<close>

lemma scope_key_inject [simp]: "scope_key s v = scope_key s' v' \<longleftrightarrow> s = s' \<and> v = v'"
  by (cases s; cases s') (auto simp: scope_key_def)

text \<open>What an entry of the staged list says about the rule it was staged for.\<close>

definition staged_entry ::
    "rate_limit_config \<Rightarrow> limit_states \<Rightarrow> instant \<Rightarrow> scoped_limit_rule \<times> string \<Rightarrow>
     string \<times> limit_state \<Rightarrow> bool" where
  "staged_entry cfg states now rv e \<longleftrightarrow>
     fst e = scope_key (sl_scope (fst rv)) (snd rv) \<and>
     \<not> quota_reached (fst rv) (state_of states (fst e)) \<and>
     (\<exists>next. apply_policy (rule_policy cfg (fst rv)) (fst rv) (state_of states (fst e)) now
               = (True, next) \<and>
        snd e = next\<lparr>ls_accepted_total := ls_accepted_total next + 1\<rparr>)"

lemma add_chk_Ret: "add_chk ovf a b = Ret c \<Longrightarrow> c = a + b"
  by (auto simp: add_chk_def split: if_splits)

lemma stage_rules_Some:
  "stage_rules ovf cfg states now rules = Ret (Some staged) \<Longrightarrow>
   list_all2 (staged_entry cfg states now) rules staged"
proof (induction ovf cfg states now rules arbitrary: staged rule: stage_rules.induct)
  case (2 ovf cfg states now rule value_key rules)
  let ?k = "scope_key (sl_scope rule) value_key"
  from "2.prems" obtain nx total rest where
    q: "\<not> quota_reached rule (state_of states ?k)"
    and pol: "apply_policy (rule_policy cfg rule) rule (state_of states ?k) now = (True, nx)"
    and tot: "add_chk ovf (ls_accepted_total nx) 1 = Ret total"
    and rest: "stage_rules ovf cfg states now rules = Ret (Some rest)"
    and staged: "staged = (?k, nx\<lparr>ls_accepted_total := total\<rparr>) # rest"
    by (auto simp: Let_def split: if_splits prod.splits bool.splits)
  from "2.IH" [OF refl refl q] pol tot rest
  have "list_all2 (staged_entry cfg states now) rules rest" by auto
  moreover have "staged_entry cfg states now (rule, value_key) (?k, nx\<lparr>ls_accepted_total := total\<rparr>)"
    using q pol add_chk_Ret [OF tot] by (simp add: staged_entry_def)
  ultimately show ?case by (simp add: staged)
qed simp

lemma commit_notin: "k \<notin> fst ` set staged \<Longrightarrow> commit staged states k = states k"
  unfolding commit_def by (induction staged arbitrary: states) auto

lemma commit_in:
  "k \<in> fst ` set staged \<Longrightarrow> \<exists>st. (k, st) \<in> set staged \<and> commit staged states k = Some st"
proof (induction staged arbitrary: states rule: rev_induct)
  case (snoc x xs)
  then show ?case by (cases x) (auto simp: commit_def)
qed simp

text \<open>A policy never touches the count of accepted requests.\<close>

lemma token_bucket_total:
  "token_bucket cap rate st now = (ok, st') \<Longrightarrow> ls_accepted_total st' = ls_accepted_total st"
  by (auto simp: token_bucket_def refill_bucket_def Let_def split: if_splits option.splits)

lemma apply_policy_total:
  "apply_policy p rule st now = (ok, st') \<Longrightarrow> ls_accepted_total st' = ls_accepted_total st"
  by (cases p) (auto simp: token_bucket_total fixed_window_def sliding_window_def Let_def split: if_splits)

text \<open>A token bucket writes the tokens and the refill instant, whatever its verdict.\<close>

lemma token_bucket_frame:
  "\<exists>tokens. snd (token_bucket cap rate st now) = st\<lparr>ls_tokens := tokens, ls_last_refill := Some now\<rparr>"
proof (rule exI)
  show "snd (token_bucket cap rate st now)
      = st\<lparr>ls_tokens := ls_tokens (snd (token_bucket cap rate st now)), ls_last_refill := Some now\<rparr>"
    by (cases st) (auto simp: token_bucket_def refill_bucket_def Let_def split: option.splits)
qed

section \<open>One check\<close>

lemma check_rejects_unchanged:
  "check_with_context ovf cfg ctx now states = Ret (False, states') \<Longrightarrow> \<not> uses_legacy_bucket cfg \<Longrightarrow>
   states' = states"
  by (auto simp: check_with_context_def split: if_splits option.splits)

lemma check_accepts_staged:
  assumes "check_with_context ovf cfg ctx now states = Ret (True, states')"
    and "rl_enabled cfg" and "\<not> uses_legacy_bucket cfg"
  obtains staged where
    "list_all2 (staged_entry cfg states now) (effective_rules_for_context cfg ctx) staged"
    "states' = commit staged states"
proof -
  from assms obtain staged where
    "stage_rules ovf cfg states now (effective_rules_for_context cfg ctx) = Ret (Some staged)"
    "states' = commit staged states"
    by (auto simp: check_with_context_def split: option.splits)
  then show ?thesis using stage_rules_Some that by blast
qed

lemma list_all2_in1: "list_all2 P xs ys \<Longrightarrow> x \<in> set xs \<Longrightarrow> \<exists>y\<in>set ys. P x y"
  by (metis in_set_conv_nth list_all2_conv_all_nth)

lemma list_all2_in2: "list_all2 P xs ys \<Longrightarrow> y \<in> set ys \<Longrightarrow> \<exists>x\<in>set xs. P x y"
  by (metis in_set_conv_nth list_all2_conv_all_nth)

text \<open>
  What an accepted request does to the state of one of its rules: the state comes from a rule of
  the same scope (the last one, when there are several), and no rule had reached its quota.
\<close>

lemma check_accepts_state:
  assumes "check_with_context ovf cfg ctx now states = Ret (True, states')"
    and "rl_enabled cfg" and "\<not> uses_legacy_bucket cfg"
    and "(rule, v) \<in> set (effective_rules_for_context cfg ctx)"
  obtains rule' nx where
    "(rule', v) \<in> set (effective_rules_for_context cfg ctx)" "sl_scope rule' = sl_scope rule"
    "apply_policy (rule_policy cfg rule') rule' (state_of states (scope_key (sl_scope rule) v)) now
       = (True, nx)"
    "state_of states' (scope_key (sl_scope rule) v)
       = nx\<lparr>ls_accepted_total := ls_accepted_total nx + 1\<rparr>"
    "\<not> quota_reached rule (state_of states (scope_key (sl_scope rule) v))"
proof -
  let ?k = "scope_key (sl_scope rule) v"
  obtain staged where all:
    "list_all2 (staged_entry cfg states now) (effective_rules_for_context cfg ctx) staged"
    and st': "states' = commit staged states"
    using assms(1-3) by (rule check_accepts_staged)
  from list_all2_in1 [OF all assms(4)] obtain e where
    e: "e \<in> set staged" "staged_entry cfg states now (rule, v) e" by blast
  then have "fst e = ?k" and quota: "\<not> quota_reached rule (state_of states ?k)"
    by (auto simp: staged_entry_def)
  with e have "?k \<in> fst ` set staged" by force
  then obtain st where st: "(?k, st) \<in> set staged" "commit staged states ?k = Some st"
    using commit_in by blast
  from list_all2_in2 [OF all st(1)] obtain rule' v' where
    "(rule', v') \<in> set (effective_rules_for_context cfg ctx)"
    "staged_entry cfg states now (rule', v') (?k, st)" by auto
  then show ?thesis
    using quota st(2) that by (auto simp: staged_entry_def st' state_of_def)
qed

lemma check_accepts_frame:
  assumes "check_with_context ovf cfg ctx now states = Ret (True, states')"
    and "\<not> uses_legacy_bucket cfg"
    and "\<forall>(rule, v)\<in>set (effective_rules_for_context cfg ctx). scope_key (sl_scope rule) v \<noteq> k"
  shows "states' k = states k"
proof (cases "rl_enabled cfg")
  case True
  obtain staged where all:
    "list_all2 (staged_entry cfg states now) (effective_rules_for_context cfg ctx) staged"
    and st': "states' = commit staged states"
    using assms(1) True assms(2) by (rule check_accepts_staged)
  have "k \<notin> fst ` set staged"
    using assms(3) list_all2_in2 [OF all] by (fastforce simp: staged_entry_def)
  then show ?thesis by (simp add: st' commit_notin)
next
  case False
  then show ?thesis using assms(1) by (simp add: check_with_context_def)
qed

lemma check_accepts_all:
  assumes "check_with_context ovf cfg ctx now states = Ret (True, states')"
    and "rl_enabled cfg" and "\<not> uses_legacy_bucket cfg"
  shows "if k \<in> (\<lambda>(rule, v). scope_key (sl_scope rule) v) ` set (effective_rules_for_context cfg ctx)
      then ls_accepted_total (state_of states' k) = ls_accepted_total (state_of states k) + 1
      else states' k = states k"
proof -
  have "ls_accepted_total (state_of states' (scope_key (sl_scope rule) v))
      = ls_accepted_total (state_of states (scope_key (sl_scope rule) v)) + 1"
    if "(rule, v) \<in> set (effective_rules_for_context cfg ctx)" for rule v
    using assms that by (rule check_accepts_state) (simp add: apply_policy_total)
  moreover have "states' k = states k"
    if "k \<notin> (\<lambda>(rule, v). scope_key (sl_scope rule) v) ` set (effective_rules_for_context cfg ctx)"
    using check_accepts_frame [OF assms(1,3)] that by force
  ultimately show ?thesis by auto
qed

lemma check_frame:
  assumes "check_with_context ovf cfg ctx now states = Ret (ok, states')"
    and "\<not> uses_legacy_bucket cfg"
    and "\<forall>(rule, v)\<in>set (effective_rules_for_context cfg ctx). scope_key (sl_scope rule) v \<noteq> k"
  shows "states' k = states k"
proof (cases ok)
  case True
  then show ?thesis using check_accepts_frame [OF _ assms(2,3)] assms(1) by simp
next
  case False
  then have "states' = states" using check_rejects_unchanged [OF _ assms(2)] assms(1) by simp
  then show ?thesis by simp
qed

lemma effective_rules_scoped:
  "rl_scoped_limits cfg \<noteq> [] \<Longrightarrow> effective_rules_for_context cfg ctx =
     map (\<lambda>rule. (rule, scope_value ctx (sl_scope rule))) (rl_scoped_limits cfg)"
  by (simp add: effective_rules_for_context_def)

lemma check_other_value:
  assumes "check_with_context ovf cfg ctx now states = Ret (ok, states')"
    and "rl_scoped_limits cfg \<noteq> []" and "scope_value ctx scope \<noteq> v"
  shows "states' (scope_key scope v) = states (scope_key scope v)"
proof (rule check_frame [OF assms(1)])
  show "\<not> uses_legacy_bucket cfg" using assms(2) by (simp add: uses_legacy_bucket_def)
  show "\<forall>(rule, w)\<in>set (effective_rules_for_context cfg ctx).
      scope_key (sl_scope rule) w \<noteq> scope_key scope v"
    using assms(2,3) by (auto simp: effective_rules_scoped)
qed

lemma check_untouched:
  assumes "check_with_context ovf cfg ctx now states = Ret (ok, states')"
    and "rl_scoped_limits cfg \<noteq> []" and "\<not> (ok \<and> scope_value ctx scope = v)"
  shows "state_of states' (scope_key scope v) = state_of states (scope_key scope v)"
proof (cases ok)
  case True
  with assms check_other_value [OF assms(1,2)] show ?thesis by (simp add: state_of_def)
next
  case False
  moreover have "\<not> uses_legacy_bucket cfg" using assms(2) by (simp add: uses_legacy_bucket_def)
  ultimately have "states' = states"
    using check_rejects_unchanged [of ovf cfg ctx now states states'] assms(1) by simp
  then show ?thesis by simp
qed

lemma accepted_times_simps [simp]:
  "accepted_times scope v [] oks = []"
  "accepted_times scope v ((ctx, now) # reqs) (ok # oks) =
     (if ok \<and> scope_value ctx scope = v then [now] else []) @ accepted_times scope v reqs oks"
  by (simp_all add: accepted_times_def)

section \<open>Quotas\<close>

lemma quota_run:
  assumes "rl_enabled cfg" and "rule \<in> set (rl_scoped_limits cfg)" and "sl_quota rule = Some quota"
  shows "limiter_run ovf cfg states reqs = Ret (oks, states') \<Longrightarrow>
    ls_accepted_total (state_of states (scope_key (sl_scope rule) v)) \<le> quota \<Longrightarrow>
    unat (ls_accepted_total (state_of states (scope_key (sl_scope rule) v)))
      + length (accepted_times (sl_scope rule) v reqs oks) \<le> unat quota"
proof (induction reqs arbitrary: states oks)
  case Nil
  then show ?case by (simp add: word_le_nat_alt)
next
  case (Cons r reqs)
  obtain ctx now where r: "r = (ctx, now)" by (cases r)
  from Cons.prems(1) r obtain ok oks' mid where
    check: "check_with_context ovf cfg ctx now states = Ret (ok, mid)"
    and run: "limiter_run ovf cfg mid reqs = Ret (oks', states')" and oks: "oks = ok # oks'"
    by auto
  let ?k = "scope_key (sl_scope rule) v"
  have scoped: "rl_scoped_limits cfg \<noteq> []" and legacy: "\<not> uses_legacy_bucket cfg"
    using assms(2) by (auto simp: uses_legacy_bucket_def)
  show ?case
  proof (cases "ok \<and> scope_value ctx (sl_scope rule) = v")
    case True
    then have "(rule, v) \<in> set (effective_rules_for_context cfg ctx)"
      using assms(2) by (auto simp: effective_rules_scoped [OF scoped])
    with check True assms(1) legacy obtain rule' nx where
      pol: "apply_policy (rule_policy cfg rule') rule' (state_of states ?k) now = (True, nx)"
      and mid: "state_of mid ?k = nx\<lparr>ls_accepted_total := ls_accepted_total nx + 1\<rparr>"
      and quota: "\<not> quota_reached rule (state_of states ?k)"
      by (auto elim: check_accepts_state)
    from quota assms(3) have less: "ls_accepted_total (state_of states ?k) < quota"
      by (auto simp: quota_reached_def)
    have "ls_accepted_total (state_of mid ?k) = ls_accepted_total (state_of states ?k) + 1"
      by (simp add: mid apply_policy_total [OF pol])
    moreover have "unat (ls_accepted_total (state_of states ?k) + 1)
        = unat (ls_accepted_total (state_of states ?k)) + 1"
      using less unat_lt_max_word [of quota]
      by (intro unat_plus_one_less [of _ quota])
    ultimately show ?thesis
      using Cons.IH [OF run] True less
      by (auto simp: r oks word_le_nat_alt word_less_nat_alt)
  next
    case False
    then have "state_of mid ?k = state_of states ?k" using check_untouched [OF check scoped] by simp
    with Cons.IH [OF run] Cons.prems(2) False show ?thesis by (auto simp: r oks)
  qed
qed

section \<open>The contract of a policy\<close>

text \<open>
  A policy relates the instants it has accepted to its state (\<open>inv\<close>) and bounds them
  (\<open>safe\<close>).  The limiter updates the state of a scope value only when it accepts a request, so
  for a scope with a single rule the contract lifts to every run of the limiter.
\<close>

locale policy_contract =
  fixes policy :: rate_limit_policy
    and rule :: scoped_limit_rule
    and inv :: "instant list \<Rightarrow> limit_state \<Rightarrow> bool"
    and safe :: "instant list \<Rightarrow> bool"
  assumes inv_init: "inv [] default_limit_state"
    and inv_accept: "inv acc st \<Longrightarrow> \<forall>a\<in>set acc. a \<le> now \<Longrightarrow>
      apply_policy policy rule st now = (True, st') \<Longrightarrow> inv (acc @ [now]) st'"
    and inv_total: "inv acc st \<Longrightarrow> inv acc (st\<lparr>ls_accepted_total := n\<rparr>)"
    and inv_safe: "inv acc st \<Longrightarrow> safe acc"
begin

lemma check_inv:
  assumes "check_with_context ovf cfg ctx now states = Ret (ok, states')" and "rl_enabled cfg"
    and only: "filter (\<lambda>r. sl_scope r = sl_scope rule) (rl_scoped_limits cfg) = [rule]"
    and policy: "rule_policy cfg rule = policy"
    and inv: "inv acc (state_of states (scope_key (sl_scope rule) v))"
    and le: "\<forall>a\<in>set acc. a \<le> now"
  shows "inv (acc @ (if ok \<and> scope_value ctx (sl_scope rule) = v then [now] else []))
           (state_of states' (scope_key (sl_scope rule) v))"
proof (cases "ok \<and> scope_value ctx (sl_scope rule) = v")
  case True
  from only have "rule \<in> set (filter (\<lambda>r. sl_scope r = sl_scope rule) (rl_scoped_limits cfg))"
    by simp
  then have rule: "rule \<in> set (rl_scoped_limits cfg)" by simp
  then have "\<not> uses_legacy_bucket cfg" and scoped: "rl_scoped_limits cfg \<noteq> []"
    by (auto simp: uses_legacy_bucket_def)
  moreover have "(rule, v) \<in> set (effective_rules_for_context cfg ctx)"
    using rule True by (auto simp: effective_rules_scoped [OF scoped])
  ultimately obtain rule' nx where
    r': "(rule', v) \<in> set (effective_rules_for_context cfg ctx)" "sl_scope rule' = sl_scope rule"
    and pol: "apply_policy (rule_policy cfg rule') rule'
        (state_of states (scope_key (sl_scope rule) v)) now = (True, nx)"
    and st': "state_of states' (scope_key (sl_scope rule) v)
        = nx\<lparr>ls_accepted_total := ls_accepted_total nx + 1\<rparr>"
    using assms(1,2) True by (auto elim: check_accepts_state)
  from r' have "rule' \<in> set (filter (\<lambda>r. sl_scope r = sl_scope rule) (rl_scoped_limits cfg))"
    by (auto simp: effective_rules_scoped [OF scoped])
  then have "rule' = rule" by (simp add: only)
  with pol policy inv le have "inv (acc @ [now]) nx" by (auto intro: inv_accept)
  then show ?thesis using True by (simp add: st' inv_total)
next
  case False
  have "rl_scoped_limits cfg \<noteq> []" using only by auto
  from check_untouched [OF assms(1) this False] show ?thesis using inv False by auto
qed

lemma run_inv:
  assumes "rl_enabled cfg"
    and "filter (\<lambda>r. sl_scope r = sl_scope rule) (rl_scoped_limits cfg) = [rule]"
    and "rule_policy cfg rule = policy"
  shows "limiter_run ovf cfg states reqs = Ret (oks, states') \<Longrightarrow>
    inv acc (state_of states (scope_key (sl_scope rule) v)) \<Longrightarrow> sorted (acc @ map snd reqs) \<Longrightarrow>
    inv (acc @ accepted_times (sl_scope rule) v reqs oks)
      (state_of states' (scope_key (sl_scope rule) v))"
proof (induction reqs arbitrary: states oks acc)
  case (Cons r reqs)
  obtain ctx now where r: "r = (ctx, now)" by (cases r)
  from Cons.prems(1) r obtain ok oks' mid where
    check: "check_with_context ovf cfg ctx now states = Ret (ok, mid)"
    and run: "limiter_run ovf cfg mid reqs = Ret (oks', states')" and oks: "oks = ok # oks'"
    by auto
  let ?new = "if ok \<and> scope_value ctx (sl_scope rule) = v then [now] else []"
  have "\<forall>a\<in>set acc. a \<le> now" using Cons.prems(3) by (auto simp: r sorted_append)
  then have "inv (acc @ ?new) (state_of mid (scope_key (sl_scope rule) v))"
    using check_inv [OF check assms Cons.prems(2)] by simp
  moreover have "sorted ((acc @ ?new) @ map snd reqs)"
    using Cons.prems(3) by (auto simp: r sorted_append)
  ultimately have "inv ((acc @ ?new) @ accepted_times (sl_scope rule) v reqs oks')
      (state_of states' (scope_key (sl_scope rule) v))"
    by (rule Cons.IH [OF run])
  then show ?case by (simp add: r oks split: if_splits)
qed simp

lemma run_safe:
  assumes "rl_enabled cfg"
    and "filter (\<lambda>r. sl_scope r = sl_scope rule) (rl_scoped_limits cfg) = [rule]"
    and "rule_policy cfg rule = policy"
    and "limiter_run ovf cfg Map.empty reqs = Ret (oks, states')" and "sorted (map snd reqs)"
  shows "safe (accepted_times (sl_scope rule) v reqs oks)"
proof -
  have "inv [] (state_of Map.empty (scope_key (sl_scope rule) v))"
    by (simp add: state_of_def inv_init)
  with run_inv [OF assms(1-4), where acc = "[]"] assms(5)
  have "inv (accepted_times (sl_scope rule) v reqs oks)
      (state_of states' (scope_key (sl_scope rule) v))" by simp
  then show ?thesis by (rule inv_safe)
qed

end

section \<open>The three policies satisfy the contract\<close>

text \<open>\<open>windows_ok w n acc\<close>: no half-open interval of length \<open>w\<close> holds more than \<open>n\<close> instants.\<close>

definition windows_ok :: "duration \<Rightarrow> nat \<Rightarrow> instant list \<Rightarrow> bool" where
  "windows_ok w n acc \<longleftrightarrow> (\<forall>t. length (filter (\<lambda>a. a \<le> t \<and> t < a + w) acc) \<le> n)"

definition burst_ok :: "nat \<Rightarrow> instant list \<Rightarrow> bool" where
  "burst_ok n acc \<longleftrightarrow> (\<forall>t. count_list acc t \<le> n)"

definition sliding_inv :: "scoped_limit_rule \<Rightarrow> instant list \<Rightarrow> limit_state \<Rightarrow> bool" where
  "sliding_inv rule acc st \<longleftrightarrow>
     windows_ok (rule_window rule) (unat (sl_limit rule)) acc \<and>
     (\<exists>old. acc = old @ ls_sliding_hits st \<and> (\<forall>o'\<in>set old. o' + rule_window rule \<le> last acc))"

definition fixed_inv :: "scoped_limit_rule \<Rightarrow> instant list \<Rightarrow> limit_state \<Rightarrow> bool" where
  "fixed_inv rule acc st \<longleftrightarrow>
     windows_ok (rule_window rule) (2 * unat (sl_limit rule)) acc \<and>
     (case ls_fixed_window_start st of
        None \<Rightarrow> acc = [] \<and> ls_fixed_window_count st = 0
      | Some s \<Rightarrow> s \<in> set acc \<and> (\<exists>older prev cur. acc = older @ prev @ cur \<and>
          unat (ls_fixed_window_count st) = length cur \<and> length cur \<le> unat (sl_limit rule) \<and>
          length prev \<le> unat (sl_limit rule) \<and> (\<forall>a\<in>set older. a + rule_window rule \<le> s) \<and>
          (\<forall>a\<in>set prev. a \<le> s)))"

definition token_inv :: "nat \<Rightarrow> instant list \<Rightarrow> limit_state \<Rightarrow> bool" where
  "token_inv n acc st \<longleftrightarrow>
     sorted acc \<and> burst_ok n acc \<and>
     (if acc = [] then ls_last_refill st = None
      else ls_last_refill st = Some (last acc) \<and> 0 \<le> ls_tokens st \<and>
           f64_round (ls_tokens st) = ls_tokens st \<and>
           ls_tokens st + real (count_list acc (last acc)) \<le> real n)"

lemma fixed_invI:
  assumes "windows_ok (rule_window rule) (2 * unat (sl_limit rule)) acc"
    and "ls_fixed_window_start st = Some s" and "s \<in> set acc" and "acc = older @ prev @ cur"
    and "unat (ls_fixed_window_count st) = length cur" and "length cur \<le> unat (sl_limit rule)"
    and "length prev \<le> unat (sl_limit rule)" and "\<forall>a\<in>set older. a + rule_window rule \<le> s"
    and "\<forall>a\<in>set prev. a \<le> s"
  shows "fixed_inv rule acc st"
  using assms unfolding fixed_inv_def by auto

lemma sorted_le_last: "sorted xs \<Longrightarrow> x \<in> set xs \<Longrightarrow> x \<le> last xs"
  by (induction xs) (auto split: if_splits)

lemma rule_window_pos: "0 < rule_window rule"
proof -
  have "1 \<le> max (sl_window_seconds rule) 1" by simp
  then have "unat (1 :: u64) \<le> unat (max (sl_window_seconds rule) 1)" by (simp only: word_le_nat_alt)
  then show ?thesis by (simp add: rule_window_def from_secs_def)
qed

lemma windows_ok_snoc:
  assumes "windows_ok w n acc"
    and "length (filter (\<lambda>a. now < a + w) acc) < n"
  shows "windows_ok w n (acc @ [now])"
  unfolding windows_ok_def
proof
  fix t
  show "length (filter (\<lambda>a. a \<le> t \<and> t < a + w) (acc @ [now])) \<le> n"
  proof (cases "now \<le> t")
    case True
    have "length (filter (\<lambda>a. a \<le> t \<and> t < a + w) acc) \<le> length (filter (\<lambda>a. now < a + w) acc)"
      by (induction acc) (use True in auto)
    with assms(2) show ?thesis by simp
  next
    case False
    with assms(1) show ?thesis by (simp add: windows_ok_def)
  qed
qed

lemma sliding_window_accept:
  assumes inv: "sliding_inv rule acc st" and le: "\<forall>a\<in>set acc. a \<le> now"
    and adm: "sliding_window rule st now = (True, st')"
  shows "sliding_inv rule (acc @ [now]) st'"
proof -
  let ?w = "rule_window rule" and ?P = "\<lambda>front. rule_window rule \<le> duration_since now front"
  let ?live = "dropWhile ?P (ls_sliding_hits st)"
  obtain old where acc: "acc = old @ ls_sliding_hits st"
    and old: "\<forall>o'\<in>set old. o' + ?w \<le> last acc"
    using inv by (auto simp: sliding_inv_def)
  from adm have room: "length ?live < unat (sl_limit rule)"
    and st': "ls_sliding_hits st' = ?live @ [now]"
    by (auto simp: sliding_window_def Let_def split: if_splits)
  define gone where "gone = old @ takeWhile ?P (ls_sliding_hits st)"
  have split: "acc = gone @ ?live" by (simp add: acc gone_def)
  have gone: "\<forall>g\<in>set gone. g + ?w \<le> now"
  proof
    fix g assume "g \<in> set gone"
    then consider "g \<in> set old" | "?P g" by (auto simp: gone_def dest: set_takeWhileD)
    then show "g + ?w \<le> now"
    proof cases
      case 1
      then have "acc \<noteq> []" by (auto simp: acc)
      then have "last acc \<le> now" using le by simp
      with 1 old show ?thesis by fastforce
    next
      case 2
      then show ?thesis using rule_window_pos [of rule] by (simp add: duration_since_def)
    qed
  qed
  have "filter (\<lambda>a. now < a + ?w) gone = []" using gone by (auto simp: filter_empty_conv)
  then have "length (filter (\<lambda>a. now < a + ?w) acc) < unat (sl_limit rule)"
    using room by (simp add: split le_less_trans [OF length_filter_le])
  then have "windows_ok ?w (unat (sl_limit rule)) (acc @ [now])"
    using inv by (intro windows_ok_snoc) (auto simp: sliding_inv_def)
  then show ?thesis
    using gone by (auto simp: sliding_inv_def st' split intro!: exI [of _ gone])
qed

interpretation sliding: policy_contract SlidingWindow rule "sliding_inv rule"
  "windows_ok (rule_window rule) (unat (sl_limit rule))" for rule
proof unfold_locales
  show "sliding_inv rule [] default_limit_state"
    by (simp add: sliding_inv_def windows_ok_def default_limit_state_def)
next
  fix acc st now st'
  assume "sliding_inv rule acc st" "\<forall>a\<in>set acc. a \<le> now"
    "apply_policy SlidingWindow rule st now = (True, st')"
  then show "sliding_inv rule (acc @ [now]) st'" by (auto intro: sliding_window_accept)
qed (auto simp: sliding_inv_def)

lemma windows_ok_tail:
  assumes "windows_ok w n acc" and "acc = gone @ live"
    and "\<forall>g\<in>set gone. g + w \<le> now" and "length live < n"
  shows "windows_ok w n (acc @ [now])"
proof (rule windows_ok_snoc [OF assms(1)])
  have "filter (\<lambda>a. now < a + w) gone = []" using assms(3) by (auto simp: filter_empty_conv)
  then show "length (filter (\<lambda>a. now < a + w) acc) < n"
    using assms(4) by (simp add: assms(2) le_less_trans [OF length_filter_le])
qed

lemma unat_ucast_limit: "unat (ucast (sl_limit rule) :: u64) = unat (sl_limit rule)"
  using unat_lt_max_word [of "sl_limit rule"]
  by (simp add: unsigned_ucast_eq take_bit_nat_eq_self)

lemma fixed_window_first:
  assumes "ls_fixed_window_start st = None" and "ls_fixed_window_count st = 0"
    and "fixed_window rule st now = (True, st')"
  shows "ls_fixed_window_start st' = Some now" and "ls_fixed_window_count st' = 1"
    and "0 < unat (sl_limit rule)"
  using assms rule_window_pos [of rule] unat_ucast_limit [of rule]
  by (auto simp: fixed_window_def Let_def word_less_nat_alt split: if_splits)

lemma fixed_window_next:
  assumes "ls_fixed_window_start st = Some s" and "fixed_window rule st now = (True, st')"
  shows "if s + rule_window rule \<le> now
    then ls_fixed_window_start st' = Some now \<and> ls_fixed_window_count st' = 1 \<and>
         0 < unat (sl_limit rule)
    else ls_fixed_window_start st' = Some s \<and> unat (ls_fixed_window_count st) < unat (sl_limit rule) \<and>
         unat (ls_fixed_window_count st') = unat (ls_fixed_window_count st) + 1"
proof -
  have late: "rule_window rule \<le> now - s \<longleftrightarrow> s + rule_window rule \<le> now"
    using rule_window_pos [of rule] by linarith
  have "unat (ls_fixed_window_count st + 1) = unat (ls_fixed_window_count st) + 1"
    if "ls_fixed_window_count st < (ucast (sl_limit rule) :: u64)"
    using that by (rule unat_plus_one_less)
  then show ?thesis
    using assms unat_ucast_limit [of rule]
    by (auto simp: fixed_window_def Let_def duration_since_def late word_less_nat_alt split: if_splits)
qed

lemma fixed_window_accept:
  assumes inv: "fixed_inv rule acc st" and le: "\<forall>a\<in>set acc. a \<le> now"
    and adm: "fixed_window rule st now = (True, st')"
  shows "fixed_inv rule (acc @ [now]) st'"
proof (cases "ls_fixed_window_start st")
  case None
  with inv have "acc = []" "ls_fixed_window_count st = 0" by (auto simp: fixed_inv_def)
  with fixed_window_first [OF None _ adm] show ?thesis
    by (intro fixed_invI [where s = now and older = "[]" and prev = "[]" and cur = "[now]"])
      (auto simp: windows_ok_def)
next
  case (Some s)
  let ?w = "rule_window rule" and ?L = "unat (sl_limit rule)"
  obtain older prev cur where acc: "acc = older @ prev @ cur"
    and cnt: "unat (ls_fixed_window_count st) = length cur" "length cur \<le> ?L" "length prev \<le> ?L"
    and older: "\<forall>a\<in>set older. a + ?w \<le> s" and prev: "\<forall>a\<in>set prev. a \<le> s"
    and ok: "windows_ok ?w (2 * ?L) acc" and s: "s \<in> set acc"
    using inv Some by (auto simp: fixed_inv_def)
  have "s \<le> now" using s le by simp
  note step = fixed_window_next [OF Some adm]
  show ?thesis
  proof (cases "s + ?w \<le> now")
    case True
    then have gone: "\<forall>g\<in>set (older @ prev). g + ?w \<le> now" using older prev by fastforce
    have "windows_ok ?w (2 * ?L) (acc @ [now])"
      using windows_ok_tail [OF ok _ gone, of cur] step True cnt by (simp add: acc)
    moreover have "\<forall>a\<in>set cur. a \<le> now" using le by (simp add: acc)
    ultimately show ?thesis
      using step True cnt gone
      by (intro fixed_invI [where s = now and older = "older @ prev" and prev = cur and cur = "[now]"])
        (auto simp: acc)
  next
    case False
    have gone: "\<forall>g\<in>set older. g + ?w \<le> now" using older \<open>s \<le> now\<close> by fastforce
    have "windows_ok ?w (2 * ?L) (acc @ [now])"
      using windows_ok_tail [OF ok acc gone] step False cnt by simp
    then show ?thesis
      using step False cnt older prev s
      by (intro fixed_invI [where s = s and older = older and prev = prev and cur = "cur @ [now]"])
        (auto simp: acc)
  qed
qed

interpretation fixed: policy_contract FixedWindow rule "fixed_inv rule"
  "windows_ok (rule_window rule) (2 * unat (sl_limit rule))" for rule
proof unfold_locales
  show "fixed_inv rule [] default_limit_state"
    by (simp add: fixed_inv_def windows_ok_def default_limit_state_def)
next
  fix acc st now st'
  assume "fixed_inv rule acc st" "\<forall>a\<in>set acc. a \<le> now"
    "apply_policy FixedWindow rule st now = (True, st')"
  then show "fixed_inv rule (acc @ [now]) st'" by (auto intro: fixed_window_accept)
qed (auto simp: fixed_inv_def split: option.splits)

text \<open>The token bucket, at a capacity that is an \<open>f64\<close> integer.\<close>

lemma refill_fresh:
  "ls_last_refill st = None \<Longrightarrow> n \<le> 2 ^ 53 \<Longrightarrow>
   ls_tokens (refill_bucket (real n) rate st now) = real n"
  by (simp add: refill_bucket_def Let_def f64_add_def f64_mul_def f64.rnd_0 f64.rnd_nat)

lemma refill_same_instant:
  assumes "ls_last_refill st = Some now" and "f64_round (ls_tokens st) = ls_tokens st"
    and "ls_tokens st \<le> real n"
  shows "ls_tokens (refill_bucket (real n) rate st now) = ls_tokens st"
  using assms by (simp add: refill_bucket_def Let_def f64_add_def f64_mul_def f64.rnd_0)

lemma refill_bounds:
  assumes "ls_last_refill st = Some t" and "0 \<le> ls_tokens st" and "0 \<le> rate" and "n \<le> 2 ^ 53"
  shows "0 \<le> ls_tokens (refill_bucket (real n) rate st now)"
    and "ls_tokens (refill_bucket (real n) rate st now) \<le> real n"
    and "f64_round (ls_tokens (refill_bucket (real n) rate st now))
           = ls_tokens (refill_bucket (real n) rate st now)"
  using assms
  by (auto simp: refill_bucket_def Let_def f64_add_def f64_mul_def min_def f64.rnd_idem f64.rnd_nat
      intro!: f64.rnd_nonneg add_nonneg_nonneg mult_nonneg_nonneg as_secs_f64_nonneg)

lemma refill_last: "ls_last_refill (refill_bucket cap rate st now) = Some now"
  by (simp add: refill_bucket_def Let_def split: option.splits)

lemma take_token:
  assumes "token_bucket (real n) rate st now = (True, st')" and "n \<le> 2 ^ 53"
    and "f64_round t = t" and "t \<le> real n" and "t = ls_tokens (refill_bucket (real n) rate st now)"
  shows "1 \<le> t" and "ls_tokens st' = t - 1" and "f64_round (t - 1) = t - 1"
    and "ls_last_refill st' = Some now"
proof -
  from assms(1,5) show "1 \<le> t" by (auto simp: token_bucket_def Let_def split: if_splits)
  moreover have "t \<le> 2 ^ 53" using assms(2,4) by (metis of_nat_le_numeral_power_cancel_iff order_trans)
  ultimately show pred: "f64_round (t - 1) = t - 1" using assms(3) by (intro f64.rnd_pred)
  from assms(1,5) pred show "ls_tokens st' = t - 1" and "ls_last_refill st' = Some now"
    by (auto simp: token_bucket_def Let_def f64_sub_def refill_last split: if_splits)
qed

lemma token_bucket_accept:
  assumes inv: "token_inv n acc st" and le: "\<forall>a\<in>set acc. a \<le> now" and "n \<le> 2 ^ 53" and "0 \<le> rate"
    and adm: "token_bucket (real n) rate st now = (True, st')"
  shows "token_inv n (acc @ [now]) st'"
proof -
  define t where "t = ls_tokens (refill_bucket (real n) rate st now)"
  have t: "f64_round t = t \<and> t + real (count_list acc now) \<le> real n"
  proof (cases "acc = []")
    case True
    with inv have "ls_last_refill st = None" by (simp add: token_inv_def)
    with True assms(3) show ?thesis by (simp add: t_def refill_fresh f64.rnd_nat)
  next
    case False
    with inv have st: "ls_last_refill st = Some (last acc)" "0 \<le> ls_tokens st"
      "f64_round (ls_tokens st) = ls_tokens st"
      "ls_tokens st + real (count_list acc (last acc)) \<le> real n"
      by (auto simp: token_inv_def)
    show ?thesis
    proof (cases "last acc = now")
      case True
      with st show ?thesis by (simp add: t_def refill_same_instant)
    next
      case later: False
      have "sorted acc" using inv by (simp add: token_inv_def)
      then have "now \<in> set acc \<Longrightarrow> now \<le> last acc" by (rule sorted_le_last)
      moreover have "last acc < now" using le False later by (simp add: order_less_le)
      ultimately have "count_list acc now = 0" by (auto simp: count_list_0_iff)
      with refill_bounds [OF st(1,2) assms(4,3)] show ?thesis by (simp add: t_def)
    qed
  qed
  then have "t \<le> real n" by linarith
  note st' = take_token [OF adm assms(3) _ this t_def]
  have cnt: "count_list acc now + 1 \<le> n" using t st'(1) by linarith
  have "burst_ok n (acc @ [now])"
    using inv cnt by (auto simp: token_inv_def burst_ok_def)
  moreover have "sorted (acc @ [now])" using inv le by (auto simp: token_inv_def sorted_append)
  ultimately show ?thesis using t st' by (simp add: token_inv_def)
qed

lemma unat_u32_le: "unat (w :: u32) \<le> 2 ^ 53"
  using unat_lt_max_word [of w] by simp

interpretation token: policy_contract TokenBucket rule "token_inv (unat (sl_limit rule))"
  "burst_ok (unat (sl_limit rule))" for rule
proof unfold_locales
  show "token_inv (unat (sl_limit rule)) [] default_limit_state"
    by (simp add: token_inv_def burst_ok_def default_limit_state_def)
next
  fix acc st now st'
  assume "token_inv (unat (sl_limit rule)) acc st" "\<forall>a\<in>set acc. a \<le> now"
    and adm: "apply_policy TokenBucket rule st now = (True, st')"
  moreover have "0 \<le> f64_div (real (unat (sl_limit rule)))
      (f64_of_nat (unat (max (sl_window_seconds rule) 1)))"
    unfolding f64_div_def
    by (intro f64.rnd_nonneg divide_nonneg_nonneg f64_of_nat_nonneg of_nat_0_le_iff)
  ultimately show "token_inv (unat (sl_limit rule)) (acc @ [now]) st'"
    by (intro token_bucket_accept [OF _ _ unat_u32_le]) (auto simp: Let_def)
qed (auto simp: token_inv_def split: if_splits)

section \<open>A burst at one instant\<close>

text \<open>\<open>holds_tokens st now m\<close>: the bucket holds \<open>m\<close> whole tokens and was last filled now.\<close>

definition holds_tokens :: "limit_state \<Rightarrow> instant \<Rightarrow> nat \<Rightarrow> bool" where
  "holds_tokens st now m \<longleftrightarrow> ls_last_refill st = Some now \<and> ls_tokens st = real m"

lemma token_bucket_whole:
  assumes "holds_tokens st now m" and "m \<le> n" and "n \<le> 2 ^ 53"
  shows "fst (token_bucket (real n) rate st now) \<longleftrightarrow> 0 < m"
    and "holds_tokens (snd (token_bucket (real n) rate st now)) now (m - 1)"
proof -
  have st: "ls_last_refill st = Some now" "ls_tokens st = real m"
    using assms(1) by (simp_all add: holds_tokens_def)
  have rnd: "f64_round (real m) = real m" using assms(2,3) by (intro f64.rnd_nat) simp
  have t: "ls_tokens (refill_bucket (real n) rate st now) = real m"
    using refill_same_instant [of st now n rate] st rnd assms(2) by simp
  have "f64_round (real m - 1) = real m - 1" if "0 < m"
  proof (rule f64.rnd_pred [OF rnd])
    show "1 \<le> real m" using that by simp
    have "m \<le> 2 ^ 53" using assms(2,3) by simp
    then show "real m \<le> 2 ^ 53" by (metis of_nat_le_numeral_power_cancel_iff)
  qed
  then have sub: "f64_sub (real m) 1 = real (m - 1)" if "0 < m"
    using that by (simp add: f64_sub_def of_nat_diff)
  show "fst (token_bucket (real n) rate st now) \<longleftrightarrow> 0 < m"
    and "holds_tokens (snd (token_bucket (real n) rate st now)) now (m - 1)"
    using sub by (auto simp: token_bucket_def Let_def t holds_tokens_def refill_last)
qed

lemma token_bucket_fresh:
  assumes "ls_last_refill st = None" and "n \<le> 2 ^ 53"
  shows "token_bucket (real n) rate st now
    = token_bucket (real n) rate (st\<lparr>ls_tokens := real n, ls_last_refill := Some now\<rparr>) now"
  using assms by (simp add: token_bucket_def refill_bucket_def)

definition burst_verdicts :: "nat \<Rightarrow> nat \<Rightarrow> bool list" where
  "burst_verdicts n m = replicate (min n m) True @ replicate (n - m) False"

lemma burst_verdicts_Suc: "burst_verdicts (Suc n) m = (0 < m) # burst_verdicts n (m - 1)"
  by (cases m) (simp_all add: burst_verdicts_def)

lemma legacy_burst_run:
  assumes "rl_enabled cfg" and "uses_legacy_bucket cfg" and "m \<le> unat (rl_capacity cfg)"
    and "holds_tokens (state_of states (scope_key Client (rc_client ctx))) now m"
  shows "\<exists>states'. limiter_run ovf cfg states (replicate n (ctx, now))
           = Ret (burst_verdicts n m, states')"
  using assms(3,4)
proof (induction n arbitrary: states m)
  case 0
  then show ?case by (simp add: burst_verdicts_def)
next
  case (Suc n)
  let ?k = "scope_key Client (rc_client ctx)"
  let ?tb = "token_bucket (real (unat (rl_capacity cfg))) (f64_of_nat (unat (rl_refill_per_second cfg)))
      (state_of states ?k) now"
  note step = token_bucket_whole [OF Suc.prems(2,1) unat_u32_le,
      of "f64_of_nat (unat (rl_refill_per_second cfg))"]
  have "check_with_context ovf cfg ctx now states = Ret (0 < m, states(?k \<mapsto> snd ?tb))"
    using assms(1,2) step(1)
    by (simp add: check_with_context_def apply_legacy_token_bucket_def Let_def split_beta)
  moreover have "\<exists>states'. limiter_run ovf cfg (states(?k \<mapsto> snd ?tb)) (replicate n (ctx, now))
      = Ret (burst_verdicts n (m - 1), states')"
    using Suc.prems(1) step(2) by (intro Suc.IH) (auto simp: state_of_def)
  ultimately show ?case by (auto simp: burst_verdicts_Suc)
qed

section \<open>Two rules of one scope share a state\<close>

text \<open>
  \<open>scope_key\<close> does not mention the rule, so two rules of one scope read and write one state; the
  last one staged wins.  \<open>shared_state\<close> is that state between two requests: the window of the
  second rule, which the first rule takes for its own.
\<close>

definition two_fixed_rules :: "rate_limit_config \<Rightarrow> scoped_limit_rule \<Rightarrow> scoped_limit_rule \<Rightarrow> bool" where
  "two_fixed_rules cfg r1 r2 \<longleftrightarrow>
     rl_enabled cfg \<and> rl_scoped_limits cfg = [r1, r2] \<and>
     sl_scope r1 = Client \<and> sl_scope r2 = Client \<and> sl_quota r1 = None \<and> sl_quota r2 = None \<and>
     rule_policy cfg r1 = FixedWindow \<and> rule_policy cfg r2 = FixedWindow"

definition shared_state :: "limit_state \<Rightarrow> nat \<Rightarrow> bool" where
  "shared_state st k \<longleftrightarrow> ls_fixed_window_start st = Some 0 \<and> unat (ls_fixed_window_count st) = k \<and>
     unat (ls_accepted_total st) = k"

lemma fixed_window_late:
  assumes "ls_fixed_window_start st = Some 0" and "rule_window r \<le> t" and "0 < unat (sl_limit r)"
  shows "fst (fixed_window r st t)"
  using assms unat_ucast_limit [of r]
  by (auto simp: fixed_window_def Let_def duration_since_def word_less_nat_alt)

lemma fixed_window_early:
  assumes "ls_fixed_window_start st = Some 0" and "t < rule_window r"
    and "unat (ls_fixed_window_count st) < unat (sl_limit r)"
  shows "fixed_window r st t = (True, st\<lparr>ls_fixed_window_count := ls_fixed_window_count st + 1\<rparr>)"
  using assms unat_ucast_limit [of r]
  by (cases st) (auto simp: fixed_window_def Let_def duration_since_def word_less_nat_alt)

lemma shared_step:
  assumes cfg: "two_fixed_rules cfg r1 r2" and t: "t < rule_window r2"
    and first: "fst (fixed_window r1 st t)" and st: "shared_state st k"
    and k: "k < unat (sl_limit r2)" and states: "states (scope_key Client (rc_client ctx)) = Some st"
  shows "\<exists>st'. check_with_context ovf cfg ctx t states
      = Ret (True, states(scope_key Client (rc_client ctx) \<mapsto> st')) \<and> shared_state st' (Suc k)"
proof -
  have small: "k < 2 ^ 32" using k unat_lt_max_word [of "sl_limit r2"] by simp
  obtain n1 where n1: "fixed_window r1 st t = (True, n1)" using first by (cases "fixed_window r1 st t") auto
  have tot: "ls_accepted_total n1 = ls_accepted_total st"
    using apply_policy_total [of FixedWindow r1 st t True n1] n1 by simp
  let ?n2 = "st\<lparr>ls_fixed_window_count := ls_fixed_window_count st + 1\<rparr>"
  have n2: "fixed_window r2 st t = (True, ?n2)"
    using st k by (intro fixed_window_early [OF _ t]) (auto simp: shared_state_def)
  let ?st' = "?n2\<lparr>ls_accepted_total := ls_accepted_total st + 1\<rparr>"
  have add: "add_chk ovf (ls_accepted_total st) 1 = Ret (ls_accepted_total st + 1)"
    using small st by (intro add_chk_no_overflow) (simp add: shared_state_def)
  have "check_with_context ovf cfg ctx t states
      = Ret (True, states(scope_key Client (rc_client ctx) \<mapsto> ?st'))"
    using cfg n1 n2 add states
    by (simp add: two_fixed_rules_def check_with_context_def uses_legacy_bucket_def
        effective_rules_for_context_def state_of_def quota_reached_def Let_def tot commit_def)
  moreover have "shared_state ?st' (Suc k)"
    using st small by (simp add: shared_state_def unat_word_ariths)
  ultimately show ?thesis by blast
qed

lemma shared_run:
  assumes "two_fixed_rules cfg r1 r2" and "rule_window r1 \<le> t" and "t < rule_window r2"
    and "0 < unat (sl_limit r1)"
  shows "states (scope_key Client (rc_client ctx)) = Some st \<Longrightarrow> shared_state st k \<Longrightarrow>
    k + n \<le> unat (sl_limit r2) \<Longrightarrow>
    \<exists>states'. limiter_run ovf cfg states (replicate n (ctx, t)) = Ret (replicate n True, states')"
proof (induction n arbitrary: states st k)
  case (Suc n)
  have "fst (fixed_window r1 st t)"
    using Suc.prems(2) assms(2,4) by (intro fixed_window_late) (auto simp: shared_state_def)
  then obtain st' where "check_with_context ovf cfg ctx t states
      = Ret (True, states(scope_key Client (rc_client ctx) \<mapsto> st'))" "shared_state st' (Suc k)"
    using shared_step [of cfg r1 r2 t st k states ctx ovf] assms(1,3) Suc.prems by auto
  then show ?case
    using Suc.IH [of "states(scope_key Client (rc_client ctx) \<mapsto> st')" st' "Suc k"] Suc.prems(3)
    by (simp add: fun_upd_def)
qed simp

section \<open>Properties\<close>

definition sample_quota_config :: rate_limit_config where
  "sample_quota_config =
     \<lparr>rl_enabled = True, rl_policy = SlidingWindow, rl_capacity = 100, rl_refill_per_second = 100,
      rl_fixed_window_seconds = 60, rl_sliding_window_seconds = 60,
      rl_scoped_limits = [\<lparr>sl_scope = Consumer, sl_limit = 10, sl_quota = Some 2,
        sl_window_seconds = 60, sl_policy = Some SlidingWindow\<rparr>]\<rparr>"

definition sample_context :: rate_limit_context where
  "sample_context =
     \<lparr>rc_route = ''r'', rc_service = ''s'', rc_consumer = Some ''user-1'', rc_client = ''10.0.0.1''\<rparr>"

text \<open>The verdicts of a run, for evaluating it.\<close>

definition verdicts :: "(bool list \<times> limit_states) rust \<Rightarrow> bool list option" where
  "verdicts r = (case r of Panic \<Rightarrow> None | Ret (oks, _) \<Rightarrow> Some oks)"

lemma verdicts_Some: "verdicts r = Some oks \<Longrightarrow> \<exists>states'. r = Ret (oks, states')"
  by (auto simp: verdicts_def split: rust.splits)

lemmas run_simps [rust_simps] =
  verdicts_def check_with_context_def uses_legacy_bucket_def effective_rules_for_context_def
  rule_policy_def state_of_def quota_reached_def commit_def default_limit_state_def add_chk_def
  sliding_window_def fixed_window_def rule_window_def from_secs_def duration_since_def

text \<open>
  C28. The fixed window bounds every window by twice the limit.  For a scope with one rule, under
  the fixed-window policy, no interval of the rule's window length (aligned or not) holds more
  than twice the limit of accepted requests of one scope value.  The limiter starts fresh and enabled,
  and the instants of the requests do not run backwards.
\<close>

theorem fixed_window_bound:
  assumes "rl_enabled cfg"
    and "filter (\<lambda>r. sl_scope r = sl_scope rule) (rl_scoped_limits cfg) = [rule]"
    and "rule_policy cfg rule = FixedWindow"
    and "limiter_run ovf cfg Map.empty reqs = Ret (oks, states')" and "sorted (map snd reqs)"
  shows "length (filter (\<lambda>a. a \<le> t \<and> t < a + rule_window rule)
           (accepted_times (sl_scope rule) v reqs oks)) \<le> 2 * unat (sl_limit rule)"
  using fixed.run_safe [OF assms] by (simp add: windows_ok_def)

definition sample_fixed_config :: rate_limit_config where
  "sample_fixed_config =
     \<lparr>rl_enabled = True, rl_policy = FixedWindow, rl_capacity = 100, rl_refill_per_second = 100,
      rl_fixed_window_seconds = 1, rl_sliding_window_seconds = 60,
      rl_scoped_limits = [\<lparr>sl_scope = Client, sl_limit = 1, sl_quota = None,
        sl_window_seconds = 1, sl_policy = Some FixedWindow\<rparr>]\<rparr>"

lemma sample_fixed_run:
  "verdicts (limiter_run True sample_fixed_config Map.empty
      [(sample_context, 0), (sample_context, 5), (sample_context, 1100000000)])
   = Some [True, False, True]"
  by (simp add: rust_simps Let_def word_le_nat_alt sample_fixed_config_def sample_context_def)

theorem fixed_window_bound_witness:
  "length (filter (\<lambda>a. a \<le> 7 \<and> 7 < a + 1000000000)
     (accepted_times Client ''10.0.0.1''
       [(sample_context, 0), (sample_context, 5), (sample_context, 1100000000)]
       [True, False, True])) \<le> 2"
proof -
  obtain states' where run: "limiter_run True sample_fixed_config Map.empty
      [(sample_context, 0), (sample_context, 5), (sample_context, 1100000000)]
      = Ret ([True, False, True], states')"
    using verdicts_Some [OF sample_fixed_run] by blast
  show ?thesis
    using fixed_window_bound [OF _ _ _ run, of "hd (rl_scoped_limits sample_fixed_config)" 7
        "''10.0.0.1''"]
    by (simp add: sample_fixed_config_def rule_policy_def rule_window_def from_secs_def)
qed

text \<open>
  C27. A token bucket never lets a burst exceed its limit, in \<open>f64\<close> arithmetic with rounding.  For a
  scope with one rule, under the token-bucket policy, the number of requests of one scope value
  accepted at any one instant is at most the limit, whatever the refills before it.  The limiter starts
  fresh and enabled, and the instants of the requests do not run backwards.
\<close>

theorem token_bucket_burst_bound:
  assumes "rl_enabled cfg"
    and "filter (\<lambda>r. sl_scope r = sl_scope rule) (rl_scoped_limits cfg) = [rule]"
    and "rule_policy cfg rule = TokenBucket"
    and "limiter_run ovf cfg Map.empty reqs = Ret (oks, states')" and "sorted (map snd reqs)"
  shows "count_list (accepted_times (sl_scope rule) v reqs oks) t \<le> unat (sl_limit rule)"
  using token.run_safe [OF assms] by (simp add: burst_ok_def)

definition sample_token_config :: rate_limit_config where
  "sample_token_config =
     \<lparr>rl_enabled = True, rl_policy = TokenBucket, rl_capacity = 100, rl_refill_per_second = 100,
      rl_fixed_window_seconds = 60, rl_sliding_window_seconds = 60,
      rl_scoped_limits = [\<lparr>sl_scope = Client, sl_limit = 1, sl_quota = None,
        sl_window_seconds = 1, sl_policy = None\<rparr>]\<rparr>"

lemma sample_token_run:
  "verdicts (limiter_run True sample_token_config Map.empty [(sample_context, 0), (sample_context, 0)])
   = Some [True, False]"
  by (simp add: rust_simps Let_def sample_token_config_def sample_context_def token_bucket_def
      refill_bucket_def f64_add_def f64_sub_def f64_mul_def f64.rnd_0 f64_of_nat_def
      f64.rnd_nat [of 1, simplified])

theorem token_bucket_burst_bound_witness:
  "count_list (accepted_times Client ''10.0.0.1''
     [(sample_context, 0), (sample_context, 0)] [True, False]) 0 \<le> 1"
proof -
  obtain states' where run: "limiter_run True sample_token_config Map.empty
      [(sample_context, 0), (sample_context, 0)] = Ret ([True, False], states')"
    using verdicts_Some [OF sample_token_run] by blast
  show ?thesis
    using token_bucket_burst_bound [OF _ _ _ run, of "hd (rl_scoped_limits sample_token_config)"
        "''10.0.0.1''" 0]
    by (simp add: sample_token_config_def rule_policy_def)
qed

text \<open>
  The default limiter admits exactly its capacity.  With no scoped limits and the token-bucket
  policy, \<open>n\<close> requests of one client at one instant on a fresh limiter are accepted up to the
  capacity and rejected from then on.
\<close>

lemma legacy_bucket_exact_burst:
  assumes "rl_enabled cfg" and "uses_legacy_bucket cfg"
  shows "\<exists>states'. limiter_run ovf cfg Map.empty (replicate n (ctx, now)) =
    Ret (replicate (min n (unat (rl_capacity cfg))) True
         @ replicate (n - unat (rl_capacity cfg)) False, states')"
proof (cases n)
  case (Suc k)
  let ?key = "scope_key Client (rc_client ctx)" and ?cap = "unat (rl_capacity cfg)"
  let ?full = "default_limit_state\<lparr>ls_tokens := real ?cap, ls_last_refill := Some now\<rparr>"
  have fresh: "check_with_context ovf cfg ctx now Map.empty =
      (case check_with_context ovf cfg ctx now [?key \<mapsto> ?full] of Panic \<Rightarrow> Panic
       | Ret (ok, st) \<Rightarrow> Ret (ok, st))"
    using assms token_bucket_fresh [of default_limit_state ?cap, OF _ unat_u32_le]
    by (simp add: check_with_context_def apply_legacy_token_bucket_def Let_def split_beta
        state_of_def default_limit_state_def)
  have "\<exists>states'. limiter_run ovf cfg [?key \<mapsto> ?full] (replicate n (ctx, now))
      = Ret (burst_verdicts n ?cap, states')"
    using assms by (intro legacy_burst_run) (auto simp: holds_tokens_def state_of_def)
  then show ?thesis using fresh by (auto simp: Suc burst_verdicts_def split: rust.splits prod.splits)
qed simp

definition sample_legacy_config :: rate_limit_config where
  "sample_legacy_config = default_rate_limit_config\<lparr>rl_enabled := True, rl_capacity := 2\<rparr>"

lemma legacy_bucket_exact_burst_example:
  "\<exists>states'. limiter_run True sample_legacy_config Map.empty (replicate 3 (sample_context, 0))
      = Ret ([True, True, False], states')"
proof -
  have "rl_enabled sample_legacy_config" and "uses_legacy_bucket sample_legacy_config"
    by (simp_all add: sample_legacy_config_def default_rate_limit_config_def uses_legacy_bucket_def)
  then have "\<exists>states'. limiter_run True sample_legacy_config Map.empty (replicate 3 (sample_context, 0)) =
    Ret (replicate (min 3 (unat (rl_capacity sample_legacy_config))) True
         @ replicate (3 - unat (rl_capacity sample_legacy_config)) False, states')"
    by (rule legacy_bucket_exact_burst)
  moreover have "unat (rl_capacity sample_legacy_config) = 2" by (simp add: sample_legacy_config_def)
  moreover have "replicate (min 3 2) True @ replicate (3 - 2) False = [True, True, False]"
    by (simp add: numeral_2_eq_2)
  ultimately show ?thesis by (simp only:)
qed

text \<open>
  C29. What a check changes.  A disabled limiter accepts and changes nothing.  With scoped limits or
  a window policy a check is all or nothing: a refused request leaves every state as it was; an
  accepted one adds one to the accepted total of every effective rule's key and leaves every other
  key as it was.  Without scoped limits under the token-bucket policy (the legacy bucket of the
  client) both verdicts refill: nothing changes but the tokens and the refill instant of the
  client's key; the refill instant is the instant of the check, and no accepted total is counted.
\<close>

theorem check_all_or_nothing:
  assumes "check_with_context ovf cfg ctx now states = Ret (ok, states')"
  shows "if \<not> rl_enabled cfg then ok \<and> states' = states
    else if uses_legacy_bucket cfg then
      (\<exists>tokens. states' = states(scope_key Client (rc_client ctx) \<mapsto>
         (state_of states (scope_key Client (rc_client ctx)))\<lparr>ls_tokens := tokens, ls_last_refill := Some now\<rparr>))
    else if ok then
      \<forall>k. if k \<in> (\<lambda>(rule, v). scope_key (sl_scope rule) v) ` set (effective_rules_for_context cfg ctx)
          then ls_accepted_total (state_of states' k) = ls_accepted_total (state_of states k) + 1
          else states' k = states k
    else states' = states"
proof -
  consider (disabled) "\<not> rl_enabled cfg" | (legacy) "rl_enabled cfg" "uses_legacy_bucket cfg"
    | (accepted) "rl_enabled cfg" "\<not> uses_legacy_bucket cfg" "ok"
    | (refused) "rl_enabled cfg" "\<not> uses_legacy_bucket cfg" "\<not> ok" by blast
  then show ?thesis
  proof cases
    case disabled
    with assms show ?thesis by (simp add: check_with_context_def)
  next
    case legacy
    let ?key = "scope_key Client (rc_client ctx)"
    obtain tokens where "snd (apply_legacy_token_bucket cfg (state_of states ?key) now)
        = (state_of states ?key)\<lparr>ls_tokens := tokens, ls_last_refill := Some now\<rparr>"
      unfolding apply_legacy_token_bucket_def using token_bucket_frame by blast
    with assms legacy show ?thesis by (auto simp: check_with_context_def Let_def split_beta)
  next
    case accepted
    then show ?thesis using check_accepts_all [of ovf cfg ctx now states states'] assms by simp
  next
    case refused
    then show ?thesis using check_rejects_unchanged [of ovf cfg ctx now states states'] assms by simp
  qed
qed

text \<open>Reading the verdict of one check.\<close>

lemma check_verdict:
  "(case r of Panic \<Rightarrow> None | Ret (ok, _) \<Rightarrow> Some ok) = Some ok \<Longrightarrow> \<exists>states'. r = Ret (ok, states')"
  by (auto split: rust.splits)

theorem check_all_or_nothing_witness:
  "\<exists>states'. check_with_context True sample_fixed_config sample_context 0 Map.empty
      = Ret (True, states') \<and>
     ls_accepted_total (state_of states' (scope_key Client ''10.0.0.1'')) = 1 \<and>
     states' (scope_key Client ''other'') = None"
proof -
  have "(case check_with_context True sample_fixed_config sample_context 0 Map.empty of
      Panic \<Rightarrow> None | Ret (ok, _) \<Rightarrow> Some ok) = Some True"
    by (simp add: rust_simps Let_def word_le_nat_alt sample_fixed_config_def sample_context_def)
  then have "\<exists>states'. check_with_context True sample_fixed_config sample_context 0 Map.empty
      = Ret (True, states')" by (rule check_verdict)
  then obtain states' where check: "check_with_context True sample_fixed_config sample_context 0 Map.empty
      = Ret (True, states')" by (elim exE)
  have "rl_enabled sample_fixed_config" and "\<not> uses_legacy_bucket sample_fixed_config"
    and eff: "effective_rules_for_context sample_fixed_config sample_context
      = [(hd (rl_scoped_limits sample_fixed_config), ''10.0.0.1'')]"
    and scope: "sl_scope (hd (rl_scoped_limits sample_fixed_config)) = Client"
    by (simp_all add: sample_fixed_config_def sample_context_def uses_legacy_bucket_def
        effective_rules_for_context_def)
  with check_all_or_nothing [OF check]
  have all: "\<forall>k. if k \<in> {scope_key Client ''10.0.0.1''}
      then ls_accepted_total (state_of states' k) = ls_accepted_total (state_of Map.empty k) + 1
      else states' k = Map.empty k"
    by (simp add: eff scope del: One_nat_def)
  from all [THEN spec, of "scope_key Client ''10.0.0.1''"] all [THEN spec, of "scope_key Client ''other''"]
  show ?thesis using check by (simp add: state_of_def default_limit_state_def)
qed

text \<open>
  Two rules of one scope do not both hold.  With two fixed-window rules of the client scope, the
  second with the longer window, a client that has been accepted once at instant \<open>0\<close> is accepted
  any number of times at one later instant up to the limit of the second rule, although the first
  rule allows only its own limit in that window: once its window is over, the first rule starts a
  new window on every request and never sees its own count.
\<close>

lemma same_scope_rules_interfere:
  assumes "two_fixed_rules cfg r1 r2" and "rule_window r1 \<le> t" and "t < rule_window r2"
    and "0 < unat (sl_limit r1)" and "Suc n \<le> unat (sl_limit r2)"
  shows "\<exists>states'. limiter_run ovf cfg Map.empty ((ctx, 0) # replicate n (ctx, t))
           = Ret (replicate (Suc n) True, states')"
proof -
  let ?k = "scope_key Client (rc_client ctx)"
  let ?first = "default_limit_state\<lparr>ls_fixed_window_start := Some 0, ls_fixed_window_count := 1,
      ls_accepted_total := 1\<rparr>"
  have fresh: "fixed_window r default_limit_state 0 =
      (True, default_limit_state\<lparr>ls_fixed_window_start := Some 0, ls_fixed_window_count := 1\<rparr>)"
    if "0 < unat (sl_limit r)" for r
    using that rule_window_pos [of r] unat_ucast_limit [of r]
    by (auto simp: fixed_window_def default_limit_state_def Let_def word_less_nat_alt)
  have total: "ls_accepted_total default_limit_state = 0" "add_chk ovf (0 :: u64) 1 = Ret 1"
    by (simp_all add: default_limit_state_def add_chk_def)
  have "check_with_context ovf cfg ctx 0 Map.empty = Ret (True, [?k \<mapsto> ?first])"
    using assms(1) fresh [OF assms(4)] fresh [of r2] assms(5) total
    by (simp add: two_fixed_rules_def check_with_context_def uses_legacy_bucket_def
        effective_rules_for_context_def state_of_def quota_reached_def Let_def commit_def)
  moreover have "\<exists>states'. limiter_run ovf cfg [?k \<mapsto> ?first] (replicate n (ctx, t))
      = Ret (replicate n True, states')"
    using assms(5) by (intro shared_run [OF assms(1-4), of _ _ ?first 1]) (auto simp: shared_state_def)
  ultimately show ?thesis by auto
qed

end
