(* ===== verification/Sliding_Spec.thy ===== *)
theory Sliding_Spec
  imports Rate_Limit
begin

text \<open>
  An exact specification of the sliding-window policy.  The reference limiter keeps the whole list of
  accepted requests and accepts one exactly if fewer than the limit of them, for the same scope
  value, lie within the window before it; it drops nothing and counts from scratch every time.  The
  queue of the code, which drops old hits at its front and is only written when a request is
  accepted, is shown to give the same verdicts.
\<close>

section \<open>The reference limiter\<close>

definition recent :: "duration \<Rightarrow> instant \<Rightarrow> string \<Rightarrow> (string \<times> instant) list \<Rightarrow> nat" where
  "recent window now v accepted = length (filter (\<lambda>(v', a). v' = v \<and> now < a + window) accepted)"

fun sliding_spec ::
    "nat \<Rightarrow> duration \<Rightarrow> (string \<times> instant) list \<Rightarrow> (string \<times> instant) list \<Rightarrow> bool list" where
  "sliding_spec limit window accepted [] = []"
| "sliding_spec limit window accepted ((v, now) # reqs) =
     (let ok = recent window now v accepted < limit
      in ok # sliding_spec limit window (if ok then accepted @ [(v, now)] else accepted) reqs)"

section \<open>The queue\<close>

lemma dropWhile_sorted:
  assumes "sorted xs" and "0 < (w :: nat)"
  shows "dropWhile (\<lambda>a. w \<le> t - a) xs = filter (\<lambda>a. t < a + w) xs"
  using assms(1)
proof (induction xs)
  case (Cons x xs)
  show ?case
  proof (cases "w \<le> t - x")
    case True
    then have "\<not> t < x + w" using assms(2) by linarith
    with True Cons show ?thesis by simp
  next
    case False
    have "t < a + w" if "a \<in> set (x # xs)" for a
      using that False Cons.prems by (auto simp: not_le)
    with False show ?thesis by (simp add: filter_id_conv)
  qed
qed simp

text \<open>
  The state of a scope value against the accepted requests: what is no longer in the queue is older
  than a window.
\<close>

definition matches :: "duration \<Rightarrow> instant \<Rightarrow> instant list \<Rightarrow> limit_state \<Rightarrow> bool" where
  "matches window last_seen hits st \<longleftrightarrow>
     sorted hits \<and> (\<forall>a\<in>set hits. a \<le> last_seen) \<and>
     (\<exists>old. hits = old @ ls_sliding_hits st \<and> (\<forall>a\<in>set old. a + window \<le> last_seen)) \<and>
     unat (ls_accepted_total st) = length hits"

definition hits_of :: "string \<Rightarrow> (string \<times> instant) list \<Rightarrow> instant list" where
  "hits_of v accepted = map snd (filter (\<lambda>e. fst e = v) accepted)"

lemma hits_of_snoc: "hits_of v (accepted @ [(v', t)]) = hits_of v accepted @ (if v' = v then [t] else [])"
  by (simp add: hits_of_def)

lemma length_hits_of: "length (hits_of v accepted) \<le> length accepted"
  by (simp add: hits_of_def)

lemma recent_hits: "recent window now v accepted = length (filter (\<lambda>a. now < a + window) (hits_of v accepted))"
  by (induction accepted) (auto simp: recent_def hits_of_def)

lemma matches_later:
  assumes "matches window t hits st" and "t \<le> t'"
  shows "matches window t' hits st"
proof -
  obtain old where "hits = old @ ls_sliding_hits st" and "\<forall>a\<in>set old. a + window \<le> t"
    using assms(1) by (auto simp: matches_def)
  then have "\<exists>old. hits = old @ ls_sliding_hits st \<and> (\<forall>a\<in>set old. a + window \<le> t')"
    using assms(2) by (intro exI [of _ old]) (auto intro: order_trans)
  then show ?thesis using assms unfolding matches_def by (meson order_trans)
qed

text \<open>One application of the policy.\<close>

lemma matches_queue:
  assumes "matches (rule_window rule) t hits st" and "t \<le> now"
  shows "dropWhile (\<lambda>a. rule_window rule \<le> duration_since now a) (ls_sliding_hits st)
    = filter (\<lambda>a. now < a + rule_window rule) hits"
proof -
  obtain old where hits: "hits = old @ ls_sliding_hits st" and old: "\<forall>a\<in>set old. a + rule_window rule \<le> t"
    using assms(1) by (auto simp: matches_def)
  have "sorted (ls_sliding_hits st)" using assms(1) hits by (simp add: matches_def sorted_append)
  moreover have "filter (\<lambda>a. now < a + rule_window rule) old = []"
    using old assms(2) by (fastforce simp: filter_empty_conv)
  ultimately show ?thesis
    using rule_window_pos [of rule] by (simp add: duration_since_def dropWhile_sorted hits)
qed

lemma matches_accept:
  assumes "matches (rule_window rule) t hits st" and "t \<le> now" and "length hits + 1 < 2 ^ 64"
  shows "matches (rule_window rule) now (hits @ [now])
    (st\<lparr>ls_sliding_hits := filter (\<lambda>a. now < a + rule_window rule) hits @ [now],
       ls_accepted_total := ls_accepted_total st + 1\<rparr>)"
proof -
  let ?w = "rule_window rule"
  have sorted: "sorted hits" and le: "\<forall>a\<in>set hits. a \<le> t" and total: "unat (ls_accepted_total st) = length hits"
    using assms(1) by (auto simp: matches_def)
  have split: "hits = takeWhile (\<lambda>a. ?w \<le> now - a) hits @ filter (\<lambda>a. now < a + ?w) hits"
    using dropWhile_sorted [OF sorted rule_window_pos, of rule now] takeWhile_dropWhile_id
    by metis
  have "a + ?w \<le> now" if "a \<in> set (takeWhile (\<lambda>a. ?w \<le> now - a) hits)" for a
  proof -
    have "?w \<le> now - a" and "a \<in> set hits" using set_takeWhileD [OF that] by auto
    then show ?thesis using rule_window_pos [of rule] by linarith
  qed
  moreover have "unat (ls_accepted_total st + 1) = length hits + 1"
    using unat_plus_no_overflow [of "ls_accepted_total st" 1] assms(3) total by simp
  moreover have "hits @ [now] = takeWhile (\<lambda>a. ?w \<le> now - a) hits @ filter (\<lambda>a. now < a + ?w) hits @ [now]"
    using split by simp
  moreover have "sorted (hits @ [now])" and "\<forall>a\<in>set (hits @ [now]). a \<le> now"
    using sorted le assms(2) by (auto simp: sorted_append)
  ultimately show ?thesis unfolding matches_def by (auto intro!: exI)
qed

section \<open>One check and a run\<close>

definition one_sliding_rule :: "rate_limit_config \<Rightarrow> scoped_limit_rule \<Rightarrow> bool" where
  "one_sliding_rule cfg rule \<longleftrightarrow>
     rl_enabled cfg \<and> rl_scoped_limits cfg = [rule] \<and> sl_quota rule = None \<and>
     rule_policy cfg rule = SlidingWindow"

lemma check_one_sliding:
  assumes cfg: "one_sliding_rule cfg rule"
    and m: "matches (rule_window rule) t hits (state_of states key)" and t: "t \<le> now"
    and small: "length hits + 1 < 2 ^ 64" and key: "key = scope_key (sl_scope rule) (scope_value ctx (sl_scope rule))"
  shows "check_with_context ovf cfg ctx now states =
    Ret (if length (filter (\<lambda>a. now < a + rule_window rule) hits) < unat (sl_limit rule)
      then (True, states(key \<mapsto> (state_of states key)
        \<lparr>ls_sliding_hits := filter (\<lambda>a. now < a + rule_window rule) hits @ [now],
         ls_accepted_total := ls_accepted_total (state_of states key) + 1\<rparr>))
      else (False, states))"
proof -
  let ?h = "filter (\<lambda>a. now < a + rule_window rule) hits"
  have policy: "apply_policy SlidingWindow rule (state_of states key) now =
      (if length ?h < unat (sl_limit rule) then (True, (state_of states key)\<lparr>ls_sliding_hits := ?h @ [now]\<rparr>)
       else (False, (state_of states key)\<lparr>ls_sliding_hits := ?h\<rparr>))"
    by (simp add: sliding_window_def matches_queue [OF m t] Let_def)
  have "add_chk ovf (ls_accepted_total (state_of states key)) 1 = Ret (ls_accepted_total (state_of states key) + 1)"
    using m small by (intro add_chk_no_overflow) (simp add: matches_def)
  with cfg policy show ?thesis
    by (simp add: one_sliding_rule_def check_with_context_def uses_legacy_bucket_def
        effective_rules_for_context_def quota_reached_def key [symmetric] Let_def commit_def del: apply_policy.simps)
qed

lemma sliding_run:
  assumes cfg: "one_sliding_rule cfg rule"
  shows "(\<And>v. matches (rule_window rule) t (hits_of v accepted) (state_of states (scope_key (sl_scope rule) v))) \<Longrightarrow>
    sorted (t # map snd reqs) \<Longrightarrow> length accepted + length reqs < 2 ^ 64 \<Longrightarrow>
    \<exists>states'. limiter_run ovf cfg states reqs =
      Ret (sliding_spec (unat (sl_limit rule)) (rule_window rule) accepted
        (map (\<lambda>(ctx, now). (scope_value ctx (sl_scope rule), now)) reqs), states')"
proof (induction reqs arbitrary: accepted states t)
  case (Cons req reqs)
  obtain ctx now where req: "req = (ctx, now)" by (cases req)
  let ?v = "scope_value ctx (sl_scope rule)"
  let ?key = "scope_key (sl_scope rule) ?v" and ?h = "filter (\<lambda>a. now < a + rule_window rule) (hits_of ?v accepted)"
  have t: "t \<le> now" and sorted: "sorted (now # map snd reqs)" using Cons.prems(2) by (auto simp: req)
  have small: "length (hits_of ?v accepted) + 1 < 2 ^ 64"
    using Cons.prems(3) length_hits_of [of ?v accepted] by simp
  note check = check_one_sliding [OF cfg Cons.prems(1) t small refl, of ovf]
  show ?case
  proof (cases "recent (rule_window rule) now ?v accepted < unat (sl_limit rule)")
    case True
    let ?states = "states(?key \<mapsto> (state_of states ?key)\<lparr>ls_sliding_hits := ?h @ [now],
        ls_accepted_total := ls_accepted_total (state_of states ?key) + 1\<rparr>)"
    have "matches (rule_window rule) now (hits_of v (accepted @ [(?v, now)])) (state_of ?states (scope_key (sl_scope rule) v))" for v
    proof (cases "v = ?v")
      case True
      then show ?thesis
        using matches_accept [OF Cons.prems(1) t small] by (simp add: hits_of_snoc state_of_def)
    next
      case False
      then show ?thesis
        using matches_later [OF Cons.prems(1) t, of v] by (simp add: hits_of_snoc state_of_def)
    qed
    from Cons.IH [OF this sorted] Cons.prems(3) have
      "\<exists>states'. limiter_run ovf cfg ?states reqs = Ret (sliding_spec (unat (sl_limit rule)) (rule_window rule)
        (accepted @ [(?v, now)]) (map (\<lambda>(ctx, now). (scope_value ctx (sl_scope rule), now)) reqs), states')"
      by (simp del: fun_upd_apply)
    then show ?thesis using check True by (auto simp: req recent_hits simp del: fun_upd_apply)
  next
    case False
    have "matches (rule_window rule) now (hits_of v accepted) (state_of states (scope_key (sl_scope rule) v))" for v
      using matches_later [OF Cons.prems(1) t] .
    from Cons.IH [OF this sorted] Cons.prems(3) obtain states' where
      "limiter_run ovf cfg states reqs = Ret (sliding_spec (unat (sl_limit rule)) (rule_window rule)
        accepted (map (\<lambda>(ctx, now). (scope_value ctx (sl_scope rule), now)) reqs), states')"
      by auto
    then show ?thesis using check False by (simp add: req recent_hits)
  qed
qed simp

section \<open>Properties\<close>

text \<open>
  C5. The sliding window is exact.  With one sliding-window rule without quota, on a fresh limiter,
  for any sequence of fewer than \<open>2 ^ 64\<close> requests whose instants do not run backwards, the verdicts
  are those of the reference limiter: a request is accepted exactly if fewer than the limit of the
  requests accepted before, for its scope value, are less than a window old.
\<close>

theorem sliding_window_exact:
  assumes "rl_enabled cfg" and "rl_scoped_limits cfg = [rule]" and "sl_quota rule = None"
    and "rule_policy cfg rule = SlidingWindow" and "sorted (map snd reqs)" and "length reqs < 2 ^ 64"
  shows "\<exists>states'. limiter_run ovf cfg Map.empty reqs =
    Ret (sliding_spec (unat (sl_limit rule)) (rule_window rule) []
      (map (\<lambda>(ctx, now). (scope_value ctx (sl_scope rule), now)) reqs), states')"
proof (rule sliding_run)
  show "one_sliding_rule cfg rule" using assms by (simp add: one_sliding_rule_def)
  show "matches (rule_window rule) 0 (hits_of v []) (state_of Map.empty (scope_key (sl_scope rule) v))" for v
    by (simp add: matches_def hits_of_def state_of_def default_limit_state_def)
qed (use assms(5,6) in simp_all)

definition sample_sliding_config :: rate_limit_config where
  "sample_sliding_config =
     \<lparr>rl_enabled = True, rl_policy = SlidingWindow, rl_capacity = 100, rl_refill_per_second = 100,
      rl_fixed_window_seconds = 60, rl_sliding_window_seconds = 60,
      rl_scoped_limits = [\<lparr>sl_scope = Client, sl_limit = 1, sl_quota = None,
        sl_window_seconds = 1, sl_policy = None\<rparr>]\<rparr>"

theorem sliding_window_exact_witness:
  "\<exists>states'. limiter_run True sample_sliding_config Map.empty
      [(sample_context, 0), (sample_context, 999999999), (sample_context, 1000000000)]
    = Ret ([True, False, True], states')"
  using sliding_window_exact [of sample_sliding_config "hd (rl_scoped_limits sample_sliding_config)"
      "[(sample_context, 0), (sample_context, 999999999), (sample_context, 1000000000)]" True]
  by (simp add: sample_sliding_config_def rule_policy_def recent_def Let_def rule_window_def from_secs_def
      sample_context_def)

end
