(* ===== verification/Balancer.thy ===== *)
theory Balancer
  imports Prelude "HOL-Library.Multiset"
begin

text \<open>
  \<open>balancer.rs\<close>: the upstream targets and the three balancing strategies.  The reference
  definition is \<open>weighted_slots\<close>, the targets each repeated as often as its weight says: the
  weighted pick is shown to be an index into it, and the round robin to visit every slot once
  per round.
\<close>

section \<open>Model\<close>

datatype balancing_strategy = RoundRobin | LeastConnections | Hash

record upstream_target =
  ut_id :: string
  ut_address :: string
  ut_active_connections :: usize
  ut_weight :: u32

definition default_target_weight :: u32 where
  "default_target_weight = 1"

text \<open>\<open>targets.iter().map(|target| target.weight).sum()\<close>\<close>

fun sum_u32 :: "bool \<Rightarrow> u32 \<Rightarrow> u32 list \<Rightarrow> u32 rust" where
  "sum_u32 ovf acc [] = Ret acc"
| "sum_u32 ovf acc (w # ws) = bind_rust (add_chk ovf acc w) (\<lambda>acc'. sum_u32 ovf acc' ws)"

fun walk_targets :: "upstream_target list \<Rightarrow> u32 \<Rightarrow> upstream_target option" where
  "walk_targets [] cursor = None"
| "walk_targets (t # ts) cursor =
     (if ut_weight t = 0 then walk_targets ts cursor
      else if cursor < ut_weight t then Some t
      else walk_targets ts (cursor - ut_weight t))"

definition pick_weighted_target ::
    "bool \<Rightarrow> upstream_target list \<Rightarrow> usize \<Rightarrow> upstream_target option rust" where
  "pick_weighted_target ovf targets seed =
     bind_rust (sum_u32 ovf 0 (map ut_weight targets)) (\<lambda>total_weight.
       if total_weight = 0 then Ret None
       else Ret (walk_targets targets ((ucast seed :: u32) mod total_weight)))"

definition least_connections_key :: "upstream_target \<Rightarrow> usize" where
  "least_connections_key t =
     (let weight = (ucast (ut_weight t) :: usize)
      in if weight = 0 then - 1 else ut_active_connections t div weight)"

definition select_target ::
    "bool \<Rightarrow> hasher \<Rightarrow> balancing_strategy \<Rightarrow> upstream_target list \<Rightarrow> string option \<Rightarrow> usize \<Rightarrow>
     upstream_target option rust" where
  "select_target ovf hash strategy targets request_key request_count =
     (case strategy of
        RoundRobin \<Rightarrow> pick_weighted_target ovf targets request_count
      | LeastConnections \<Rightarrow>
          Ret (min_by_key least_connections_key (filter (\<lambda>t. ut_weight t > 0) targets))
      | Hash \<Rightarrow> (case request_key of
            None \<Rightarrow> Ret None
          | Some key \<Rightarrow> pick_weighted_target ovf targets (hash [HStr key])))"

text \<open>The targets of the unit tests.\<close>

definition sample_targets :: "upstream_target list" where
  "sample_targets =
     [\<lparr>ut_id = ''a'', ut_address = ''10.0.0.1:8080'', ut_active_connections = 4, ut_weight = 1\<rparr>,
      \<lparr>ut_id = ''b'', ut_address = ''10.0.0.2:8080'', ut_active_connections = 1, ut_weight = 3\<rparr>]"

section \<open>The reference definition\<close>

definition total_weight :: "upstream_target list \<Rightarrow> nat" where
  "total_weight ts = sum_list (map (\<lambda>t. unat (ut_weight t)) ts)"

definition weighted_slots :: "upstream_target list \<Rightarrow> upstream_target list" where
  "weighted_slots ts = concat (map (\<lambda>t. replicate (unat (ut_weight t)) t) ts)"

lemma weight_pos_iff: "0 < ut_weight t \<longleftrightarrow> unat (ut_weight t) \<noteq> 0"
  by (simp add: word_less_nat_alt)

lemma total_weight_simps [simp]:
  "total_weight [] = 0"
  "total_weight (t # ts) = unat (ut_weight t) + total_weight ts"
  by (simp_all add: total_weight_def)

lemma weighted_slots_simps [simp]:
  "weighted_slots [] = []"
  "weighted_slots (t # ts) = replicate (unat (ut_weight t)) t @ weighted_slots ts"
  by (simp_all add: weighted_slots_def)

lemma length_weighted_slots [simp]: "length (weighted_slots ts) = total_weight ts"
  by (induction ts) auto

lemma total_weight_0_iff: "total_weight ts = 0 \<longleftrightarrow> (\<forall>t\<in>set ts. ut_weight t = 0)"
  by (induction ts) (auto simp: unat_eq_0)

lemma set_weighted_slots: "set (weighted_slots ts) = {t \<in> set ts. 0 < ut_weight t}"
proof (induction ts)
  case (Cons t ts)
  have "set (replicate (unat (ut_weight t)) t) = (if 0 < ut_weight t then {t} else {})"
    by (simp add: set_replicate_conv_if weight_pos_iff)
  with Cons show ?case by auto
qed simp

lemma sum_u32_exact:
  "unat acc + total_weight ts < 2 ^ 32 \<Longrightarrow>
   \<exists>s. sum_u32 ovf acc (map ut_weight ts) = Ret s \<and> unat s = unat acc + total_weight ts"
proof (induction ts arbitrary: acc)
  case (Cons t ts)
  then have "unat acc + unat (ut_weight t) < 2 ^ LENGTH(32)" by simp
  then have "unat (acc + ut_weight t) = unat acc + unat (ut_weight t)"
    and "add_chk ovf acc (ut_weight t) = Ret (acc + ut_weight t)"
    by (simp_all add: unat_plus_no_overflow)
  with Cons.IH [of "acc + ut_weight t"] Cons.prems show ?case by (auto simp: add.assoc)
qed simp

lemma sum_u32_wraps:
  "\<exists>s. sum_u32 False acc ws = Ret s \<and> unat s = (unat acc + sum_list (map unat ws)) mod 2 ^ 32"
proof (induction ws arbitrary: acc)
  case Nil
  show ?case using unat_lt_max_word [of acc] by simp
next
  case (Cons w ws)
  obtain s where "sum_u32 False (acc + w) ws = Ret s"
    "unat s = (unat (acc + w) + sum_list (map unat ws)) mod 2 ^ 32"
    using Cons.IH by blast
  then show ?case by (simp add: add_chk_def unat_word_ariths mod_add_left_eq add.assoc)
qed

lemma sum_u32_panics:
  "2 ^ 32 \<le> unat acc + sum_list (map unat ws) \<Longrightarrow> sum_u32 True acc ws = Panic"
proof (induction ws arbitrary: acc)
  case Nil
  then show ?case using unat_lt_max_word [of acc] by simp
next
  case (Cons w ws)
  show ?case
  proof (cases "unat acc + unat w < 2 ^ LENGTH(32)")
    case True
    then have "unat (acc + w) = unat acc + unat w" by (rule unat_plus_no_overflow)
    with Cons.IH [of "acc + w"] Cons.prems True show ?thesis by (simp add: add.assoc)
  next
    case False
    then show ?thesis by (simp add: add_chk_def)
  qed
qed

lemma walk_targets_slots:
  "unat cursor < total_weight ts \<Longrightarrow> walk_targets ts cursor = Some (weighted_slots ts ! unat cursor)"
proof (induction ts arbitrary: cursor)
  case (Cons t ts)
  show ?case
  proof (cases "cursor < ut_weight t")
    case True
    then show ?thesis by (auto simp: word_less_nat_alt nth_append)
  next
    case False
    then have "unat (cursor - ut_weight t) = unat cursor - unat (ut_weight t)"
      by (simp add: unat_sub word_le_nat_alt word_less_nat_alt)
    with False Cons show ?thesis by (auto simp: word_less_nat_alt nth_append)
  qed
qed simp

lemma pick_weighted_target_slots:
  assumes "total_weight ts < 2 ^ 32"
  shows "pick_weighted_target ovf ts seed =
    Ret (if total_weight ts = 0 then None
         else Some (weighted_slots ts ! (unat seed mod 2 ^ 32 mod total_weight ts)))"
proof -
  obtain s where s: "sum_u32 ovf 0 (map ut_weight ts) = Ret s" "unat s = total_weight ts"
    using sum_u32_exact [of 0 ts ovf] assms by auto
  have seed: "unat ((ucast seed :: u32) mod s) = unat seed mod 2 ^ 32 mod total_weight ts"
    by (simp add: unat_mod s unsigned_ucast_eq take_bit_eq_mod)
  show ?thesis
  proof (cases "total_weight ts = 0")
    case True
    with s have "s = 0" by (simp add: unat_eq_0)
    with s True show ?thesis by (simp add: pick_weighted_target_def)
  next
    case False
    then have "unat ((ucast seed :: u32) mod s) < total_weight ts" by (simp add: seed)
    moreover have "s \<noteq> 0" using s False by auto
    ultimately show ?thesis using s False
      by (simp add: pick_weighted_target_def walk_targets_slots seed)
  qed
qed

lemma walk_targets_sound:
  "walk_targets ts cursor = Some t \<Longrightarrow> t \<in> set ts \<and> 0 < ut_weight t"
  by (induction ts arbitrary: cursor) (auto simp: word_gt_0 split: if_splits)

lemma pick_weighted_target_sound:
  "pick_weighted_target ovf ts seed = Ret (Some t) \<Longrightarrow> t \<in> set ts \<and> 0 < ut_weight t"
  by (auto simp: pick_weighted_target_def dest: walk_targets_sound split: if_splits)

lemma least_connections_key_unat:
  assumes "0 < ut_weight t"
  shows "unat (least_connections_key t) = unat (ut_active_connections t) div unat (ut_weight t)"
proof -
  have "unat (ucast (ut_weight t) :: usize) = unat (ut_weight t)"
    by (simp add: unsigned_ucast_eq take_bit_nat_eq_self unat_lt_max_word less_le_trans
        [OF unat_lt_max_word])
  with assms show ?thesis
    by (auto simp: least_connections_key_def Let_def unat_div weight_pos_iff)
qed

lemma least_connections_choice:
  assumes "min_by_key least_connections_key (filter (\<lambda>t. 0 < ut_weight t) ts) = Some t"
  obtains us vs where "ts = us @ t # vs" "0 < ut_weight t"
    "\<forall>u\<in>set us. 0 < ut_weight u \<longrightarrow> least_connections_key t < least_connections_key u"
    "\<forall>v\<in>set vs. 0 < ut_weight v \<longrightarrow> least_connections_key t \<le> least_connections_key v"
proof -
  obtain us vs where split: "filter (\<lambda>t. 0 < ut_weight t) ts = us @ t # vs"
    and us: "\<forall>u\<in>set us. least_connections_key t < least_connections_key u"
    and vs: "\<forall>v\<in>set vs. least_connections_key t \<le> least_connections_key v"
    using assms by (rule min_by_key_Some_split)
  from split obtain us' vs' where "ts = us' @ t # vs'" "us = filter (\<lambda>t. 0 < ut_weight t) us'"
    "vs = filter (\<lambda>t. 0 < ut_weight t) vs'" "0 < ut_weight t"
    by (rule filter_split)
  with us vs show ?thesis using that by auto
qed

lemma mset_rotate: "mset (rotate k xs) = mset xs"
proof -
  have "mset (rotate k xs) = mset (drop (k mod length xs) xs) + mset (take (k mod length xs) xs)"
    by (simp add: rotate_drop_take)
  also have "\<dots> = mset (take (k mod length xs) xs @ drop (k mod length xs) xs)"
    by (simp del: append_take_drop_id)
  finally show ?thesis by simp
qed

lemma select_target_sound:
  "select_target ovf hash strategy ts key n = Ret (Some t) \<Longrightarrow> t \<in> set ts \<and> 0 < ut_weight t"
  by (auto simp: select_target_def split: balancing_strategy.splits option.splits
      elim: least_connections_choice dest: pick_weighted_target_sound)

lemma select_target_complete:
  assumes total: "total_weight ts < 2 ^ 32" and key: "strategy = Hash \<longrightarrow> key \<noteq> None"
    and pos: "\<exists>t\<in>set ts. 0 < ut_weight t"
  shows "\<exists>t. select_target ovf hash strategy ts key n = Ret (Some t)"
proof -
  from pos have "total_weight ts \<noteq> 0" by (auto simp: total_weight_0_iff word_gt_0)
  then have pick: "\<exists>t. pick_weighted_target ovf ts seed = Ret (Some t)" for seed
    using total by (simp add: pick_weighted_target_slots)
  have "filter (\<lambda>t. 0 < ut_weight t) ts \<noteq> []" using pos by (auto simp: filter_empty_conv)
  then have "min_by_key least_connections_key (filter (\<lambda>t. 0 < ut_weight t) ts) \<noteq> None"
    by (simp only: min_by_key_None not_False_eq_True)
  then obtain t where
    "min_by_key least_connections_key (filter (\<lambda>t. 0 < ut_weight t) ts) = Some t"
    by (elim not_None_eq [THEN iffD1, THEN exE])
  then show ?thesis using pick key by (cases strategy) (auto simp: select_target_def)
qed

lemma unat_plus_mod32:
  assumes "unat (c :: usize) mod 2 ^ 32 + i < 2 ^ 32"
  shows "unat (c + of_nat i) mod 2 ^ 32 = unat c mod 2 ^ 32 + i"
proof -
  have "unat (c + of_nat i) mod 2 ^ 32 = (unat c + i) mod 2 ^ 64 mod 2 ^ 32"
    by (simp add: unat_word_ariths unat_of_nat mod_add_right_eq)
  also have "\<dots> = (unat c + i) mod 2 ^ 32" by (rule mod_mod_cancel) simp
  also have "\<dots> = (unat c mod 2 ^ 32 + i) mod 2 ^ 32" by (simp only: mod_add_left_eq)
  also have "\<dots> = unat c mod 2 ^ 32 + i" using assms by (rule mod_less)
  finally show ?thesis .
qed

section \<open>Properties\<close>

text \<open>
  C23. Weighted round robin is fair.  Over any round of \<open>total_weight\<close> consecutive request
  counts that does not cross a multiple of \<open>2 ^ 32\<close> (where the counter is cut to 32 bits), the
  targets chosen are, as a multiset, exactly the weighted slots: every target is chosen as often
  as its weight says.
\<close>

theorem round_robin_fair:
  assumes "0 < total_weight ts" and "total_weight ts < 2 ^ 32"
    and "unat c mod 2 ^ 32 + total_weight ts \<le> 2 ^ 32"
  shows "mset (map (\<lambda>i. select_target ovf hash RoundRobin ts key (c + of_nat i))
            [0..<total_weight ts])
       = mset (map (\<lambda>t. Ret (Some t)) (weighted_slots ts))"
proof -
  define k where "k = unat c mod 2 ^ 32"
  have seed: "unat (c + of_nat i) mod 2 ^ 32 = k + i" if "i < total_weight ts" for i
    unfolding k_def by (rule unat_plus_mod32) (use assms(3) that in simp)
  have "map (\<lambda>i. select_target ovf hash RoundRobin ts key (c + of_nat i)) [0..<total_weight ts]
      = map (\<lambda>i. Ret (Some (weighted_slots ts ! ((k + i) mod length (weighted_slots ts)))))
          [0..<length (weighted_slots ts)]"
    using assms(1,2) by (simp add: select_target_def pick_weighted_target_slots seed [simplified])
  also have "\<dots> = map (\<lambda>t. Ret (Some t)) (rotate k (weighted_slots ts))"
    unfolding map_nth_mod_rotate [symmetric] by simp
  finally show ?thesis by (simp add: mset_rotate)
qed

theorem round_robin_fair_witness:
  "mset (map (\<lambda>i. select_target True (\<lambda>_. 0) RoundRobin sample_targets None (7 + of_nat i)) [0..<4])
   = mset (map (\<lambda>t. Ret (Some t)) (weighted_slots sample_targets))"
  using round_robin_fair [of sample_targets 7 True "\<lambda>_. 0" None]
  by (simp add: sample_targets_def)

text \<open>
  C36. Least connections picks, among the targets with a positive weight, one with the smallest
  integer quotient of active connections by weight (the division rounds down, as in the code), and the
  earliest of several such targets.
\<close>

theorem least_connections_minimal:
  assumes "select_target ovf hash LeastConnections ts key n = Ret (Some t)"
  shows "\<exists>us vs. ts = us @ t # vs \<and> 0 < ut_weight t \<and>
     (\<forall>u\<in>set us. 0 < ut_weight u \<longrightarrow>
        unat (ut_active_connections t) div unat (ut_weight t)
          < unat (ut_active_connections u) div unat (ut_weight u)) \<and>
     (\<forall>v\<in>set vs. 0 < ut_weight v \<longrightarrow>
        unat (ut_active_connections t) div unat (ut_weight t)
          \<le> unat (ut_active_connections v) div unat (ut_weight v))"
proof -
  from assms have "min_by_key least_connections_key (filter (\<lambda>t. 0 < ut_weight t) ts) = Some t"
    by (simp add: select_target_def)
  then obtain us vs where "ts = us @ t # vs" and w: "0 < ut_weight t"
    and "\<forall>u\<in>set us. 0 < ut_weight u \<longrightarrow> least_connections_key t < least_connections_key u"
    and "\<forall>v\<in>set vs. 0 < ut_weight v \<longrightarrow> least_connections_key t \<le> least_connections_key v"
    by (rule least_connections_choice)
  then show ?thesis
    by (intro exI [of _ us] exI [of _ vs])
      (auto simp: word_less_nat_alt [of "least_connections_key _"]
        word_le_nat_alt [of "least_connections_key _"] least_connections_key_unat)
qed

theorem least_connections_minimal_witness:
  "\<exists>us vs. sample_targets = us @ sample_targets ! 1 # vs \<and> 0 < ut_weight (sample_targets ! 1) \<and>
     (\<forall>u\<in>set us. 0 < ut_weight u \<longrightarrow>
        unat (ut_active_connections (sample_targets ! 1)) div unat (ut_weight (sample_targets ! 1))
          < unat (ut_active_connections u) div unat (ut_weight u)) \<and>
     (\<forall>v\<in>set vs. 0 < ut_weight v \<longrightarrow>
        unat (ut_active_connections (sample_targets ! 1)) div unat (ut_weight (sample_targets ! 1))
          \<le> unat (ut_active_connections v) div unat (ut_weight v))"
proof -
  have "select_target True (\<lambda>_. 0) LeastConnections sample_targets None 0
      = Ret (Some (sample_targets ! 1))"
    by (simp add: sample_targets_def select_target_def least_connections_key_def)
  then show ?thesis by (rule least_connections_minimal)
qed

text \<open>
  What happens when the weights overflow \<open>u32\<close>, which the configuration does not rule out: a
  build with overflow checks panics, and a build without them selects no target at all when the
  sum is a multiple of \<open>2 ^ 32\<close>, though targets with a positive weight are there.
\<close>

lemma weight_sum_overflow:
  "(2 ^ 32 \<le> total_weight ts \<longrightarrow> pick_weighted_target True ts seed = Panic) \<and>
   (total_weight ts mod 2 ^ 32 = 0 \<longrightarrow> pick_weighted_target False ts seed = Ret None)"
proof (intro conjI impI)
  assume "2 ^ 32 \<le> total_weight ts"
  then have "sum_u32 True 0 (map ut_weight ts) = Panic"
    by (intro sum_u32_panics) (simp add: total_weight_def comp_def)
  then show "pick_weighted_target True ts seed = Panic" by (simp add: pick_weighted_target_def)
next
  assume zero: "total_weight ts mod 2 ^ 32 = 0"
  obtain s where "sum_u32 False 0 (map ut_weight ts) = Ret s" "unat s = total_weight ts mod 2 ^ 32"
    using sum_u32_wraps [of 0 "map ut_weight ts"] by (auto simp: total_weight_def comp_def)
  with zero show "pick_weighted_target False ts seed = Ret None"
    by (simp add: pick_weighted_target_def unat_eq_0)
qed

lemma weight_sum_overflow_example:
  "pick_weighted_target False
     [\<lparr>ut_id = ''a'', ut_address = ''x'', ut_active_connections = 0, ut_weight = 0x80000000\<rparr>,
      \<lparr>ut_id = ''b'', ut_address = ''y'', ut_active_connections = 0, ut_weight = 0x80000000\<rparr>] 0
   = Ret None"
  using weight_sum_overflow [of
     "[\<lparr>ut_id = ''a'', ut_address = ''x'', ut_active_connections = 0, ut_weight = 0x80000000\<rparr>,
       \<lparr>ut_id = ''b'', ut_address = ''y'', ut_active_connections = 0, ut_weight = 0x80000000\<rparr>]" 0]
  by simp

end
