(* ===== verification/Router.thy ===== *)
theory Router
  imports Prelude
begin

text \<open>
  \<open>router.rs\<close>: the routes with their transformation, traffic-split and fault-injection settings,
  and the match of a request path against them.  A \<open>HashMap<String, String>\<close> of the
  configuration is the list of its entries in iteration order.

  Two sets of defaults are modelled, because the source has two: the derived \<open>Default\<close>, used
  where a whole section is absent, and the field defaults of the deserializer, used where the
  section is present and the field is not.
\<close>

section \<open>Model\<close>

datatype protocol = Http1 | Http2 | Grpc

type_synonym header_entries = "(string \<times> string) list"

record request_transform =
  rt_add_headers :: header_entries
  rt_set_headers :: header_entries
  rt_remove_headers :: "string list"
  rt_path_prefix_rewrite :: "string option"
  rt_body_replace :: "string option"

record response_transform =
  rst_add_headers :: header_entries
  rst_set_headers :: header_entries
  rst_remove_headers :: "string list"
  rst_body_replace :: "string option"

record transform_config =
  tc_request :: request_transform
  tc_response :: response_transform

record canary_header_match =
  ch_name :: string
  ch_value :: string

record traffic_split_config =
  ts_canary_upstream :: "string option"
  ts_canary_percentage :: u8
  ts_canary_header :: "canary_header_match option"

record fault_injection_config =
  fi_enabled :: bool
  fi_probability_percent :: u8
  fi_delay_ms :: u64
  fi_jitter_ms :: u64
  fi_abort_status :: "u16 option"
  fi_abort_body :: "string option"

record route =
  r_name :: string
  r_path_prefix :: string
  r_upstream :: string
  r_protocols :: "protocol list"
  r_transform :: transform_config
  r_traffic_split :: traffic_split_config
  r_fault_injection :: fault_injection_config

definition default_request_transform :: request_transform where
  "default_request_transform =
     \<lparr>rt_add_headers = [], rt_set_headers = [], rt_remove_headers = [],
      rt_path_prefix_rewrite = None, rt_body_replace = None\<rparr>"

definition default_response_transform :: response_transform where
  "default_response_transform =
     \<lparr>rst_add_headers = [], rst_set_headers = [], rst_remove_headers = [], rst_body_replace = None\<rparr>"

definition default_transform :: transform_config where
  "default_transform =
     \<lparr>tc_request = default_request_transform, tc_response = default_response_transform\<rparr>"

definition default_traffic_split :: traffic_split_config where
  "default_traffic_split =
     \<lparr>ts_canary_upstream = None, ts_canary_percentage = 0, ts_canary_header = None\<rparr>"

definition default_fault_probability :: u8 where
  "default_fault_probability = 100"

text \<open>The derived \<open>Default\<close>: every field has the default of its type.\<close>

definition default_fault_injection :: fault_injection_config where
  "default_fault_injection =
     \<lparr>fi_enabled = False, fi_probability_percent = 0, fi_delay_ms = 0, fi_jitter_ms = 0,
      fi_abort_status = None, fi_abort_body = None\<rparr>"

text \<open>The deserializer on a section that is present: \<open>None\<close> is a field that is absent.\<close>

definition deserialize_fault_injection ::
    "bool option \<Rightarrow> u8 option \<Rightarrow> u64 option \<Rightarrow> u64 option \<Rightarrow> u16 option \<Rightarrow> string option \<Rightarrow>
     fault_injection_config" where
  "deserialize_fault_injection enabled prob delay jitter status body =
     \<lparr>fi_enabled = case_option False id enabled,
      fi_probability_percent = case_option default_fault_probability id prob,
      fi_delay_ms = case_option 0 id delay, fi_jitter_ms = case_option 0 id jitter,
      fi_abort_status = status, fi_abort_body = body\<rparr>"

definition route_matches :: "string \<Rightarrow> protocol \<Rightarrow> route \<Rightarrow> bool" where
  "route_matches path protocol r \<longleftrightarrow>
     (r_protocols r = [] \<or> protocol \<in> set (r_protocols r)) \<and> starts_with path (r_path_prefix r)"

definition match_route :: "route list \<Rightarrow> string \<Rightarrow> protocol \<Rightarrow> route option" where
  "match_route routes path protocol =
     max_by_key (\<lambda>r. length (r_path_prefix r)) (filter (route_matches path protocol) routes)"

section \<open>Lemmas\<close>

lemma match_route_split:
  assumes "match_route routes path protocol = Some r"
  obtains us vs where "routes = us @ r # vs" "route_matches path protocol r"
    "\<forall>u\<in>set us. route_matches path protocol u \<longrightarrow>
       length (r_path_prefix u) \<le> length (r_path_prefix r)"
    "\<forall>v\<in>set vs. route_matches path protocol v \<longrightarrow>
       length (r_path_prefix v) < length (r_path_prefix r)"
proof -
  obtain us vs where split: "filter (route_matches path protocol) routes = us @ r # vs"
    and us: "\<forall>u\<in>set us. length (r_path_prefix u) \<le> length (r_path_prefix r)"
    and vs: "\<forall>v\<in>set vs. length (r_path_prefix v) < length (r_path_prefix r)"
    using assms unfolding match_route_def by (rule max_by_key_Some_split)
  from split obtain us' vs' where "routes = us' @ r # vs'"
    "us = filter (route_matches path protocol) us'" "vs = filter (route_matches path protocol) vs'"
    "route_matches path protocol r"
    by (rule filter_split)
  with us vs show ?thesis using that by auto
qed

lemma match_route_Some:
  assumes "match_route routes path protocol = Some r"
  shows "r \<in> set routes" and "route_matches path protocol r"
  by (rule match_route_split [OF assms], simp)+

lemma match_route_None: "match_route routes path protocol = None \<longleftrightarrow>
    (\<forall>r\<in>set routes. \<not> route_matches path protocol r)"
  by (auto simp: match_route_def filter_empty_conv)

section \<open>Properties\<close>

text \<open>
  C24. The router finds the longest matching prefix.  It returns a route exactly when some route
  accepts the protocol and has a prefix of the path as its prefix; the route it returns is such a
  route, no other such route has a longer prefix, and of several routes with the same longest
  prefix it is the last one configured.
\<close>

theorem match_route_longest:
  "(match_route routes path protocol = None \<longleftrightarrow>
      (\<forall>r\<in>set routes. \<not> route_matches path protocol r)) \<and>
   (\<forall>r. match_route routes path protocol = Some r \<longleftrightarrow>
      (\<exists>us vs. routes = us @ r # vs \<and> route_matches path protocol r \<and>
         (\<forall>u\<in>set us. route_matches path protocol u \<longrightarrow>
            length (r_path_prefix u) \<le> length (r_path_prefix r)) \<and>
         (\<forall>v\<in>set vs. route_matches path protocol v \<longrightarrow>
            length (r_path_prefix v) < length (r_path_prefix r))))"
proof (rule conjI; (intro allI)?)
  show "match_route routes path protocol = None \<longleftrightarrow>
      (\<forall>r\<in>set routes. \<not> route_matches path protocol r)" by (rule match_route_None)
next
  fix r
  let ?best = "\<lambda>us vs. routes = us @ r # vs \<and> route_matches path protocol r \<and>
         (\<forall>u\<in>set us. route_matches path protocol u \<longrightarrow>
            length (r_path_prefix u) \<le> length (r_path_prefix r)) \<and>
         (\<forall>v\<in>set vs. route_matches path protocol v \<longrightarrow>
            length (r_path_prefix v) < length (r_path_prefix r))"
  have "match_route routes path protocol = Some r" if "?best us vs" for us vs
    using that by (auto simp: match_route_def intro!: max_by_key_append)
  then show "match_route routes path protocol = Some r \<longleftrightarrow> (\<exists>us vs. ?best us vs)"
    by (metis match_route_split)
qed

text \<open>The routes of the unit test \<open>matches_longest_path_prefix\<close>.\<close>

definition sample_routes :: "route list" where
  "sample_routes =
     [\<lparr>r_name = ''api'', r_path_prefix = ''/api'', r_upstream = ''svc-a'', r_protocols = [Http1],
       r_transform = default_transform, r_traffic_split = default_traffic_split,
       r_fault_injection = default_fault_injection\<rparr>,
      \<lparr>r_name = ''api-v1'', r_path_prefix = ''/api/v1'', r_upstream = ''svc-b'',
       r_protocols = [Http1, Http2],
       r_transform = default_transform, r_traffic_split = default_traffic_split,
       r_fault_injection = default_fault_injection\<rparr>]"

theorem match_route_longest_witness:
  "match_route sample_routes ''/api/v1/users'' Http1 = Some (sample_routes ! 1) \<and>
   match_route sample_routes ''/api'' Grpc = None"
proof -
  have "match_route sample_routes ''/api/v1/users'' Http1 = Some (sample_routes ! 1)"
    unfolding match_route_longest [THEN conjunct2, rule_format]
    by (intro exI [of _ "[sample_routes ! 0]"] exI [of _ "[]"])
      (simp add: sample_routes_def route_matches_def starts_with_def)
  moreover have "match_route sample_routes ''/api'' Grpc = None"
    by (simp add: match_route_longest [THEN conjunct1] sample_routes_def route_matches_def)
  ultimately show ?thesis by simp
qed

end
