(* ===== verification/Http_Api.thy ===== *)
theory Http_Api
  imports Prelude
begin

text \<open>
  The HTTP types the gateway takes from the \<open>http\<close> crate.  That crate is not part of the
  repository, so its operations are a parameter: a record of the functions the gateway calls.  The
  locale \<open>header_map\<close> states what the crate documents about \<open>HeaderMap\<close>, \<open>HeaderName\<close> and
  \<open>HeaderValue\<close>: a map from a lower-case name to a non-empty sequence of values.  Header names and
  values are their bytes.  The reference multimap at the end satisfies the locale.

  Status codes are \<open>u16\<close>; the tests on them are fields of the record as well.
\<close>

section \<open>Interface\<close>

datatype http_version = HTTP_09 | HTTP_10 | HTTP_11 | HTTP_2 | HTTP_3

text \<open>The methods the gateway names; every other method is an extension method with its name.\<close>

datatype http_method =
  GET | HEAD | OPTIONS | TRACE | PUT | DELETE | POST | PATCH | CONNECT | Extension string

type_synonym status = u16

record 'h http_api =
  hm_new :: 'h
  hm_get :: "'h \<Rightarrow> string \<Rightarrow> string option"
  hm_insert :: "'h \<Rightarrow> string \<Rightarrow> string \<Rightarrow> 'h"
  hm_append :: "'h \<Rightarrow> string \<Rightarrow> string \<Rightarrow> 'h"
  hm_remove :: "'h \<Rightarrow> string \<Rightarrow> 'h"
  hm_contains_key :: "'h \<Rightarrow> string \<Rightarrow> bool"
  hm_iter :: "'h \<Rightarrow> (string \<times> string) list"
  hm_into_iter :: "'h \<Rightarrow> (string option \<times> string) list"
  header_name_from_bytes :: "string \<Rightarrow> string option"
  header_value_from_str :: "string \<Rightarrow> string option"
  header_value_to_str :: "string \<Rightarrow> string option"
  status_from_u16 :: "u16 \<Rightarrow> status option"
  is_success :: "status \<Rightarrow> bool"
  is_server_error :: "status \<Rightarrow> bool"

text \<open>\<open>headers.get(name).and_then(|v| v.to_str().ok())\<close>, which the gateway writes in many places.\<close>

definition get_str :: "'h http_api \<Rightarrow> 'h \<Rightarrow> string \<Rightarrow> string option" where
  "get_str api headers name = Option.bind (hm_get api headers name) (header_value_to_str api)"

text \<open>
  The documented laws.  \<open>vals h n\<close> is the sequence of values of the (lower-case) name \<open>n\<close>.  A lookup
  and a removal take any spelling of the name; an insertion and an appending take a
  \<open>HeaderName\<close>, which is already lower case.  \<open>iter\<close> yields each name once per value;
  \<open>into_iter\<close> yields the name with the first value of each group and no name with the others.
\<close>

locale header_map =
  fixes api :: "'h http_api" and vals :: "'h \<Rightarrow> string \<Rightarrow> string list"
  assumes vals_new: "vals (hm_new api) n = []"
    and get_vals: "hm_get api h n = (case vals h (to_ascii_lowercase n) of [] \<Rightarrow> None | v # _ \<Rightarrow> Some v)"
    and vals_insert: "vals (hm_insert api h n v) m = (if m = n then [v] else vals h m)"
    and vals_append: "vals (hm_append api h n v) m = (if m = n then vals h n @ [v] else vals h m)"
    and vals_remove: "vals (hm_remove api h n) m = (if m = to_ascii_lowercase n then [] else vals h m)"
    and contains_key: "hm_contains_key api h n \<longleftrightarrow> vals h n \<noteq> []"
    and vals_iter: "map snd (filter (\<lambda>e. fst e = n) (hm_iter api h)) = vals h n"
    and into_iter_first: "(Some n, v) \<in> set (hm_into_iter api h) \<longleftrightarrow> (\<exists>vs. vals h n = v # vs)"
    and into_iter_once: "distinct (List.map_filter fst (hm_into_iter api h))"
    and name_lower: "header_name_from_bytes api s = Some n \<Longrightarrow> n = to_ascii_lowercase s"
begin

lemma iter_iff: "(n, v) \<in> set (hm_iter api h) \<longleftrightarrow> v \<in> set (vals h n)"
  unfolding vals_iter [symmetric] by force

lemma get_iff: "hm_get api h n = Some v \<longleftrightarrow> (\<exists>vs. vals h (to_ascii_lowercase n) = v # vs)"
  by (auto simp: get_vals split: list.splits)

lemma get_after_insert [simp]: "hm_get api (hm_insert api h (to_ascii_lowercase n) v) n = Some v"
  by (simp add: get_vals vals_insert)

text \<open>Inserting a list of pairs in order leaves the last value of every name that occurs.\<close>

lemma vals_fold_insert:
  "vals (fold (\<lambda>(n, v) h. hm_insert api h n v) es h) m =
   (case rev (map snd (filter (\<lambda>e. fst e = m) es)) of [] \<Rightarrow> vals h m | v # _ \<Rightarrow> [v])"
proof (induction es rule: rev_induct)
  case (snoc e es)
  then show ?case by (cases e) (auto simp: vals_insert)
qed simp

lemma vals_fold_remove:
  "vals (fold (\<lambda>n h. hm_remove api h n) ns h) m =
   (if m \<in> to_ascii_lowercase ` set ns then [] else vals h m)"
  by (induction ns arbitrary: h) (auto simp: vals_remove)

text \<open>Appending the pairs of a list that pass a test.\<close>

lemma vals_fold_append:
  "vals (fold (\<lambda>(n, v) h. if P n then hm_append api h n v else h) es h) m =
   vals h m @ (if P m then map snd (filter (\<lambda>e. fst e = m) es) else [])"
proof (induction es rule: rev_induct)
  case (snoc e es)
  then show ?case by (cases e) (auto simp: vals_append)
qed simp

end

text \<open>The classes of status codes, as the crate documents them.\<close>

locale status_codes =
  fixes api :: "'h http_api"
  assumes success: "is_success api s \<longleftrightarrow> 200 \<le> s \<and> s < 300"
    and server_error: "is_server_error api s \<longleftrightarrow> 500 \<le> s \<and> s < 600"
    and from_u16: "status_from_u16 api n = (if 100 \<le> n \<and> n < 1000 then Some n else None)"

section \<open>A reference multimap\<close>

type_synonym ref_headers = "(string \<times> string) list"

definition ref_vals :: "ref_headers \<Rightarrow> string \<Rightarrow> string list" where
  "ref_vals h n = map snd (filter (\<lambda>e. fst e = n) h)"

definition ref_group :: "ref_headers \<Rightarrow> string \<Rightarrow> (string option \<times> string) list" where
  "ref_group h n = (case ref_vals h n of [] \<Rightarrow> [] | v # vs \<Rightarrow> (Some n, v) # map (Pair None) vs)"

definition token_char :: "char \<Rightarrow> bool" where
  "token_char c \<longleftrightarrow> c \<in> set ''!#$%&*+-.^_|~0123456789abcdefghijklmnopqrstuvwxyzABCDEFGHIJKLMNOPQRSTUVWXYZ''"

definition value_char :: "char \<Rightarrow> bool" where
  "value_char c \<longleftrightarrow> c = CHR 0x09 \<or> 32 \<le> (of_char c :: nat) \<and> (of_char c :: nat) < 127"

definition ref_api :: "ref_headers http_api" where
  "ref_api =
     \<lparr>hm_new = [],
      hm_get = (\<lambda>h n. case ref_vals h (to_ascii_lowercase n) of [] \<Rightarrow> None | v # _ \<Rightarrow> Some v),
      hm_insert = (\<lambda>h n v. filter (\<lambda>e. fst e \<noteq> n) h @ [(n, v)]),
      hm_append = (\<lambda>h n v. h @ [(n, v)]),
      hm_remove = (\<lambda>h n. filter (\<lambda>e. fst e \<noteq> to_ascii_lowercase n) h),
      hm_contains_key = (\<lambda>h n. ref_vals h n \<noteq> []),
      hm_iter = (\<lambda>h. h),
      hm_into_iter = (\<lambda>h. concat (map (ref_group h) (remdups (map fst h)))),
      header_name_from_bytes =
        (\<lambda>s. if s \<noteq> [] \<and> list_all token_char s then Some (to_ascii_lowercase s) else None),
      header_value_from_str = (\<lambda>s. if list_all value_char s then Some s else None),
      header_value_to_str = (\<lambda>s. if list_all value_char s then Some s else None),
      status_from_u16 = (\<lambda>n. if 100 \<le> n \<and> n < 1000 then Some n else None),
      is_success = (\<lambda>s. 200 \<le> s \<and> s < 300),
      is_server_error = (\<lambda>s. 500 \<le> s \<and> s < 600)\<rparr>"

lemma ref_vals_Nil_iff: "ref_vals h n = [] \<longleftrightarrow> n \<notin> fst ` set h"
  by (auto simp: ref_vals_def filter_empty_conv)

lemma ref_group_Some: "(Some m, v) \<in> set (ref_group h n) \<longleftrightarrow> m = n \<and> (\<exists>vs. ref_vals h n = v # vs)"
  by (cases "ref_vals h n") (auto simp: ref_group_def)

lemma ref_group_names: "n \<in> fst ` set h \<Longrightarrow> List.map_filter fst (ref_group h n) = [n]"
  using ref_vals_Nil_iff [of h n]
  by (auto simp: ref_group_def List.map_filter_def filter_empty_conv split: list.splits)

lemma map_filter_append: "List.map_filter f (xs @ ys) = List.map_filter f xs @ List.map_filter f ys"
  by (simp add: List.map_filter_def)

lemma ref_into_iter_names:
  "set ns \<subseteq> fst ` set h \<Longrightarrow> List.map_filter fst (concat (map (ref_group h) ns)) = ns"
  by (induction ns) (auto simp: ref_group_names map_filter_append List.map_filter_simps(2))

interpretation ref_map: header_map ref_api ref_vals
proof unfold_locales
  fix n v h
  show "(Some n, v) \<in> set (hm_into_iter ref_api h) \<longleftrightarrow> (\<exists>vs. ref_vals h n = v # vs)"
    using ref_vals_Nil_iff [of h n] by (auto simp: ref_api_def ref_group_Some)
next
  fix h
  show "distinct (List.map_filter fst (hm_into_iter ref_api h))"
    using ref_into_iter_names [of "remdups (map fst h)" h] by (simp add: ref_api_def)
next
  fix h :: ref_headers and n v m
  have "filter (\<lambda>e. fst e = m) (filter (\<lambda>e. fst e \<noteq> n) h) = (if m = n then [] else filter (\<lambda>e. fst e = m) h)"
    by (induction h) auto
  then show "ref_vals (hm_insert ref_api h n v) m = (if m = n then [v] else ref_vals h m)"
    by (simp add: ref_api_def ref_vals_def)
next
  fix h :: ref_headers and n m
  have "filter (\<lambda>e. fst e = m) (filter (\<lambda>e. fst e \<noteq> to_ascii_lowercase n) h)
      = (if m = to_ascii_lowercase n then [] else filter (\<lambda>e. fst e = m) h)"
    by (induction h) auto
  then show "ref_vals (hm_remove ref_api h n) m = (if m = to_ascii_lowercase n then [] else ref_vals h m)"
    by (simp add: ref_api_def ref_vals_def)
qed (auto simp: ref_api_def ref_vals_def split: if_splits)

interpretation ref_status: status_codes ref_api
  by unfold_locales (simp_all add: ref_api_def)

end
