(* ===== verification/Security.thy ===== *)
theory Security
  imports Http_Api
begin

text \<open>
  \<open>security.rs\<close>: authentication by the enabled modes in order, and authorization by the role, group
  and subject bindings of the route.

  Decoding and verifying a token (\<open>jsonwebtoken\<close>) and reading a JSON value (\<open>serde_json\<close>) are
  parameters, collected in \<open>token_api\<close>; a decoded token is the JSON value of its claims.
\<close>

section \<open>Configuration\<close>

datatype auth_mode = Anonymous | Jwt | OAuth2 | OpenIdConnect | Mtls

text \<open>The derived \<open>Debug\<close>, which the error message uses.\<close>

primrec debug_mode :: "auth_mode \<Rightarrow> string" where
  "debug_mode Anonymous = ''Anonymous''"
| "debug_mode Jwt = ''Jwt''"
| "debug_mode OAuth2 = ''OAuth2''"
| "debug_mode OpenIdConnect = ''OpenIdConnect''"
| "debug_mode Mtls = ''Mtls''"

record jwt_config =
  jwt_secret :: string
  jwt_roles_claim :: string
  jwt_groups_claim :: string

text \<open>\<open>OAuth2Config\<close> and \<open>OpenIdConnectConfig\<close> have the same fields.\<close>

record issuer_config =
  ic_secret :: string
  ic_issuer :: string
  ic_audience :: string
  ic_roles_claim :: string
  ic_groups_claim :: string

record mtls_config =
  mt_subject_header :: string
  mt_roles_header :: string
  mt_groups_header :: string
  mt_allowed_subjects :: "string list"

record role_binding =
  rb_role :: string
  rb_route :: string

record group_binding =
  gb_group :: string
  gb_route :: string

record subject_binding =
  sb_subject :: string
  sb_route :: string

record security_config =
  sc_enabled_modes :: "auth_mode list"
  sc_rbac :: "role_binding list"
  sc_group_rbac :: "group_binding list"
  sc_jwt :: jwt_config
  sc_oauth2 :: issuer_config
  sc_openid_connect :: issuer_config
  sc_mtls :: mtls_config
  sc_subject_rbac :: "subject_binding list"

record auth_context =
  ac_mode :: auth_mode
  ac_roles :: "string list"
  ac_groups :: "string list"
  ac_subject :: "string option"
  ac_route_name :: string

record authenticated_identity =
  ai_mode :: auth_mode
  ai_roles :: "string list"
  ai_groups :: "string list"
  ai_subject :: "string option"

definition default_roles_claim :: string where "default_roles_claim = ''roles''"

definition default_groups_claim :: string where "default_groups_claim = ''groups''"

definition default_mtls_subject_header :: string where
  "default_mtls_subject_header = ''x-client-cert-subject''"

definition default_mtls_roles_header :: string where
  "default_mtls_roles_header = ''x-client-cert-roles''"

definition default_mtls_groups_header :: string where
  "default_mtls_groups_header = ''x-client-cert-groups''"

text \<open>The derived \<open>Default\<close> of each section: the value when the whole section is absent.\<close>

definition default_jwt_config :: jwt_config where
  "default_jwt_config = \<lparr>jwt_secret = [], jwt_roles_claim = [], jwt_groups_claim = []\<rparr>"

definition default_issuer_config :: issuer_config where
  "default_issuer_config =
     \<lparr>ic_secret = [], ic_issuer = [], ic_audience = [], ic_roles_claim = [], ic_groups_claim = []\<rparr>"

definition default_mtls_config :: mtls_config where
  "default_mtls_config =
     \<lparr>mt_subject_header = [], mt_roles_header = [], mt_groups_header = [], mt_allowed_subjects = []\<rparr>"

definition default_security_config :: security_config where
  "default_security_config =
     \<lparr>sc_enabled_modes = [], sc_rbac = [], sc_group_rbac = [], sc_jwt = default_jwt_config,
      sc_oauth2 = default_issuer_config, sc_openid_connect = default_issuer_config,
      sc_mtls = default_mtls_config, sc_subject_rbac = []\<rparr>"

text \<open>The deserializer on the mTLS section: \<open>None\<close> outside is an absent section, inside an absent field.\<close>

definition deserialize_mtls ::
    "(string option \<times> string option \<times> string option \<times> string list option) option \<Rightarrow> mtls_config" where
  "deserialize_mtls sec =
     (case sec of
        None \<Rightarrow> default_mtls_config
      | Some (subj, roles, groups, allowed) \<Rightarrow>
          \<lparr>mt_subject_header = case_option default_mtls_subject_header id subj,
           mt_roles_header = case_option default_mtls_roles_header id roles,
           mt_groups_header = case_option default_mtls_groups_header id groups,
           mt_allowed_subjects = case_option [] id allowed\<rparr>)"

section \<open>Claims\<close>

record validation =
  v_algorithm :: string
  v_issuer :: "string option"
  v_audience :: "string option"

text \<open>Errors of \<open>decode\<close> are their \<open>Display\<close> text.\<close>

record 'j token_api =
  jwt_decode :: "string \<Rightarrow> string \<Rightarrow> validation \<Rightarrow> 'j res"
  j_get :: "'j \<Rightarrow> string \<Rightarrow> 'j option"
  j_as_array :: "'j \<Rightarrow> 'j list option"
  j_as_str :: "'j \<Rightarrow> string option"

definition non_empty :: "string \<Rightarrow> string option" where
  "non_empty v = (if v = [] then None else Some v)"

definition token_validation :: "string option \<Rightarrow> string option \<Rightarrow> validation" where
  "token_validation issuer audience =
     (let validation = \<lparr>v_algorithm = ''HS256'', v_issuer = None, v_audience = None\<rparr>;
          validation = (case issuer of None \<Rightarrow> validation | Some i \<Rightarrow> validation\<lparr>v_issuer := Some i\<rparr>)
      in case audience of None \<Rightarrow> validation | Some a \<Rightarrow> validation\<lparr>v_audience := Some a\<rparr>)"

definition bearer_token :: "'h http_api \<Rightarrow> 'h \<Rightarrow> string option" where
  "bearer_token api headers =
     Option.bind (get_str api headers ''authorization'') (\<lambda>header. strip_prefix header ''Bearer '')"

definition decode_token_claims ::
    "'h http_api \<Rightarrow> 'j token_api \<Rightarrow> 'h \<Rightarrow> string \<Rightarrow> string option \<Rightarrow> string option \<Rightarrow> string \<Rightarrow> 'j res" where
  "decode_token_claims api tok headers secret issuer audience invalid_token_message =
     (if secret = [] then Inl ''token secret is not configured''
      else case bearer_token api headers of
        None \<Rightarrow> Inl ''missing bearer token''
      | Some bearer \<Rightarrow>
          (case jwt_decode tok bearer secret (token_validation issuer audience) of
             Inl err \<Rightarrow> Inl (invalid_token_message @ '': '' @ err)
           | Inr claims \<Rightarrow> Inr claims))"

definition split_claim_values :: "string \<Rightarrow> string list" where
  "split_claim_values v = filter (\<lambda>w. w \<noteq> []) (map trim (split_whitespace v))"

definition split_header_values :: "string \<Rightarrow> string list" where
  "split_header_values v = filter (\<lambda>w. w \<noteq> []) (map trim (split_char (CHR '','') v))"

definition extract_claim_values :: "'j token_api \<Rightarrow> 'j \<Rightarrow> string \<Rightarrow> bool \<Rightarrow> string list" where
  "extract_claim_values tok claims claim_name include_legacy_role_claim =
     (case j_get tok claims claim_name of
        None \<Rightarrow> []
      | Some v \<Rightarrow>
          (case j_as_array tok v of
             Some arr \<Rightarrow> concat (map split_claim_values (List.map_filter (j_as_str tok) arr))
           | None \<Rightarrow> (case j_as_str tok v of
               Some single \<Rightarrow> split_claim_values single
             | None \<Rightarrow> [])))
     @ (if include_legacy_role_claim then
          (case Option.bind (j_get tok claims ''role'') (j_as_str tok) of
             Some single_role \<Rightarrow> [single_role]
           | None \<Rightarrow> [])
        else [])"

definition extract_header_values :: "'h http_api \<Rightarrow> 'h \<Rightarrow> string \<Rightarrow> string list" where
  "extract_header_values api headers header_name =
     (case get_str api headers header_name of None \<Rightarrow> [] | Some v \<Rightarrow> split_header_values v)"

section \<open>Authentication\<close>

definition token_identity ::
    "'j token_api \<Rightarrow> auth_mode \<Rightarrow> 'j \<Rightarrow> string \<Rightarrow> string \<Rightarrow> bool \<Rightarrow> authenticated_identity" where
  "token_identity tok mode claims roles_claim groups_claim legacy =
     \<lparr>ai_mode = mode, ai_roles = extract_claim_values tok claims roles_claim legacy,
      ai_groups = extract_claim_values tok claims groups_claim False, ai_subject = None\<rparr>"

definition issuer_identity ::
    "'h http_api \<Rightarrow> 'j token_api \<Rightarrow> auth_mode \<Rightarrow> issuer_config \<Rightarrow> 'h \<Rightarrow> string \<Rightarrow>
     authenticated_identity res" where
  "issuer_identity api tok mode cfg headers msg =
     map_sum id (\<lambda>claims. token_identity tok mode claims (ic_roles_claim cfg) (ic_groups_claim cfg) False)
       (decode_token_claims api tok headers (ic_secret cfg) (non_empty (ic_issuer cfg))
         (non_empty (ic_audience cfg)) msg)"

definition mtls_subject :: "'h http_api \<Rightarrow> mtls_config \<Rightarrow> 'h \<Rightarrow> string option" where
  "mtls_subject api cfg headers =
     (case map_option trim (get_str api headers (mt_subject_header cfg)) of
        None \<Rightarrow> None
      | Some v \<Rightarrow> if v = [] then None else Some v)"

fun authenticate_mode ::
    "'h http_api \<Rightarrow> 'j token_api \<Rightarrow> security_config \<Rightarrow> auth_mode \<Rightarrow> 'h \<Rightarrow> authenticated_identity res" where
  "authenticate_mode api tok cfg Anonymous headers =
     Inr \<lparr>ai_mode = Anonymous, ai_roles = [], ai_groups = [], ai_subject = None\<rparr>"
| "authenticate_mode api tok cfg Jwt headers =
     map_sum id (\<lambda>claims. token_identity tok Jwt claims (jwt_roles_claim (sc_jwt cfg))
         (jwt_groups_claim (sc_jwt cfg)) True)
       (decode_token_claims api tok headers (jwt_secret (sc_jwt cfg)) None None ''invalid jwt'')"
| "authenticate_mode api tok cfg OAuth2 headers =
     issuer_identity api tok OAuth2 (sc_oauth2 cfg) headers ''invalid oauth2 token''"
| "authenticate_mode api tok cfg OpenIdConnect headers =
     issuer_identity api tok OpenIdConnect (sc_openid_connect cfg) headers ''invalid openid connect token''"
| "authenticate_mode api tok cfg Mtls headers =
     (case mtls_subject api (sc_mtls cfg) headers of
        None \<Rightarrow> Inl ''missing mTLS subject''
      | Some subject \<Rightarrow>
          if mt_allowed_subjects (sc_mtls cfg) \<noteq> [] \<and> subject \<notin> set (mt_allowed_subjects (sc_mtls cfg))
          then Inl ''mTLS subject is not allowed''
          else Inr \<lparr>ai_mode = Mtls,
                    ai_roles = extract_header_values api headers (mt_roles_header (sc_mtls cfg)),
                    ai_groups = extract_header_values api headers (mt_groups_header (sc_mtls cfg)),
                    ai_subject = Some subject\<rparr>)"

text \<open>The loop over the modes, with the errors collected so far.\<close>

fun try_modes ::
    "'h http_api \<Rightarrow> 'j token_api \<Rightarrow> security_config \<Rightarrow> 'h \<Rightarrow> auth_mode list \<Rightarrow> string list \<Rightarrow>
     authenticated_identity res" where
  "try_modes api tok cfg headers [] errors =
     Inl (''authentication failed for all enabled modes: '' @ join '' | '' errors)"
| "try_modes api tok cfg headers (mode # modes) errors =
     (case authenticate_mode api tok cfg mode headers of
        Inr identity \<Rightarrow> Inr identity
      | Inl err \<Rightarrow> try_modes api tok cfg headers modes (errors @ [debug_mode mode @ '': '' @ err]))"

definition authenticate ::
    "'h http_api \<Rightarrow> 'j token_api \<Rightarrow> security_config \<Rightarrow> 'h \<Rightarrow> authenticated_identity res" where
  "authenticate api tok cfg headers =
     (if sc_enabled_modes cfg = []
      then Inr \<lparr>ai_mode = Anonymous, ai_roles = [], ai_groups = [], ai_subject = None\<rparr>
      else try_modes api tok cfg headers (sc_enabled_modes cfg) [])"

section \<open>Authorization\<close>

definition required_roles :: "security_config \<Rightarrow> string \<Rightarrow> string list" where
  "required_roles cfg route = map rb_role (filter (\<lambda>b. rb_route b = route) (sc_rbac cfg))"

definition required_groups :: "security_config \<Rightarrow> string \<Rightarrow> string list" where
  "required_groups cfg route = map gb_group (filter (\<lambda>b. gb_route b = route) (sc_group_rbac cfg))"

definition required_subjects :: "security_config \<Rightarrow> string \<Rightarrow> string list" where
  "required_subjects cfg route = map sb_subject (filter (\<lambda>b. sb_route b = route) (sc_subject_rbac cfg))"

definition authorize :: "security_config \<Rightarrow> auth_context \<Rightarrow> bool" where
  "authorize cfg auth =
     (if sc_enabled_modes cfg \<noteq> [] \<and> ac_mode auth \<notin> set (sc_enabled_modes cfg) then False
      else
        (let roles = required_roles cfg (ac_route_name auth);
             groups = required_groups cfg (ac_route_name auth);
             subjects = required_subjects cfg (ac_route_name auth);
             role_allowed = (roles = [] \<or> (\<exists>r\<in>set (ac_roles auth). r \<in> set roles));
             group_allowed = (groups = [] \<or> (\<exists>g\<in>set (ac_groups auth). g \<in> set groups));
             subject_allowed =
               (subjects = [] \<or> (case ac_subject auth of None \<Rightarrow> False | Some s \<Rightarrow> s \<in> set subjects))
         in role_allowed \<and> group_allowed \<and> subject_allowed))"

text \<open>The context the handler builds from an identity.\<close>

definition auth_context_of :: "authenticated_identity \<Rightarrow> string \<Rightarrow> auth_context" where
  "auth_context_of identity route_name =
     \<lparr>ac_mode = ai_mode identity, ac_roles = ai_roles identity, ac_groups = ai_groups identity,
      ac_subject = ai_subject identity, ac_route_name = route_name\<rparr>"

section \<open>Authentication lemmas\<close>

abbreviation mode_ok :: "'h http_api \<Rightarrow> 'j token_api \<Rightarrow> security_config \<Rightarrow> 'h \<Rightarrow> auth_mode \<Rightarrow> bool" where
  "mode_ok api tok cfg headers mode \<equiv> \<not> isl (authenticate_mode api tok cfg mode headers)"

definition mode_error :: "'h http_api \<Rightarrow> 'j token_api \<Rightarrow> security_config \<Rightarrow> 'h \<Rightarrow> auth_mode \<Rightarrow> string" where
  "mode_error api tok cfg headers mode =
     debug_mode mode @ '': '' @ projl (authenticate_mode api tok cfg mode headers)"

lemma try_modes_find:
  "try_modes api tok cfg headers modes errors =
   (case find (mode_ok api tok cfg headers) modes of
      Some mode \<Rightarrow> authenticate_mode api tok cfg mode headers
    | None \<Rightarrow> Inl (''authentication failed for all enabled modes: '' @
        join '' | '' (errors @ map (mode_error api tok cfg headers) modes)))"
  by (induction modes arbitrary: errors) (auto simp: mode_error_def split: sum.splits option.splits)

lemma find_SomeD: "find P xs = Some x \<Longrightarrow> x \<in> set xs \<and> P x"
  by (auto simp: find_Some_iff)

lemma authenticate_mode_mode:
  "authenticate_mode api tok cfg mode headers = Inr identity \<Longrightarrow> ai_mode identity = mode"
  by (cases mode)
    (auto simp: token_identity_def issuer_identity_def map_sum_def split: sum.splits option.splits if_splits)

lemma authenticate_InrD:
  assumes "authenticate api tok cfg headers = Inr identity"
  obtains "sc_enabled_modes cfg = []"
      "identity = \<lparr>ai_mode = Anonymous, ai_roles = [], ai_groups = [], ai_subject = None\<rparr>"
  | "ai_mode identity \<in> set (sc_enabled_modes cfg)"
      "authenticate_mode api tok cfg (ai_mode identity) headers = Inr identity"
proof (cases "sc_enabled_modes cfg = []")
  case True
  then show ?thesis using assms that(1) by (simp add: authenticate_def)
next
  case False
  then obtain mode where find: "find (mode_ok api tok cfg headers) (sc_enabled_modes cfg) = Some mode"
    and ok: "authenticate_mode api tok cfg mode headers = Inr identity"
    using assms by (auto simp: authenticate_def try_modes_find split: option.splits)
  then show ?thesis using that(2) authenticate_mode_mode [OF ok] find_SomeD [OF find] by simp
qed

lemma decode_token_claims_Inr:
  "decode_token_claims api tok headers secret issuer audience msg = Inr claims \<longleftrightarrow>
   secret \<noteq> [] \<and> (\<exists>bearer. bearer_token api headers = Some bearer \<and>
     jwt_decode tok bearer secret (token_validation issuer audience) = Inr claims)"
  by (auto simp: decode_token_claims_def split: option.splits sum.splits)

text \<open>An identity of the modes that need no credential carries no role, group or subject.\<close>

lemma anonymous_identity:
  "authenticate_mode api tok cfg Anonymous headers = Inr identity \<Longrightarrow>
   ai_roles identity = [] \<and> ai_groups identity = [] \<and> ai_subject identity = None"
  by auto

lemma subject_only_mtls:
  assumes "authenticate_mode api tok cfg mode headers = Inr identity" and "ai_subject identity = Some s"
  shows "mode = Mtls \<and> mtls_subject api (sc_mtls cfg) headers = Some s \<and>
     (mt_allowed_subjects (sc_mtls cfg) = [] \<or> s \<in> set (mt_allowed_subjects (sc_mtls cfg)))"
  using assms
  by (cases mode)
    (auto simp: token_identity_def issuer_identity_def map_sum_def split: sum.splits option.splits if_splits)

lemma required_nonempty:
  "b \<in> set (sc_rbac cfg) \<Longrightarrow> required_roles cfg (rb_route b) \<noteq> []"
  "g \<in> set (sc_group_rbac cfg) \<Longrightarrow> required_groups cfg (gb_route g) \<noteq> []"
  "s \<in> set (sc_subject_rbac cfg) \<Longrightarrow> required_subjects cfg (sb_route s) \<noteq> []"
  by (auto simp: required_roles_def required_groups_def required_subjects_def filter_empty_conv)

lemma required_roles_iff:
  "role \<in> set (required_roles cfg route) \<longleftrightarrow> \<lparr>rb_role = role, rb_route = route\<rparr> \<in> set (sc_rbac cfg)"
proof
  assume "role \<in> set (required_roles cfg route)"
  then obtain b where "b \<in> set (sc_rbac cfg)" "rb_route b = route" "rb_role b = role" by (auto simp: required_roles_def)
  moreover from this have "b = \<lparr>rb_role = role, rb_route = route\<rparr>" by simp
  ultimately show "\<lparr>rb_role = role, rb_route = route\<rparr> \<in> set (sc_rbac cfg)" by simp
qed (force simp: required_roles_def)

lemma required_groups_iff:
  "grp \<in> set (required_groups cfg route) \<longleftrightarrow> \<lparr>gb_group = grp, gb_route = route\<rparr> \<in> set (sc_group_rbac cfg)"
proof
  assume "grp \<in> set (required_groups cfg route)"
  then obtain b where "b \<in> set (sc_group_rbac cfg)" "gb_route b = route" "gb_group b = grp" by (auto simp: required_groups_def)
  moreover from this have "b = \<lparr>gb_group = grp, gb_route = route\<rparr>" by simp
  ultimately show "\<lparr>gb_group = grp, gb_route = route\<rparr> \<in> set (sc_group_rbac cfg)" by simp
qed (force simp: required_groups_def)

section \<open>Lists of values\<close>





definition padding :: "string list \<Rightarrow> bool" where
  "padding p \<longleftrightarrow> set p \<subseteq> set white_space"

lemma padding_simps [simp]:
  "padding []" "padding (x # p) \<longleftrightarrow> x \<in> set white_space \<and> padding p"
  "padding (p @ q) \<longleftrightarrow> padding p \<and> padding q"
  by (auto simp: padding_def)





















section \<open>A concrete token interface\<close>

text \<open>
  JSON values, and a decoder that accepts one token per secret.  It serves to evaluate the
  definitions on concrete requests.
\<close>

datatype json = JStr string | JArr "json list" | JObj "(string \<times> json) list"

definition sample_claims :: json where
  "sample_claims = JObj [(''scope'', JStr ''read write''), (''groups'', JArr [JStr ''engineering''])]"

definition sample_token_api :: "json token_api" where
  "sample_token_api =
     \<lparr>jwt_decode = (\<lambda>token secret v.
        if token = ''abc'' \<and> secret = ''oauth-secret'' \<and> v_algorithm v = ''HS256''
        then Inr sample_claims else Inl ''InvalidSignature''),
      j_get = (\<lambda>j k. case j of JObj kvs \<Rightarrow> map_of kvs k | _ \<Rightarrow> None),
      j_as_array = (\<lambda>j. case j of JArr js \<Rightarrow> Some js | _ \<Rightarrow> None),
      j_as_str = (\<lambda>j. case j of JStr s \<Rightarrow> Some s | _ \<Rightarrow> None)\<rparr>"

text \<open>The configurations of the module's tests, with a binding for each.\<close>

definition sample_oauth_config :: security_config where
  "sample_oauth_config = default_security_config
     \<lparr>sc_enabled_modes := [Jwt, OAuth2],
      sc_rbac := [\<lparr>rb_role = ''read'', rb_route = ''users''\<rparr>],
      sc_oauth2 := \<lparr>ic_secret = ''oauth-secret'', ic_issuer = [], ic_audience = [],
        ic_roles_claim = ''scope'', ic_groups_claim = ''groups''\<rparr>\<rparr>"

definition sample_oauth_headers :: ref_headers where
  "sample_oauth_headers = [(''authorization'', ''Bearer abc'')]"

definition sample_mtls_config :: security_config where
  "sample_mtls_config = default_security_config
     \<lparr>sc_enabled_modes := [Mtls],
      sc_mtls := \<lparr>mt_subject_header = ''x-client-subject'', mt_roles_header = ''x-client-roles'',
        mt_groups_header = ''x-client-groups'', mt_allowed_subjects = [''CN=svc-a'']\<rparr>,
      sc_subject_rbac := [\<lparr>sb_subject = ''CN=svc-a'', sb_route = ''users''\<rparr>]\<rparr>"

definition sample_mtls_headers :: ref_headers where
  "sample_mtls_headers =
     [(''x-client-subject'', ''CN=svc-a''), (''x-client-roles'', ''admin,writer''),
      (''x-client-groups'', ''platform,ops'')]"

definition sample_oauth_identity :: authenticated_identity where
  "sample_oauth_identity = \<lparr>ai_mode = OAuth2, ai_roles = [''read'', ''write''],
     ai_groups = [''engineering''], ai_subject = None\<rparr>"

definition sample_mtls_identity :: authenticated_identity where
  "sample_mtls_identity = \<lparr>ai_mode = Mtls, ai_roles = [''admin'', ''writer''],
     ai_groups = [''platform'', ''ops''], ai_subject = Some ''CN=svc-a''\<rparr>"

lemma sample_oauth_authenticate:
  "authenticate ref_api sample_token_api sample_oauth_config sample_oauth_headers
   = Inr sample_oauth_identity"
  by code_simp

lemma sample_mtls_authenticate:
  "authenticate ref_api sample_token_api sample_mtls_config sample_mtls_headers
   = Inr sample_mtls_identity"
  by code_simp

section \<open>Properties\<close>

text \<open>
  Authentication is decided by the first enabled mode that succeeds.  With no mode enabled every
  request is anonymous; otherwise the identity is the one of the first mode, in configuration
  order, whose own check succeeds, and when none succeeds the error lists every mode with its own
  error, in order.
\<close>

lemma authenticate_first_mode:
  "authenticate api tok cfg headers =
   (if sc_enabled_modes cfg = []
    then Inr \<lparr>ai_mode = Anonymous, ai_roles = [], ai_groups = [], ai_subject = None\<rparr>
    else case find (\<lambda>mode. \<not> isl (authenticate_mode api tok cfg mode headers)) (sc_enabled_modes cfg) of
      Some mode \<Rightarrow> authenticate_mode api tok cfg mode headers
    | None \<Rightarrow> Inl (''authentication failed for all enabled modes: '' @
        join '' | '' (map (\<lambda>mode. debug_mode mode @ '': '' @
          projl (authenticate_mode api tok cfg mode headers)) (sc_enabled_modes cfg))))"
  by (simp add: authenticate_def try_modes_find mode_error_def [abs_def] split: option.splits)

text \<open>The secret, the validation and the claims that a token mode uses.\<close>

primrec mode_secret :: "security_config \<Rightarrow> auth_mode \<Rightarrow> string" where
  "mode_secret cfg Anonymous = []"
| "mode_secret cfg Jwt = jwt_secret (sc_jwt cfg)"
| "mode_secret cfg OAuth2 = ic_secret (sc_oauth2 cfg)"
| "mode_secret cfg OpenIdConnect = ic_secret (sc_openid_connect cfg)"
| "mode_secret cfg Mtls = []"

primrec mode_issuer_audience :: "security_config \<Rightarrow> auth_mode \<Rightarrow> string \<times> string" where
  "mode_issuer_audience cfg Anonymous = ([], [])"
| "mode_issuer_audience cfg Jwt = ([], [])"
| "mode_issuer_audience cfg OAuth2 = (ic_issuer (sc_oauth2 cfg), ic_audience (sc_oauth2 cfg))"
| "mode_issuer_audience cfg OpenIdConnect =
     (ic_issuer (sc_openid_connect cfg), ic_audience (sc_openid_connect cfg))"
| "mode_issuer_audience cfg Mtls = ([], [])"

primrec mode_claims :: "security_config \<Rightarrow> auth_mode \<Rightarrow> string \<times> string" where
  "mode_claims cfg Anonymous = ([], [])"
| "mode_claims cfg Jwt = (jwt_roles_claim (sc_jwt cfg), jwt_groups_claim (sc_jwt cfg))"
| "mode_claims cfg OAuth2 = (ic_roles_claim (sc_oauth2 cfg), ic_groups_claim (sc_oauth2 cfg))"
| "mode_claims cfg OpenIdConnect =
     (ic_roles_claim (sc_openid_connect cfg), ic_groups_claim (sc_openid_connect cfg))"
| "mode_claims cfg Mtls = ([], [])"

lemma token_mode_InrD:
  assumes "authenticate_mode api tok cfg mode headers = Inr identity"
    and "mode = Jwt \<or> mode = OAuth2 \<or> mode = OpenIdConnect"
  shows "\<exists>bearer claims. bearer_token api headers = Some bearer \<and> mode_secret cfg mode \<noteq> [] \<and>
     jwt_decode tok bearer (mode_secret cfg mode)
       (token_validation (non_empty (fst (mode_issuer_audience cfg mode)))
         (non_empty (snd (mode_issuer_audience cfg mode)))) = Inr claims \<and>
     identity = token_identity tok mode claims (fst (mode_claims cfg mode)) (snd (mode_claims cfg mode)) (mode = Jwt)"
  using assms by (auto simp: issuer_identity_def map_sum_def decode_token_claims_Inr non_empty_def
      split: sum.splits)

text \<open>
  C13. No token identity without a verified token.  When authentication yields an identity of a token
  mode, the request has an \<open>Authorization\<close> header with a bearer token, the mode's secret is not
  empty, and the decoder accepted that token under that secret with HS256 and with the issuer and
  the audience the mode's configuration names (none where it leaves them empty).  The roles and the
  groups of the identity are those of the two claims the mode's configuration names (for the JWT
  mode also the legacy claim), and it has no subject.
\<close>

theorem token_identity_verified:
  assumes "authenticate api tok cfg headers = Inr identity"
    and "ai_mode identity = Jwt \<or> ai_mode identity = OAuth2 \<or> ai_mode identity = OpenIdConnect"
  shows "\<exists>raw bearer claims. hm_get api headers ''authorization'' = Some raw \<and>
      header_value_to_str api raw = Some (''Bearer '' @ bearer) \<and>
      mode_secret cfg (ai_mode identity) \<noteq> [] \<and>
      jwt_decode tok bearer (mode_secret cfg (ai_mode identity))
        \<lparr>v_algorithm = ''HS256'',
         v_issuer = non_empty (fst (mode_issuer_audience cfg (ai_mode identity))),
         v_audience = non_empty (snd (mode_issuer_audience cfg (ai_mode identity)))\<rparr> = Inr claims \<and>
      ai_roles identity = extract_claim_values tok claims (fst (mode_claims cfg (ai_mode identity)))
        (ai_mode identity = Jwt) \<and>
      ai_groups identity = extract_claim_values tok claims (snd (mode_claims cfg (ai_mode identity))) False \<and>
      ai_subject identity = None"
proof -
  have "authenticate_mode api tok cfg (ai_mode identity) headers = Inr identity"
    using authenticate_InrD [OF assms(1)] assms(2) by fastforce
  from token_mode_InrD [OF this assms(2)] obtain bearer claims where
    bearer: "bearer_token api headers = Some bearer"
    and secret: "mode_secret cfg (ai_mode identity) \<noteq> []"
    and decode: "jwt_decode tok bearer (mode_secret cfg (ai_mode identity))
        (token_validation (non_empty (fst (mode_issuer_audience cfg (ai_mode identity))))
          (non_empty (snd (mode_issuer_audience cfg (ai_mode identity))))) = Inr claims"
    and identity: "identity = token_identity tok (ai_mode identity) claims (fst (mode_claims cfg (ai_mode identity)))
      (snd (mode_claims cfg (ai_mode identity))) (ai_mode identity = Jwt)"
    by blast
  from bearer obtain raw where "hm_get api headers ''authorization'' = Some raw"
    "header_value_to_str api raw = Some (''Bearer '' @ bearer)"
    by (auto simp: bearer_token_def get_str_def strip_prefix_def prefix_def bind_eq_Some_conv
        split: if_splits)
  moreover have "token_validation i a = \<lparr>v_algorithm = ''HS256'', v_issuer = i, v_audience = a\<rparr>" for i a
    by (simp add: token_validation_def Let_def split: option.splits)
  moreover have "ai_roles identity = extract_claim_values tok claims (fst (mode_claims cfg (ai_mode identity)))
        (ai_mode identity = Jwt) \<and>
      ai_groups identity = extract_claim_values tok claims (snd (mode_claims cfg (ai_mode identity))) False \<and>
      ai_subject identity = None"
    using arg_cong [OF identity, of ai_roles] arg_cong [OF identity, of ai_groups]
      arg_cong [OF identity, of ai_subject]
    by (simp add: token_identity_def)
  ultimately show ?thesis using secret decode by auto
qed

theorem token_identity_verified_witness:
  "\<exists>raw bearer claims. hm_get ref_api sample_oauth_headers ''authorization'' = Some raw \<and>
      header_value_to_str ref_api raw = Some (''Bearer '' @ bearer) \<and>
      mode_secret sample_oauth_config OAuth2 \<noteq> [] \<and>
      jwt_decode sample_token_api bearer (mode_secret sample_oauth_config OAuth2)
        \<lparr>v_algorithm = ''HS256'', v_issuer = None, v_audience = None\<rparr> = Inr claims \<and>
      ai_roles sample_oauth_identity = extract_claim_values sample_token_api claims ''scope'' False \<and>
      ai_groups sample_oauth_identity = extract_claim_values sample_token_api claims ''groups'' False"
  using token_identity_verified [OF sample_oauth_authenticate]
  by (simp add: sample_oauth_identity_def sample_oauth_config_def non_empty_def)

text \<open>
  A subject binding admits only the bound mTLS subjects.  If a subject is bound to the route, an
  authorized identity comes from the mTLS mode, its subject is the trimmed value of the configured
  header, is bound to the route, and is on the list of allowed subjects where there is one.
\<close>

lemma subject_binding_needs_mtls:
  assumes "authenticate api tok cfg headers = Inr identity"
    and "authorize cfg (auth_context_of identity route)"
    and "route \<in> sb_route ` set (sc_subject_rbac cfg)"
  shows "ai_mode identity = Mtls \<and> (\<exists>s. ai_subject identity = Some s \<and>
     mtls_subject api (sc_mtls cfg) headers = Some s \<and>
     \<lparr>sb_subject = s, sb_route = route\<rparr> \<in> set (sc_subject_rbac cfg) \<and>
     (mt_allowed_subjects (sc_mtls cfg) = [] \<or> s \<in> set (mt_allowed_subjects (sc_mtls cfg))))"
proof -
  obtain s where s: "ai_subject identity = Some s" "s \<in> set (required_subjects cfg route)"
    using assms(2,3) required_nonempty(3) [of _ cfg]
    by (fastforce simp: authorize_def auth_context_of_def Let_def split: if_splits option.splits)
  then obtain b where b: "b \<in> set (sc_subject_rbac cfg)" and fields: "sb_route b = route" "sb_subject b = s"
    by (auto simp: required_subjects_def)
  have "b = \<lparr>sb_subject = s, sb_route = route\<rparr>" using fields by auto
  with b have "\<lparr>sb_subject = s, sb_route = route\<rparr> \<in> set (sc_subject_rbac cfg)" by (simp only:)
  moreover have ok: "authenticate_mode api tok cfg (ai_mode identity) headers = Inr identity"
    using assms(1) s(1) by (elim authenticate_InrD) auto
  ultimately show ?thesis using subject_only_mtls [OF ok s(1)] s(1) by simp
qed

text \<open>
  C32. A bound route is closed to requests without the bound credentials.  If a role, a group or a
  subject is bound to the route, and the identity of a request is authorized there, then it was
  obtained by a mode other than the anonymous one, which is enabled and whose own check succeeded;
  if roles are bound, it has one of them, if groups are, one of them; and if subjects are, it comes
  from the mTLS mode and its subject is one of them.
\<close>

theorem bound_route_needs_credentials:
  assumes "authenticate api tok cfg headers = Inr identity"
    and "authorize cfg (auth_context_of identity route)"
    and "route \<in> rb_route ` set (sc_rbac cfg) \<union> gb_route ` set (sc_group_rbac cfg)
       \<union> sb_route ` set (sc_subject_rbac cfg)"
  shows "ai_mode identity \<noteq> Anonymous \<and> ai_mode identity \<in> set (sc_enabled_modes cfg) \<and>
     authenticate_mode api tok cfg (ai_mode identity) headers = Inr identity \<and>
     (route \<in> rb_route ` set (sc_rbac cfg) \<longrightarrow>
        (\<exists>role\<in>set (ai_roles identity). \<lparr>rb_role = role, rb_route = route\<rparr> \<in> set (sc_rbac cfg))) \<and>
     (route \<in> gb_route ` set (sc_group_rbac cfg) \<longrightarrow>
        (\<exists>grp\<in>set (ai_groups identity). \<lparr>gb_group = grp, gb_route = route\<rparr> \<in> set (sc_group_rbac cfg))) \<and>
     (route \<in> sb_route ` set (sc_subject_rbac cfg) \<longrightarrow> ai_mode identity = Mtls \<and>
        (\<exists>s. ai_subject identity = Some s \<and> \<lparr>sb_subject = s, sb_route = route\<rparr> \<in> set (sc_subject_rbac cfg)))"
proof -
  have "ai_roles identity \<noteq> [] \<or> ai_groups identity \<noteq> [] \<or> ai_subject identity \<noteq> None"
    using assms(2,3) required_nonempty [of _ cfg]
    by (fastforce simp: authorize_def auth_context_of_def Let_def split: if_splits option.splits)
  then have "ai_mode identity \<noteq> Anonymous \<and> ai_mode identity \<in> set (sc_enabled_modes cfg) \<and>
     authenticate_mode api tok cfg (ai_mode identity) headers = Inr identity"
    using assms(1) by (elim authenticate_InrD) (auto dest: anonymous_identity)
  moreover have "\<exists>role\<in>set (ai_roles identity). \<lparr>rb_role = role, rb_route = route\<rparr> \<in> set (sc_rbac cfg)"
    if "route \<in> rb_route ` set (sc_rbac cfg)"
    using assms(2) that required_nonempty(1) [of _ cfg]
    by (fastforce simp: authorize_def auth_context_of_def Let_def required_roles_iff split: if_splits)
  moreover have "\<exists>grp\<in>set (ai_groups identity). \<lparr>gb_group = grp, gb_route = route\<rparr> \<in> set (sc_group_rbac cfg)"
    if "route \<in> gb_route ` set (sc_group_rbac cfg)"
    using assms(2) that required_nonempty(2) [of _ cfg]
    by (fastforce simp: authorize_def auth_context_of_def Let_def required_groups_iff split: if_splits)
  ultimately show ?thesis using subject_binding_needs_mtls [OF assms(1,2)] by blast
qed

theorem bound_route_needs_credentials_witness:
  "ai_mode sample_oauth_identity \<noteq> Anonymous \<and>
   ai_mode sample_oauth_identity \<in> set (sc_enabled_modes sample_oauth_config) \<and>
   (\<exists>role\<in>set (ai_roles sample_oauth_identity). \<lparr>rb_role = role, rb_route = ''users''\<rparr> \<in> set (sc_rbac sample_oauth_config))"
proof -
  have "authorize sample_oauth_config (auth_context_of sample_oauth_identity ''users'')" by code_simp
  moreover have "''users'' \<in> rb_route ` set (sc_rbac sample_oauth_config)" by (simp add: sample_oauth_config_def)
  ultimately show ?thesis using bound_route_needs_credentials [OF sample_oauth_authenticate] by blast
qed






text \<open>
  An mTLS mode without its configuration section rejects every request.  The deserializer gives
  an absent section empty header names (the named defaults apply only inside a present section), a
  lookup of the empty name finds nothing, so the mode fails with a missing subject, whatever the
  request carries.
\<close>

lemma mtls_absent_section_rejects:
  assumes "sc_mtls cfg = deserialize_mtls None" and "hm_get api headers [] = None"
  shows "authenticate_mode api tok cfg Mtls headers = Inl ''missing mTLS subject''"
  using assms by (simp add: deserialize_mtls_def default_mtls_config_def mtls_subject_def get_str_def)

lemma mtls_absent_section_rejects_example:
  "authenticate_mode ref_api sample_token_api (sample_mtls_config\<lparr>sc_mtls := deserialize_mtls None\<rparr>)
     Mtls sample_mtls_headers = Inl ''missing mTLS subject''"
proof (rule mtls_absent_section_rejects)
  show "hm_get ref_api sample_mtls_headers [] = None" by code_simp
qed simp

end
