(* ===== verification/Config.thy ===== *)
theory Config
  imports Balancer Router Rate_Limit Security
begin

text \<open>
  \<open>config.rs\<close>: the configuration records with their defaults, the validation and the loading of a
  configuration file.  Reading a file and parsing JSON or YAML are parameters.
\<close>

section \<open>Records and defaults\<close>

record retry_config =
  rc_max_attempts :: u8
  rc_backoff_ms :: u64
  rc_idempotent_only :: bool
  rc_retry_unsafe_methods :: bool

record proxy_runtime_config =
  pr_connect_timeout_ms :: u64
  pr_read_timeout_ms :: u64
  pr_request_timeout_ms :: u64
  pr_max_idle_per_host :: usize
  pr_idle_timeout_secs :: u64
  pr_retries :: retry_config

record shutdown_config =
  sd_drain_timeout_ms :: u64
  sd_drain_poll_ms :: u64

record server_config =
  sv_listen_addr :: string
  sv_max_request_body_bytes :: usize
  sv_proxy :: proxy_runtime_config
  sv_shutdown :: shutdown_config

record active_health_check_config =
  ah_enabled :: bool
  ah_path :: string
  ah_interval_ms :: u64
  ah_timeout_ms :: u64
  ah_healthy_threshold :: u32
  ah_unhealthy_threshold :: u32

record passive_health_check_config =
  ph_failure_threshold :: u32
  ph_success_threshold :: u32

record health_check_config =
  hc_active :: active_health_check_config
  hc_passive :: passive_health_check_config

record circuit_breaker_config =
  cb_failure_threshold :: u32
  cb_open_ms :: u64
  cb_half_open_max_requests :: u32

record upstream_config =
  u_name :: string
  u_strategy :: balancing_strategy
  u_targets :: "upstream_target list"
  u_health_checks :: health_check_config
  u_circuit_breaker :: circuit_breaker_config

record plugin_config =
  pc_name :: string
  pc_module :: string
  pc_wasm_path :: "string option"
  pc_runtime :: string
  pc_contract_version :: u32
  pc_phases :: "string list"
  pc_capabilities :: "string list"

record gateway_config =
  gc_server :: server_config
  gc_routes :: "route list"
  gc_upstreams :: "upstream_config list"
  gc_security :: security_config
  gc_rate_limit :: rate_limit_config
  gc_plugins :: "plugin_config list"

definition default_listen_addr :: string where "default_listen_addr = ''127.0.0.1:3000''"

definition default_max_request_body_bytes :: usize where
  "default_max_request_body_bytes = 8 * 1024 * 1024"

definition default_retry_config :: retry_config where
  "default_retry_config =
     \<lparr>rc_max_attempts = 3, rc_backoff_ms = 50, rc_idempotent_only = True, rc_retry_unsafe_methods = False\<rparr>"

definition default_proxy_runtime_config :: proxy_runtime_config where
  "default_proxy_runtime_config =
     \<lparr>pr_connect_timeout_ms = 1000, pr_read_timeout_ms = 5000, pr_request_timeout_ms = 7000,
      pr_max_idle_per_host = 64, pr_idle_timeout_secs = 90, pr_retries = default_retry_config\<rparr>"

definition default_shutdown_config :: shutdown_config where
  "default_shutdown_config = \<lparr>sd_drain_timeout_ms = 10000, sd_drain_poll_ms = 50\<rparr>"

definition default_server_config :: server_config where
  "default_server_config =
     \<lparr>sv_listen_addr = default_listen_addr,
      sv_max_request_body_bytes = default_max_request_body_bytes,
      sv_proxy = default_proxy_runtime_config, sv_shutdown = default_shutdown_config\<rparr>"

definition default_active_health_check :: active_health_check_config where
  "default_active_health_check =
     \<lparr>ah_enabled = False, ah_path = ''/healthz'', ah_interval_ms = 5000, ah_timeout_ms = 1000,
      ah_healthy_threshold = 2, ah_unhealthy_threshold = 2\<rparr>"

definition default_passive_health_check :: passive_health_check_config where
  "default_passive_health_check = \<lparr>ph_failure_threshold = 3, ph_success_threshold = 1\<rparr>"

definition default_health_check_config :: health_check_config where
  "default_health_check_config =
     \<lparr>hc_active = default_active_health_check, hc_passive = default_passive_health_check\<rparr>"

definition default_circuit_breaker :: circuit_breaker_config where
  "default_circuit_breaker =
     \<lparr>cb_failure_threshold = 5, cb_open_ms = 5000, cb_half_open_max_requests = 1\<rparr>"

definition default_plugin_runtime :: string where "default_plugin_runtime = ''native''"

definition default_plugin_contract_version :: u32 where "default_plugin_contract_version = 1"

definition default_plugin_phases :: "string list" where
  "default_plugin_phases = [''init'', ''access'', ''header_filter'', ''body_filter'', ''log'']"

section \<open>Validation\<close>

definition has_upstream :: "gateway_config \<Rightarrow> string \<Rightarrow> bool" where
  "has_upstream cfg name = list_ex (\<lambda>u. u_name u = name) (gc_upstreams cfg)"

abbreviation show_word :: "'n::len word \<Rightarrow> string" where
  "show_word w \<equiv> show_nat (unat w)"

text \<open>The body of the loop over the routes, with the checks in the order of the source.\<close>

definition validate_route :: "gateway_config \<Rightarrow> route \<Rightarrow> unit res" where
  "validate_route cfg r =
     (let split = r_traffic_split r; fault = r_fault_injection r; name = quoted (r_name r) in
      bind_res (ensure (has_upstream cfg (r_upstream r))
        (''route '' @ name @ '' references unknown upstream '' @ quoted (r_upstream r))) (\<lambda>_.
      bind_res
        (case ts_canary_upstream split of
           None \<Rightarrow> Inr ()
         | Some canary \<Rightarrow> ensure (has_upstream cfg canary)
             (''route '' @ name @ '' references unknown canary upstream '' @ quoted canary)) (\<lambda>_.
      bind_res (ensure (\<not> 100 < ts_canary_percentage split)
        (''route '' @ name @ '' has invalid canary percentage ''
          @ show_word (ts_canary_percentage split) @ ''; must be <= 100'')) (\<lambda>_.
      bind_res (ensure (\<not> 100 < fi_probability_percent fault)
        (''route '' @ name @ '' has invalid fault injection probability ''
          @ show_word (fi_probability_percent fault) @ ''; must be <= 100'')) (\<lambda>_.
      case fi_abort_status fault of
        None \<Rightarrow> Inr ()
      | Some st \<Rightarrow> ensure (100 \<le> st \<and> st \<le> 599)
          (''route '' @ name @ '' has invalid fault injection abort_status '' @ show_word st
            @ ''; must be in 100..=599''))))))"

definition validate_upstream :: "upstream_config \<Rightarrow> unit res" where
  "validate_upstream u =
     ensure (u_targets u \<noteq> []) (''upstream '' @ quoted (u_name u) @ '' has no targets'')"

definition validate :: "gateway_config \<Rightarrow> unit res" where
  "validate cfg =
     bind_res (ensure (gc_routes cfg \<noteq> []) ''at least one route must be configured'') (\<lambda>_.
     bind_res (for_res (validate_route cfg) (gc_routes cfg)) (\<lambda>_.
       for_res validate_upstream (gc_upstreams cfg)))"

section \<open>Loading\<close>

text \<open>
  \<open>Path::extension\<close> on Unix: the last component that is neither empty nor \<open>.\<close>, none for \<open>..\<close>; its part
  after the last dot, none without a dot and none when the only dot is the first character.
\<close>

definition file_name :: "string \<Rightarrow> string option" where
  "file_name path =
     (let components = filter (\<lambda>c. c \<noteq> [] \<and> c \<noteq> ''.'') (split_char (CHR ''/'') path)
      in if components = [] \<or> last components = ''..'' then None else Some (last components))"

definition path_extension :: "string \<Rightarrow> string option" where
  "path_extension path =
     (case file_name path of
        None \<Rightarrow> None
      | Some f \<Rightarrow>
          (let parts = split_char (CHR ''.'') f
           in if length parts = 1 \<or> (length parts = 2 \<and> hd parts = []) then None else Some (last parts)))"

definition load_from_path ::
    "(string \<Rightarrow> string res) \<Rightarrow> (string \<Rightarrow> gateway_config res) \<Rightarrow> (string \<Rightarrow> gateway_config res) \<Rightarrow>
     string \<Rightarrow> gateway_config res" where
  "load_from_path read_to_string json_from_str yaml_from_str path =
     bind_res (map_sum (\<lambda>err. ''failed to read config '' @ path @ '': '' @ err) id (read_to_string path))
       (\<lambda>content.
     bind_res
       (if path_extension path = Some ''json''
        then map_sum (\<lambda>err. ''invalid JSON config '' @ path @ '': '' @ err) id (json_from_str content)
        else map_sum (\<lambda>err. ''invalid YAML config '' @ path @ '': '' @ err) id (yaml_from_str content))
       (\<lambda>parsed.
     bind_res (validate parsed) (\<lambda>_. Inr parsed)))"

section \<open>What validation promises\<close>

lemma has_upstream_iff: "has_upstream cfg name \<longleftrightarrow> name \<in> u_name ` set (gc_upstreams cfg)"
  by (auto simp: has_upstream_def list_ex_iff)

text \<open>A route that the validator accepts.\<close>

definition valid_route :: "gateway_config \<Rightarrow> route \<Rightarrow> bool" where
  "valid_route cfg r \<longleftrightarrow>
     r_upstream r \<in> u_name ` set (gc_upstreams cfg) \<and>
     set_option (ts_canary_upstream (r_traffic_split r)) \<subseteq> u_name ` set (gc_upstreams cfg) \<and>
     unat (ts_canary_percentage (r_traffic_split r)) \<le> 100 \<and>
     unat (fi_probability_percent (r_fault_injection r)) \<le> 100 \<and>
     unat ` set_option (fi_abort_status (r_fault_injection r)) \<subseteq> {100..599}"

lemma validate_route_ok: "validate_route cfg r = Inr () \<longleftrightarrow> valid_route cfg r"
  by (auto simp: validate_route_def valid_route_def has_upstream_iff Let_def word_less_nat_alt
      word_le_nat_alt split: option.splits)

lemma validate_ok:
  "validate cfg = Inr () \<longleftrightarrow>
   gc_routes cfg \<noteq> [] \<and> (\<forall>r\<in>set (gc_routes cfg). valid_route cfg r) \<and>
   (\<forall>u\<in>set (gc_upstreams cfg). u_targets u \<noteq> [])"
  by (simp add: validate_def validate_route_ok validate_upstream_def)

definition sample_upstream :: upstream_config where
  "sample_upstream =
     \<lparr>u_name = ''svc-b'', u_strategy = RoundRobin, u_targets = sample_targets,
      u_health_checks = default_health_check_config, u_circuit_breaker = default_circuit_breaker\<rparr>"

definition sample_config :: gateway_config where
  "sample_config =
     \<lparr>gc_server = default_server_config, gc_routes = sample_routes,
      gc_upstreams = [sample_upstream\<lparr>u_name := ''svc-a''\<rparr>, sample_upstream],
      gc_security = default_security_config, gc_rate_limit = sample_quota_config,
      gc_plugins = []\<rparr>"

lemma sample_config_valid: "validate sample_config = Inr ()"
  by code_simp

section \<open>Properties\<close>

text \<open>
  C21. A loaded configuration is a valid one, and every valid one loads.  \<open>load_from_path\<close> returns a
  configuration exactly when the file can be read, the parser chosen by the extension (JSON for
  \<open>json\<close>, YAML otherwise) yields it, it has a route, every route and canary names a configured
  upstream and keeps its percentages and abort status in range, and every upstream has a target.
\<close>

theorem load_from_path_iff:
  "load_from_path read_to_string json_from_str yaml_from_str path = Inr cfg \<longleftrightarrow>
   (\<exists>content. read_to_string path = Inr content \<and>
      (if path_extension path = Some ''json'' then json_from_str content else yaml_from_str content)
        = Inr cfg) \<and>
   gc_routes cfg \<noteq> [] \<and> (\<forall>u\<in>set (gc_upstreams cfg). u_targets u \<noteq> []) \<and>
   (\<forall>r\<in>set (gc_routes cfg).
      r_upstream r \<in> u_name ` set (gc_upstreams cfg) \<and>
      set_option (ts_canary_upstream (r_traffic_split r)) \<subseteq> u_name ` set (gc_upstreams cfg) \<and>
      unat (ts_canary_percentage (r_traffic_split r)) \<le> 100 \<and>
      unat (fi_probability_percent (r_fault_injection r)) \<le> 100 \<and>
      unat ` set_option (fi_abort_status (r_fault_injection r)) \<subseteq> {100..599})"
  (is "?load \<longleftrightarrow> ?parsed \<and> ?valid")
proof -
  have "?load \<longleftrightarrow> ?parsed \<and> validate cfg = Inr ()"
    by (auto simp: load_from_path_def)
  moreover have "validate cfg = Inr () \<longleftrightarrow> ?valid" by (auto simp: validate_ok valid_route_def)
  ultimately show ?thesis by (simp only:)
qed

theorem load_from_path_iff_witness:
  "gc_routes sample_config \<noteq> [] \<and> list_all (\<lambda>u. u_targets u \<noteq> []) (gc_upstreams sample_config)"
proof -
  have "load_from_path (\<lambda>_. Inr []) (\<lambda>_. Inr sample_config) (\<lambda>_. Inl ''yaml'') ''gateway.json''
      = Inr sample_config" by code_simp
  then show ?thesis unfolding load_from_path_iff list_all_iff by (elim conjE) simp
qed

text \<open>
  Validation reports the first fault in configuration order.  With at least one route, the error is
  that of the first route that is not valid, or, when all routes are valid, names the first
  upstream without targets.
\<close>

lemma validate_first_error:
  assumes "gc_routes cfg \<noteq> []" and "validate cfg = Inl e"
  shows "(\<exists>us r vs. gc_routes cfg = us @ r # vs \<and> (\<forall>u\<in>set us. validate_route cfg u = Inr ()) \<and>
            validate_route cfg r = Inl e) \<or>
         (\<forall>r\<in>set (gc_routes cfg). validate_route cfg r = Inr ()) \<and>
         (\<exists>us u vs. gc_upstreams cfg = us @ u # vs \<and> (\<forall>x\<in>set us. u_targets x \<noteq> []) \<and>
            u_targets u = [] \<and> e = ''upstream '' @ quoted (u_name u) @ '' has no targets'')"
proof (cases "for_res (validate_route cfg) (gc_routes cfg)")
  case (Inl e')
  then have "e' = e" using assms by (simp add: validate_def ensure_def)
  with Inl show ?thesis by (simp add: for_res_Inl_iff)
next
  case (Inr u)
  then have "for_res validate_upstream (gc_upstreams cfg) = Inl e"
    using assms by (simp add: validate_def ensure_def del: for_res_Inr_iff)
  with Inr show ?thesis by (simp add: for_res_Inl_iff validate_upstream_def)
qed

end
