(* ===== verification/Resilience.thy ===== *)
theory Resilience
  imports Config
begin

text \<open>
  \<open>resilience.rs\<close>: the runtime state of the upstream targets (active and passive health, circuit
  breaker) and the retry rules.  Every operation of the registry holds its mutex, so concurrent use
  is a sequence of events; \<open>reachable\<close> is the set of registries such sequences lead to.

  An operation reads and writes the state of one key.  The functions on one target (\<open>admit\<close>,
  \<open>note_success\<close>, \<open>note_failure\<close>) are the bodies of the operations, and the lemmas about a key
  are proved for them.
\<close>

section \<open>Model\<close>

datatype circuit_state = Closed | Open instant | HalfOpen u32

record target_runtime =
  tr_active_healthy :: bool
  tr_passive_healthy :: bool
  tr_consecutive_failures :: u32
  tr_consecutive_successes :: u32
  tr_breaker_failures :: u32
  tr_circuit_state :: circuit_state

definition default_target_runtime :: target_runtime where
  "default_target_runtime =
     \<lparr>tr_active_healthy = True, tr_passive_healthy = True, tr_consecutive_failures = 0,
      tr_consecutive_successes = 0, tr_breaker_failures = 0, tr_circuit_state = Closed\<rparr>"

record runtime_registry =
  rr_passive_cfg :: passive_health_check_config
  rr_breaker_cfg :: circuit_breaker_config
  rr_targets :: "string \<Rightarrow> target_runtime option"

definition registry_new ::
    "passive_health_check_config \<Rightarrow> circuit_breaker_config \<Rightarrow> runtime_registry" where
  "registry_new passive_cfg breaker_cfg =
     \<lparr>rr_passive_cfg = passive_cfg, rr_breaker_cfg = breaker_cfg, rr_targets = Map.empty\<rparr>"

text \<open>\<open>targets.entry(key).or_default()\<close>\<close>

definition runtime_of :: "runtime_registry \<Rightarrow> string \<Rightarrow> target_runtime" where
  "runtime_of reg key = case_option default_target_runtime id (rr_targets reg key)"

definition put_runtime :: "runtime_registry \<Rightarrow> string \<Rightarrow> target_runtime \<Rightarrow> runtime_registry" where
  "put_runtime reg key st = reg\<lparr>rr_targets := (rr_targets reg)(key \<mapsto> st)\<rparr>"

definition admit :: "circuit_breaker_config \<Rightarrow> instant \<Rightarrow> target_runtime \<Rightarrow> bool \<times> target_runtime" where
  "admit cfg now st =
     (if \<not> tr_active_healthy st then (False, st)
      else case tr_circuit_state st of
        Closed \<Rightarrow> (tr_passive_healthy st, st)
      | Open opened_at \<Rightarrow>
          if from_millis (cb_open_ms cfg) \<le> duration_since now opened_at
          then (True, st\<lparr>tr_circuit_state := HalfOpen (cb_half_open_max_requests cfg)\<rparr>)
          else (False, st)
      | HalfOpen remaining_attempts \<Rightarrow>
          if remaining_attempts = 0 then (False, st)
          else (True, st\<lparr>tr_circuit_state := HalfOpen (remaining_attempts - 1)\<rparr>))"

definition is_available :: "runtime_registry \<Rightarrow> string \<Rightarrow> instant \<Rightarrow> bool \<times> runtime_registry" where
  "is_available reg key now =
     (let (ok, st) = admit (rr_breaker_cfg reg) now (runtime_of reg key)
      in (ok, put_runtime reg key st))"

definition set_active_health :: "runtime_registry \<Rightarrow> string \<Rightarrow> bool \<Rightarrow> runtime_registry" where
  "set_active_health reg key healthy =
     put_runtime reg key ((runtime_of reg key)\<lparr>tr_active_healthy := healthy\<rparr>)"

definition note_success :: "passive_health_check_config \<Rightarrow> target_runtime \<Rightarrow> target_runtime" where
  "note_success cfg st =
     (let st = st\<lparr>tr_consecutive_successes := sat_add (tr_consecutive_successes st) 1,
                  tr_consecutive_failures := 0, tr_breaker_failures := 0\<rparr>;
          st = (if ph_success_threshold cfg \<le> tr_consecutive_successes st
                then st\<lparr>tr_passive_healthy := True\<rparr> else st)
      in st\<lparr>tr_circuit_state := Closed\<rparr>)"

definition record_success :: "runtime_registry \<Rightarrow> string \<Rightarrow> runtime_registry" where
  "record_success reg key = put_runtime reg key (note_success (rr_passive_cfg reg) (runtime_of reg key))"

definition note_failure ::
    "passive_health_check_config \<Rightarrow> circuit_breaker_config \<Rightarrow> instant \<Rightarrow> target_runtime \<Rightarrow> target_runtime" where
  "note_failure pcfg bcfg now st =
     (let st = st\<lparr>tr_consecutive_failures := sat_add (tr_consecutive_failures st) 1,
                  tr_consecutive_successes := 0\<rparr>;
          st = (if ph_failure_threshold pcfg \<le> tr_consecutive_failures st
                then st\<lparr>tr_passive_healthy := False\<rparr> else st);
          st = st\<lparr>tr_breaker_failures := sat_add (tr_breaker_failures st) 1\<rparr>
      in if cb_failure_threshold bcfg \<le> tr_breaker_failures st
         then st\<lparr>tr_circuit_state := Open now\<rparr> else st)"

definition record_failure :: "runtime_registry \<Rightarrow> string \<Rightarrow> instant \<Rightarrow> runtime_registry" where
  "record_failure reg key now =
     put_runtime reg key
       (note_failure (rr_passive_cfg reg) (rr_breaker_cfg reg) now (runtime_of reg key))"

definition target_key :: "string \<Rightarrow> string \<Rightarrow> string" where
  "target_key upstream target_id = upstream @ '':'' @ target_id"

definition should_retry_method :: "http_method \<Rightarrow> bool \<Rightarrow> bool \<Rightarrow> bool" where
  "should_retry_method m idempotent_only retry_unsafe_methods =
     (if \<not> idempotent_only then True
      else m \<in> {GET, HEAD, OPTIONS, TRACE} \<or> (retry_unsafe_methods \<and> m \<in> {PUT, DELETE}))"

definition should_retry_status :: "status \<Rightarrow> bool" where
  "should_retry_status s \<longleftrightarrow> s = 429 \<or> 500 \<le> s"

section \<open>Events\<close>

datatype registry_event =
  IsAvailable string instant
| SetActiveHealth string bool
| RecordSuccess string
| RecordFailure string instant

primrec event_key :: "registry_event \<Rightarrow> string" where
  "event_key (IsAvailable key now) = key"
| "event_key (SetActiveHealth key healthy) = key"
| "event_key (RecordSuccess key) = key"
| "event_key (RecordFailure key now) = key"

primrec apply_event :: "registry_event \<Rightarrow> runtime_registry \<Rightarrow> runtime_registry" where
  "apply_event (IsAvailable key now) reg = snd (is_available reg key now)"
| "apply_event (SetActiveHealth key healthy) reg = set_active_health reg key healthy"
| "apply_event (RecordSuccess key) reg = record_success reg key"
| "apply_event (RecordFailure key now) reg = record_failure reg key now"

text \<open>The same event on the state of its own key.\<close>

primrec target_event ::
    "passive_health_check_config \<Rightarrow> circuit_breaker_config \<Rightarrow> registry_event \<Rightarrow> target_runtime \<Rightarrow> target_runtime" where
  "target_event pcfg bcfg (IsAvailable key now) st = snd (admit bcfg now st)"
| "target_event pcfg bcfg (SetActiveHealth key healthy) st = st\<lparr>tr_active_healthy := healthy\<rparr>"
| "target_event pcfg bcfg (RecordSuccess key) st = note_success pcfg st"
| "target_event pcfg bcfg (RecordFailure key now) st = note_failure pcfg bcfg now st"

text \<open>The answers of \<open>is_available\<close> for one key in a sequence of events.\<close>

fun answers :: "string \<Rightarrow> registry_event list \<Rightarrow> runtime_registry \<Rightarrow> bool list" where
  "answers key [] reg = []"
| "answers key (e # es) reg =
     (case e of
        IsAvailable k now \<Rightarrow> (if k = key then [fst (is_available reg k now)] else [])
      | _ \<Rightarrow> [])
     @ answers key es (apply_event e reg)"

inductive reachable ::
    "passive_health_check_config \<Rightarrow> circuit_breaker_config \<Rightarrow> runtime_registry \<Rightarrow> bool"
  for pcfg bcfg where
  new: "reachable pcfg bcfg (registry_new pcfg bcfg)"
| event: "reachable pcfg bcfg reg \<Longrightarrow> reachable pcfg bcfg (apply_event e reg)"

section \<open>One key at a time\<close>

lemma runtime_of_put [simp]:
  "runtime_of (put_runtime reg key st) k = (if k = key then st else runtime_of reg k)"
  by (simp add: runtime_of_def put_runtime_def)

lemma put_runtime_cfg [simp]:
  "rr_passive_cfg (put_runtime reg key st) = rr_passive_cfg reg"
  "rr_breaker_cfg (put_runtime reg key st) = rr_breaker_cfg reg"
  by (simp_all add: put_runtime_def)

lemma fst_is_available: "fst (is_available reg key now) = fst (admit (rr_breaker_cfg reg) now (runtime_of reg key))"
  by (simp add: is_available_def split_beta)

lemma apply_event_cfg [simp]:
  "rr_passive_cfg (apply_event e reg) = rr_passive_cfg reg"
  "rr_breaker_cfg (apply_event e reg) = rr_breaker_cfg reg"
  by (cases e; simp add: is_available_def set_active_health_def record_success_def record_failure_def
      split_beta)+

lemma runtime_of_apply_event:
  "runtime_of (apply_event e reg) k =
   (if k = event_key e then target_event (rr_passive_cfg reg) (rr_breaker_cfg reg) e (runtime_of reg k)
    else runtime_of reg k)"
  by (cases e) (simp_all add: is_available_def set_active_health_def record_success_def
      record_failure_def split_beta)

lemma reachable_cfg:
  "reachable pcfg bcfg reg \<Longrightarrow> rr_passive_cfg reg = pcfg \<and> rr_breaker_cfg reg = bcfg"
  by (induction rule: reachable.induct) (simp_all add: registry_new_def)

text \<open>
  The contract of a property of one target: it holds of the fresh state and every event keeps it.
  Then it holds of every key of every reachable registry.
\<close>

locale target_invariant =
  fixes pcfg :: passive_health_check_config and bcfg :: circuit_breaker_config
    and inv :: "target_runtime \<Rightarrow> bool"
  assumes fresh: "inv default_target_runtime"
    and admit: "inv st \<Longrightarrow> inv (snd (admit bcfg now st))"
    and active: "inv st \<Longrightarrow> inv (st\<lparr>tr_active_healthy := healthy\<rparr>)"
    and success: "inv st \<Longrightarrow> inv (note_success pcfg st)"
    and failure: "inv st \<Longrightarrow> inv (note_failure pcfg bcfg now st)"
begin

lemma event_inv: "inv st \<Longrightarrow> inv (target_event pcfg bcfg e st)"
  by (cases e) (simp_all add: admit active success failure)

lemma reachable_inv: "reachable pcfg bcfg reg \<Longrightarrow> inv (runtime_of reg key)"
proof (induction rule: reachable.induct)
  case new
  then show ?case by (simp add: runtime_of_def registry_new_def fresh)
next
  case (event reg e)
  then show ?case using reachable_cfg [OF event.hyps] event_inv [OF event.IH, of e]
    by (cases "key = event_key e") (simp_all add: runtime_of_apply_event)
qed

end

text \<open>
  The invariant of the breaker.  The two failure counters agree; one of the two runs (failures,
  successes) is empty; a passively healthy target has fewer failures in a row than the passive
  threshold; a closed circuit has fewer than the breaker threshold; an open or half-open one has at
  least that many, and a half-open one no more attempts left than configured.  A threshold of zero
  counts as one: only a failure is compared with it.
\<close>

definition breaker_inv ::
    "passive_health_check_config \<Rightarrow> circuit_breaker_config \<Rightarrow> target_runtime \<Rightarrow> bool" where
  "breaker_inv pcfg bcfg st \<longleftrightarrow>
     tr_breaker_failures st = tr_consecutive_failures st \<and>
     (tr_consecutive_failures st = 0 \<or> tr_consecutive_successes st = 0) \<and>
     (tr_passive_healthy st \<longrightarrow> tr_consecutive_failures st < max 1 (ph_failure_threshold pcfg)) \<and>
     (case tr_circuit_state st of
        Closed \<Rightarrow> tr_breaker_failures st < max 1 (cb_failure_threshold bcfg)
      | Open opened_at \<Rightarrow> max 1 (cb_failure_threshold bcfg) \<le> tr_breaker_failures st
      | HalfOpen remaining \<Rightarrow> remaining \<le> cb_half_open_max_requests bcfg \<and>
          max 1 (cb_failure_threshold bcfg) \<le> tr_breaker_failures st)"

lemma sat_add_one_pos: "0 < sat_add a (1 :: u32)"
  by (simp add: word_less_nat_alt unat_sat_add)

interpretation breaker: target_invariant pcfg bcfg "breaker_inv pcfg bcfg" for pcfg bcfg
proof unfold_locales
  show "breaker_inv pcfg bcfg default_target_runtime"
    by (simp add: breaker_inv_def default_target_runtime_def less_max_iff_disj)
next
  fix st now
  assume inv: "breaker_inv pcfg bcfg st"
  show "breaker_inv pcfg bcfg (snd (admit bcfg now st))"
  proof (cases "tr_circuit_state st")
    case (HalfOpen remaining)
    have "remaining - 1 \<le> remaining" if "remaining \<noteq> 0" using that
      by (simp add: word_le_nat_alt unat_minus_one)
    with HalfOpen inv show ?thesis by (auto simp: breaker_inv_def admit_def)
  qed (use inv in \<open>auto simp: breaker_inv_def admit_def\<close>)
next
  fix st healthy
  assume "breaker_inv pcfg bcfg st"
  then show "breaker_inv pcfg bcfg (st\<lparr>tr_active_healthy := healthy\<rparr>)"
    by (auto simp: breaker_inv_def split: circuit_state.splits)
next
  fix st
  assume "breaker_inv pcfg bcfg st"
  then show "breaker_inv pcfg bcfg (note_success pcfg st)"
    by (simp add: breaker_inv_def note_success_def Let_def less_max_iff_disj)
next
  fix st now
  assume inv: "breaker_inv pcfg bcfg st"
  have "n \<le> sat_add (tr_consecutive_failures st) 1" if "n \<le> tr_consecutive_failures st" for n
    using that sat_add_ge order_trans by blast
  moreover have "1 \<le> sat_add (tr_consecutive_failures st) 1"
    using sat_add_one_pos [of "tr_consecutive_failures st"] by (simp add: word_le_nat_alt word_less_nat_alt)
  ultimately show "breaker_inv pcfg bcfg (note_failure pcfg bcfg now st)" using inv
    by (auto simp: breaker_inv_def note_failure_def Let_def not_le less_max_iff_disj split: circuit_state.splits)
qed

section \<open>Availability over a sequence of events\<close>

text \<open>
  A property of one target that a class of events keeps, and under which the target is refused:
  then no event of the class gets it admitted.
\<close>

locale refusal =
  fixes pcfg :: passive_health_check_config and bcfg :: circuit_breaker_config
    and refused :: "target_runtime \<Rightarrow> bool" and allowed :: "registry_event \<Rightarrow> bool"
  assumes refuses: "refused st \<Longrightarrow> allowed (IsAvailable key now) \<Longrightarrow> \<not> fst (admit bcfg now st)"
    and kept: "refused st \<Longrightarrow> allowed e \<Longrightarrow> refused (target_event pcfg bcfg e st)"
begin

lemma answers_False:
  "refused (runtime_of reg key) \<Longrightarrow> rr_passive_cfg reg = pcfg \<Longrightarrow> rr_breaker_cfg reg = bcfg \<Longrightarrow>
   \<forall>e\<in>set es. event_key e = key \<longrightarrow> allowed e \<Longrightarrow> True \<notin> set (answers key es reg)"
proof (induction es arbitrary: reg)
  case (Cons e es)
  have "refused (runtime_of (apply_event e reg) key)"
    using Cons.prems kept by (auto simp: runtime_of_apply_event)
  then have "True \<notin> set (answers key es (apply_event e reg))" using Cons by simp
  moreover have "\<not> fst (is_available reg key now)" if "e = IsAvailable key now" for now
    using Cons.prems refuses [of "runtime_of reg key" key now] that by (simp add: fst_is_available)
  ultimately show ?case by (auto split: registry_event.splits if_splits)
qed simp

end

text \<open>An open circuit: before it has been open for \<open>open_ms\<close>, only a success closes it.\<close>

definition open_since :: "instant \<Rightarrow> target_runtime \<Rightarrow> bool" where
  "open_since t st \<longleftrightarrow> (\<exists>t'\<ge>t. tr_circuit_state st = Open t')"

definition before_reopening :: "circuit_breaker_config \<Rightarrow> instant \<Rightarrow> registry_event \<Rightarrow> bool" where
  "before_reopening bcfg t e \<longleftrightarrow>
     (case e of
        IsAvailable key now \<Rightarrow> t \<le> now \<and> now < t + from_millis (cb_open_ms bcfg)
      | SetActiveHealth key healthy \<Rightarrow> True
      | RecordSuccess key \<Rightarrow> False
      | RecordFailure key now \<Rightarrow> t \<le> now)"

lemma admit_open_early:
  "open_since t st \<Longrightarrow> t \<le> now \<Longrightarrow> now < t + from_millis (cb_open_ms bcfg) \<Longrightarrow>
   admit bcfg now st = (False, st)"
  by (auto simp: open_since_def admit_def duration_since_def)

interpretation open_circuit: refusal pcfg bcfg "open_since t" "before_reopening bcfg t" for pcfg bcfg t
proof unfold_locales
  show "\<not> fst (admit bcfg now st)" if "open_since t st" "before_reopening bcfg t (IsAvailable key now)"
    for st key now
    using that by (simp add: before_reopening_def admit_open_early)
  show "open_since t (target_event pcfg bcfg e st)" if "open_since t st" "before_reopening bcfg t e" for st e
    using that
    by (cases e) (auto simp: before_reopening_def admit_open_early, auto simp: open_since_def note_failure_def Let_def)
qed

text \<open>A closed circuit of a passively unhealthy target, and a half-open circuit without attempts left.\<close>

definition ejected :: "target_runtime \<Rightarrow> bool" where
  "ejected st \<longleftrightarrow>
     (tr_circuit_state st = Closed \<and> \<not> tr_passive_healthy st) \<or> tr_circuit_state st = HalfOpen 0"

definition no_outcome :: "registry_event \<Rightarrow> bool" where
  "no_outcome e \<longleftrightarrow>
     (case e of IsAvailable key now \<Rightarrow> True | SetActiveHealth key healthy \<Rightarrow> True
      | RecordSuccess key \<Rightarrow> False | RecordFailure key now \<Rightarrow> False)"

lemma admit_ejected: "ejected st \<Longrightarrow> admit bcfg now st = (False, st)"
  by (auto simp: ejected_def admit_def)

interpretation ejection: refusal pcfg bcfg ejected no_outcome for pcfg bcfg
proof unfold_locales
  show "\<not> fst (admit bcfg now st)" if "ejected st" for st now using that by (simp add: admit_ejected)
  show "ejected (target_event pcfg bcfg e st)" if "ejected st" "no_outcome e" for st e
    using that by (cases e) (auto simp: admit_ejected no_outcome_def, simp_all add: ejected_def)
qed

section \<open>Runs of failures and of probes\<close>

lemma note_failure_fields:
  "tr_active_healthy (note_failure pcfg bcfg now st) = tr_active_healthy st"
  "tr_consecutive_failures (note_failure pcfg bcfg now st) = sat_add (tr_consecutive_failures st) 1"
  "tr_breaker_failures (note_failure pcfg bcfg now st) = sat_add (tr_breaker_failures st) 1"
  "tr_passive_healthy (note_failure pcfg bcfg now st) \<longleftrightarrow>
     tr_passive_healthy st \<and> \<not> ph_failure_threshold pcfg \<le> sat_add (tr_consecutive_failures st) 1"
  "tr_circuit_state (note_failure pcfg bcfg now st) =
     (if cb_failure_threshold bcfg \<le> sat_add (tr_breaker_failures st) 1 then Open now
      else tr_circuit_state st)"
  by (auto simp: note_failure_def Let_def)

text \<open>The state after failures at the given instants, fewer than the breaker threshold.\<close>

lemma failures_below_breaker:
  fixes pcfg :: passive_health_check_config and bcfg :: circuit_breaker_config
  defines "run nows \<equiv> fold (note_failure pcfg bcfg) nows default_target_runtime"
  assumes "length nows < unat (cb_failure_threshold bcfg)"
  shows "unat (tr_consecutive_failures (run nows)) = length nows \<and>
    unat (tr_breaker_failures (run nows)) = length nows \<and> tr_circuit_state (run nows) = Closed \<and>
    (tr_passive_healthy (run nows) \<longrightarrow> nows = [] \<or> length nows < unat (ph_failure_threshold pcfg))"
  using assms(2)
proof (induction nows rule: rev_induct)
  case Nil
  then show ?case by (simp add: run_def default_target_runtime_def)
next
  case (snoc now nows)
  have "run (nows @ [now]) = note_failure pcfg bcfg now (run nows)" by (simp add: run_def)
  moreover have "length nows + 1 < 2 ^ 32"
    using snoc.prems unat_lt_max_word [of "cb_failure_threshold bcfg"] by simp
  ultimately show ?case
    using snoc by (simp add: note_failure_fields word_le_nat_alt unat_sat_add)
qed

text \<open>A run of events of one kind, on the state of the key.\<close>

lemma runtime_of_failures:
  "runtime_of (fold (\<lambda>now reg. record_failure reg key now) nows reg) key =
   fold (note_failure (rr_passive_cfg reg) (rr_breaker_cfg reg)) nows (runtime_of reg key) \<and>
   rr_passive_cfg (fold (\<lambda>now reg. record_failure reg key now) nows reg) = rr_passive_cfg reg \<and>
   rr_breaker_cfg (fold (\<lambda>now reg. record_failure reg key now) nows reg) = rr_breaker_cfg reg"
  by (induction nows arbitrary: reg) (simp_all add: record_failure_def)

lemma runtime_of_new [simp]: "runtime_of (registry_new pcfg bcfg) key = default_target_runtime"
  by (simp add: runtime_of_def registry_new_def)

lemma registry_new_cfg [simp]:
  "rr_passive_cfg (registry_new pcfg bcfg) = pcfg" "rr_breaker_cfg (registry_new pcfg bcfg) = bcfg"
  by (simp_all add: registry_new_def)

lemma probes_half_open:
  "tr_active_healthy (runtime_of reg key) \<Longrightarrow> tr_circuit_state (runtime_of reg key) = HalfOpen n \<Longrightarrow>
   answers key (map (IsAvailable key) nows) reg =
     replicate (min (length nows) (unat n)) True @ replicate (length nows - unat n) False"
proof (induction nows arbitrary: reg n)
  case (Cons now nows)
  let ?reg = "apply_event (IsAvailable key now) reg"
  show ?case
  proof (cases "n = 0")
    case True
    then have "runtime_of ?reg key = runtime_of reg key"
      using Cons.prems by (simp add: is_available_def admit_def)
    then have "answers key (map (IsAvailable key) nows) ?reg = replicate (length nows) False"
      using Cons.IH [of ?reg n] Cons.prems True by simp
    moreover have "fst (is_available reg key now) = False"
      using Cons.prems True by (simp add: fst_is_available admit_def)
    ultimately show ?thesis using True by simp
  next
    case False
    then have n: "unat n = Suc (unat (n - 1))" by (simp add: unat_minus_one unat_gt_0 [symmetric])
    have "runtime_of ?reg key = (runtime_of reg key)\<lparr>tr_circuit_state := HalfOpen (n - 1)\<rparr>"
      using Cons.prems False by (simp add: is_available_def admit_def)
    then have "answers key (map (IsAvailable key) nows) ?reg =
        replicate (min (length nows) (unat (n - 1))) True @ replicate (length nows - unat (n - 1)) False"
      using Cons.IH [of ?reg "n - 1"] Cons.prems by simp
    moreover have "fst (is_available reg key now) = True"
      using Cons.prems False by (simp add: fst_is_available admit_def)
    ultimately show ?thesis by (simp add: n)
  qed
qed simp

section \<open>Properties\<close>

text \<open>
  C9. The counters and the circuit stay consistent.  In every registry that any sequence of
  operations leads to, for every key: the two failure counters agree; failures and successes in a
  row are not both positive; a passively healthy target has failed less often in a row than the
  passive threshold; a circuit is closed exactly if it has seen fewer failures than the breaker
  threshold, and open or half-open from that many on; a half-open one has no more attempts left than
  configured.  A threshold of zero, which the validation accepts, counts as one here.
\<close>

theorem registry_consistent:
  assumes "reachable pcfg bcfg reg"
  shows "let st = runtime_of reg key in
    tr_breaker_failures st = tr_consecutive_failures st \<and>
    (tr_consecutive_failures st = 0 \<or> tr_consecutive_successes st = 0) \<and>
    (tr_passive_healthy st \<longrightarrow> tr_consecutive_failures st < max 1 (ph_failure_threshold pcfg)) \<and>
    (tr_circuit_state st = Closed \<longleftrightarrow> tr_breaker_failures st < max 1 (cb_failure_threshold bcfg)) \<and>
    (\<forall>n. tr_circuit_state st = HalfOpen n \<longrightarrow> n \<le> cb_half_open_max_requests bcfg)"
  using breaker.reachable_inv [OF assms, of key]
  by (auto simp: breaker_inv_def Let_def not_le [symmetric] split: circuit_state.splits)

definition sample_registry :: runtime_registry where
  "sample_registry =
     fold (\<lambda>now reg. record_failure reg ''svc:a'' now) [1, 2, 3]
       (registry_new default_passive_health_check default_circuit_breaker)"

lemma sample_registry_reachable:
  "reachable default_passive_health_check default_circuit_breaker sample_registry"
proof -
  have "sample_registry = apply_event (RecordFailure ''svc:a'' 3) (apply_event (RecordFailure ''svc:a'' 2)
      (apply_event (RecordFailure ''svc:a'' 1)
        (registry_new default_passive_health_check default_circuit_breaker)))"
    by (simp add: sample_registry_def)
  show ?thesis unfolding \<open>sample_registry = _\<close> by (intro reachable.intros)
qed

theorem registry_consistent_witness:
  "tr_breaker_failures (runtime_of sample_registry ''svc:a'')
     = tr_consecutive_failures (runtime_of sample_registry ''svc:a'') \<and>
   (tr_circuit_state (runtime_of sample_registry ''svc:a'') = Closed \<longleftrightarrow>
     tr_breaker_failures (runtime_of sample_registry ''svc:a'') < 5)"
  using registry_consistent [OF sample_registry_reachable, of "''svc:a''"]
  by (simp add: Let_def default_passive_health_check_def default_circuit_breaker_def)

text \<open>
  C20. An open circuit refuses.  When a failure reaches the breaker threshold at instant \<open>t\<close>, then
  whatever happens afterwards, on this and on every other key, except a recorded success of this
  key, every availability question about the key before \<open>t + open_ms\<close> is answered with no.
\<close>

theorem open_circuit_refuses:
  assumes "unat (cb_failure_threshold (rr_breaker_cfg reg))
       \<le> unat (tr_breaker_failures (runtime_of reg key)) + 1"
    and "\<forall>e\<in>set es. event_key e = key \<longrightarrow> before_reopening (rr_breaker_cfg reg) t e"
  shows "True \<notin> set (answers key es (record_failure reg key t))"
proof (rule open_circuit.answers_False [OF _ refl refl, of t])
  have "cb_failure_threshold (rr_breaker_cfg reg) \<le> sat_add (tr_breaker_failures (runtime_of reg key)) 1"
    using assms(1) unat_lt_max_word [of "cb_failure_threshold (rr_breaker_cfg reg)"]
    by (simp add: word_le_nat_alt unat_sat_add)
  then show "open_since t (runtime_of (record_failure reg key t) key)"
    by (simp add: record_failure_def open_since_def note_failure_fields)
qed (use assms(2) in \<open>simp add: record_failure_def\<close>)

text \<open>The registry of the module's test, with every threshold one.\<close>

definition test_registry :: runtime_registry where
  "test_registry = registry_new \<lparr>ph_failure_threshold = 1, ph_success_threshold = 1\<rparr>
     \<lparr>cb_failure_threshold = 1, cb_open_ms = 1, cb_half_open_max_requests = 1\<rparr>"

lemma test_registry_failed:
  "runtime_of (record_failure test_registry key t) key =
     \<lparr>tr_active_healthy = True, tr_passive_healthy = False, tr_consecutive_failures = 1,
      tr_consecutive_successes = 0, tr_breaker_failures = 1, tr_circuit_state = Open t\<rparr>"
  "rr_breaker_cfg (record_failure test_registry key t) =
     \<lparr>cb_failure_threshold = 1, cb_open_ms = 1, cb_half_open_max_requests = 1\<rparr>"
  "rr_passive_cfg (record_failure test_registry key t) =
     \<lparr>ph_failure_threshold = 1, ph_success_threshold = 1\<rparr>"
  by (simp_all add: test_registry_def record_failure_def note_failure_def Let_def sat_add_def
      default_target_runtime_def)

theorem open_circuit_refuses_witness:
  "True \<notin> set (answers ''svc:a''
     [IsAvailable ''svc:a'' 5, SetActiveHealth ''svc:a'' True, RecordSuccess ''svc:b'',
      IsAvailable ''svc:a'' 900000]
     (record_failure test_registry ''svc:a'' 5))"
  by (rule open_circuit_refuses)
    (simp_all add: test_registry_def before_reopening_def from_millis_def default_target_runtime_def)

text \<open>
  C37. A recovering circuit admits one probe more than \<open>half_open_max_requests\<close>.  On an actively
  healthy target whose circuit has been open for \<open>open_ms\<close>, of \<open>n\<close> availability questions with
  no recorded outcome in between, exactly the first \<open>half_open_max_requests + 1\<close> are answered
  with yes: the question that makes the circuit half-open is admitted without being counted.
\<close>

theorem half_open_probe_budget:
  assumes "tr_active_healthy (runtime_of reg key)" and "tr_circuit_state (runtime_of reg key) = Open t"
    and "\<forall>now\<in>set nows. t + from_millis (cb_open_ms (rr_breaker_cfg reg)) \<le> now"
  shows "answers key (map (IsAvailable key) nows) reg =
     replicate (min (length nows) (Suc (unat (cb_half_open_max_requests (rr_breaker_cfg reg))))) True @
     replicate (length nows - Suc (unat (cb_half_open_max_requests (rr_breaker_cfg reg)))) False"
proof (cases nows)
  case (Cons now rest)
  then have "from_millis (cb_open_ms (rr_breaker_cfg reg)) \<le> duration_since now t"
    using assms(3) by (auto simp: duration_since_def)
  then have "admit (rr_breaker_cfg reg) now (runtime_of reg key) = (True, (runtime_of reg key)
      \<lparr>tr_circuit_state := HalfOpen (cb_half_open_max_requests (rr_breaker_cfg reg))\<rparr>)"
    using assms by (simp add: admit_def)
  then show ?thesis
    using assms(1) Cons
      probes_half_open [of "apply_event (IsAvailable key now) reg" key
        "cb_half_open_max_requests (rr_breaker_cfg reg)" rest]
    by (simp add: is_available_def)
qed simp

theorem half_open_probe_budget_witness:
  "answers ''svc:a'' (map (IsAvailable ''svc:a'') [2000000, 2000001, 2000002])
     (record_failure test_registry ''svc:a'' 5) = [True, True, False]"
  using half_open_probe_budget [of "record_failure test_registry ''svc:a'' 5" "''svc:a''" 5
      "[2000000, 2000001, 2000002]"]
  by (simp add: test_registry_failed from_millis_def numeral_2_eq_2)

text \<open>
  C35. Passive ejection has no way back below the breaker threshold.  When a target of a fresh
  registry has failed at least the passive threshold times in a row but fewer times than the breaker
  threshold (3 and 5 by default), then no availability question about it is ever answered with yes
  again, at any later time and whatever the active health checks report, as long as no outcome of a
  request to it is recorded; and a request reaches only targets that are available.
\<close>

theorem passive_ejection_permanent:
  assumes "nows \<noteq> []" and "unat (ph_failure_threshold pcfg) \<le> length nows"
    and "length nows < unat (cb_failure_threshold bcfg)"
    and "\<forall>e\<in>set es. event_key e = key \<longrightarrow> no_outcome e"
  shows "True \<notin> set (answers key es
     (fold (\<lambda>now reg. record_failure reg key now) nows (registry_new pcfg bcfg)))"
proof (rule ejection.answers_False [OF _ refl refl])
  show "ejected (runtime_of (fold (\<lambda>now reg. record_failure reg key now) nows (registry_new pcfg bcfg)) key)"
    using failures_below_breaker [OF assms(3), of pcfg] assms(1,2)
    by (simp add: runtime_of_failures ejected_def linorder_not_less)
qed (fact assms(4))

theorem passive_ejection_permanent_witness:
  "True \<notin> set (answers ''svc:a''
     [IsAvailable ''svc:a'' 10, SetActiveHealth ''svc:a'' True, IsAvailable ''svc:a'' 9000000000000]
     (fold (\<lambda>now reg. record_failure reg ''svc:a'' now) [1, 2, 3]
       (registry_new default_passive_health_check default_circuit_breaker)))"
  by (rule passive_ejection_permanent)
    (simp_all add: default_passive_health_check_def default_circuit_breaker_def no_outcome_def)

text \<open>
  What a success restores.  After a recorded success of an actively healthy target that was
  passively unhealthy, the target is available if the successes in a row reach the success
  threshold; otherwise (any threshold above one, after a failure) the success has closed the circuit
  and left the target passively unhealthy, and it is never available again without another outcome.
\<close>

lemma success_recovery:
  assumes "tr_active_healthy (runtime_of reg key)" and "\<not> tr_passive_healthy (runtime_of reg key)"
    and "unat (tr_consecutive_successes (runtime_of reg key)) < 2 ^ 32 - 1"
  shows "if unat (ph_success_threshold (rr_passive_cfg reg))
            \<le> unat (tr_consecutive_successes (runtime_of reg key)) + 1
    then \<forall>now. fst (is_available (record_success reg key) key now)
    else \<forall>es. (\<forall>e\<in>set es. event_key e = key \<longrightarrow> no_outcome e) \<longrightarrow>
           True \<notin> set (answers key es (record_success reg key))"
proof -
  let ?st = "runtime_of (record_success reg key) key"
  have st: "?st = note_success (rr_passive_cfg reg) (runtime_of reg key)"
    by (simp add: record_success_def)
  have sum: "unat (sat_add (tr_consecutive_successes (runtime_of reg key)) 1)
      = unat (tr_consecutive_successes (runtime_of reg key)) + 1"
    using assms(3) by (simp add: unat_sat_add)
  show ?thesis
  proof (cases "unat (ph_success_threshold (rr_passive_cfg reg))
      \<le> unat (tr_consecutive_successes (runtime_of reg key)) + 1")
    case True
    then have "fst (admit bcfg now ?st)" for bcfg now
      using assms(1) sum by (simp add: st note_success_def Let_def admit_def word_le_nat_alt)
    with True show ?thesis by (simp add: fst_is_available)
  next
    case False
    then have "ejected ?st"
      using assms(2) sum by (simp add: st note_success_def Let_def ejected_def word_le_nat_alt)
    from ejection.answers_False [OF this refl refl] False show ?thesis by simp
  qed
qed

lemma success_recovery_example:
  "fst (is_available (record_success (record_failure test_registry ''svc:a'' 5) ''svc:a'') ''svc:a'' 7)"
  using success_recovery [of "record_failure test_registry ''svc:a'' 5" "''svc:a''"]
  by (simp add: test_registry_failed)

end
