(* ===== verification/Breaker_Spec.thy ===== *)
theory Breaker_Spec
  imports Resilience
begin

text \<open>
  An abstract specification of the availability of one target, and the refinement: the registry of
  \<open>resilience.rs\<close>, a shared map with saturating \<open>u32\<close> counters, answers for each of its keys like an
  automaton of that key alone, with unbounded counters and one counter of failures instead of two.
\<close>

section \<open>Forward simulation\<close>

text \<open>
  A system answers an event (or stays silent) and moves to its next state.  If every step of the
  concrete system is matched by the abstract one, with the same answer, so is every run.
\<close>

fun run_answers :: "('e \<Rightarrow> 's \<Rightarrow> 'o option \<times> 's) \<Rightarrow> 'e list \<Rightarrow> 's \<Rightarrow> 'o list" where
  "run_answers step [] s = []"
| "run_answers step (e # es) s =
     (let (answer, s') = step e s
      in (case answer of None \<Rightarrow> [] | Some a \<Rightarrow> [a]) @ run_answers step es s')"

locale forward_simulation =
  fixes concrete :: "'e \<Rightarrow> 'c \<Rightarrow> 'o option \<times> 'c" and abstract :: "'e \<Rightarrow> 'a \<Rightarrow> 'o option \<times> 'a"
    and refines :: "'c \<Rightarrow> 'a \<Rightarrow> bool"
  assumes answer: "refines c a \<Longrightarrow> fst (concrete e c) = fst (abstract e a)"
    and step: "refines c a \<Longrightarrow> refines (snd (concrete e c)) (snd (abstract e a))"
begin

lemma run_answers_eq: "refines c a \<Longrightarrow> run_answers concrete es c = run_answers abstract es a"
proof (induction es arbitrary: c a)
  case (Cons e es)
  then show ?case using answer [OF Cons.prems, of e] step [OF Cons.prems, of e]
    by (simp add: split_beta)
qed simp

end

section \<open>The specification of one target\<close>

datatype circuit_spec = SClosed | SOpen instant | SHalfOpen nat

record target_spec =
  ts_active :: bool
  ts_ejected :: bool
  ts_failures :: nat
  ts_successes :: nat
  ts_circuit :: circuit_spec

definition fresh_target :: target_spec where
  "fresh_target = \<lparr>ts_active = True, ts_ejected = False, ts_failures = 0, ts_successes = 0,
     ts_circuit = SClosed\<rparr>"

text \<open>
  A question is answered from the circuit; a failure extends the run of failures, ejects the target
  and opens the circuit at the two thresholds; a success ends the run, closes the circuit, and ends
  the ejection at its threshold.
\<close>

fun spec_ask :: "circuit_breaker_config \<Rightarrow> instant \<Rightarrow> target_spec \<Rightarrow> bool \<times> target_spec" where
  "spec_ask cfg now a =
     (if \<not> ts_active a then (False, a)
      else case ts_circuit a of
        SClosed \<Rightarrow> (\<not> ts_ejected a, a)
      | SOpen t \<Rightarrow>
          if t + from_millis (cb_open_ms cfg) \<le> now \<or> from_millis (cb_open_ms cfg) = 0
          then (True, a\<lparr>ts_circuit := SHalfOpen (unat (cb_half_open_max_requests cfg))\<rparr>)
          else (False, a)
      | SHalfOpen 0 \<Rightarrow> (False, a)
      | SHalfOpen (Suc n) \<Rightarrow> (True, a\<lparr>ts_circuit := SHalfOpen n\<rparr>))"

definition spec_fail ::
    "passive_health_check_config \<Rightarrow> circuit_breaker_config \<Rightarrow> instant \<Rightarrow> target_spec \<Rightarrow> target_spec" where
  "spec_fail pcfg bcfg now a =
     (let n = ts_failures a + 1
      in a\<lparr>ts_failures := n, ts_successes := 0,
           ts_ejected := ts_ejected a \<or> unat (ph_failure_threshold pcfg) \<le> n,
           ts_circuit := (if unat (cb_failure_threshold bcfg) \<le> n then SOpen now else ts_circuit a)\<rparr>)"

definition spec_succeed :: "passive_health_check_config \<Rightarrow> target_spec \<Rightarrow> target_spec" where
  "spec_succeed pcfg a =
     (let n = ts_successes a + 1
      in a\<lparr>ts_failures := 0, ts_successes := n, ts_circuit := SClosed,
           ts_ejected := ts_ejected a \<and> n < unat (ph_success_threshold pcfg)\<rparr>)"

primrec spec_event ::
    "passive_health_check_config \<Rightarrow> circuit_breaker_config \<Rightarrow> registry_event \<Rightarrow> target_spec
     \<Rightarrow> bool option \<times> target_spec" where
  "spec_event pcfg bcfg (IsAvailable key now) a = apfst Some (spec_ask bcfg now a)"
| "spec_event pcfg bcfg (SetActiveHealth key healthy) a = (None, a\<lparr>ts_active := healthy\<rparr>)"
| "spec_event pcfg bcfg (RecordSuccess key) a = (None, spec_succeed pcfg a)"
| "spec_event pcfg bcfg (RecordFailure key now) a = (None, spec_fail pcfg bcfg now a)"

section \<open>The refinement\<close>

text \<open>A counter of the code is the unbounded one, cut off at the largest \<open>u32\<close>.\<close>

definition counts :: "u32 \<Rightarrow> nat \<Rightarrow> bool" where
  "counts c n \<longleftrightarrow> unat c = min n (2 ^ 32 - 1)"

fun circuit_refines :: "circuit_state \<Rightarrow> circuit_spec \<Rightarrow> bool" where
  "circuit_refines Closed SClosed \<longleftrightarrow> True"
| "circuit_refines (Open t) (SOpen t') \<longleftrightarrow> t = t'"
| "circuit_refines (HalfOpen n) (SHalfOpen n') \<longleftrightarrow> unat n = n'"
| "circuit_refines _ _ \<longleftrightarrow> False"

definition target_refines :: "target_runtime \<Rightarrow> target_spec \<Rightarrow> bool" where
  "target_refines st a \<longleftrightarrow>
     tr_active_healthy st = ts_active a \<and> tr_passive_healthy st = (\<not> ts_ejected a) \<and>
     counts (tr_consecutive_failures st) (ts_failures a) \<and> counts (tr_breaker_failures st) (ts_failures a) \<and>
     counts (tr_consecutive_successes st) (ts_successes a) \<and>
     circuit_refines (tr_circuit_state st) (ts_circuit a)"

lemma counts_zero [simp]: "counts 0 0"
  by (simp add: counts_def)

lemma counts_sat_add [simp]: "counts c n \<Longrightarrow> counts (sat_add c 1) (Suc n)"
  by (simp add: counts_def unat_sat_add)

lemma counts_threshold: "counts c n \<Longrightarrow> threshold \<le> c \<longleftrightarrow> unat threshold \<le> n"
  using unat_lt_max_word [of threshold] by (simp add: counts_def word_le_nat_alt)

lemma fresh_refines: "target_refines default_target_runtime fresh_target"
  by (simp add: target_refines_def default_target_runtime_def fresh_target_def)

lemma admit_refines:
  assumes "target_refines st a"
  shows "fst (admit cfg now st) = fst (spec_ask cfg now a) \<and>
    target_refines (snd (admit cfg now st)) (snd (spec_ask cfg now a))"
proof (cases "tr_circuit_state st")
  case Closed
  with assms show ?thesis by (cases "ts_circuit a") (simp_all add: target_refines_def admit_def)
next
  case (Open t)
  have "from_millis (cb_open_ms cfg) \<le> now - t \<longleftrightarrow>
      t + from_millis (cb_open_ms cfg) \<le> now \<or> from_millis (cb_open_ms cfg) = 0" by linarith
  with Open assms show ?thesis
    by (cases "ts_circuit a") (simp_all add: target_refines_def admit_def duration_since_def)
next
  case (HalfOpen n)
  show ?thesis
  proof (cases "n = 0")
    case True
    with HalfOpen assms show ?thesis
      by (cases "ts_circuit a") (auto simp: target_refines_def admit_def)
  next
    case False
    then have "unat n = Suc (unat (n - 1))" by (simp add: unat_minus_one unat_gt_0 [symmetric])
    with False HalfOpen assms show ?thesis
      by (cases "ts_circuit a") (auto simp: target_refines_def admit_def)
  qed
qed

lemma note_failure_refines:
  assumes "target_refines st a"
  shows "target_refines (note_failure pcfg bcfg now st) (spec_fail pcfg bcfg now a)"
proof -
  have "threshold \<le> sat_add (tr_consecutive_failures st) 1 \<longleftrightarrow> unat threshold \<le> Suc (ts_failures a)"
    and "threshold \<le> sat_add (tr_breaker_failures st) 1 \<longleftrightarrow> unat threshold \<le> Suc (ts_failures a)" for threshold
    using assms by (auto simp: target_refines_def intro!: counts_threshold)
  with assms show ?thesis
    by (simp add: target_refines_def note_failure_def spec_fail_def Let_def)
qed

lemma note_success_refines:
  assumes "target_refines st a"
  shows "target_refines (note_success pcfg st) (spec_succeed pcfg a)"
proof -
  have "threshold \<le> sat_add (tr_consecutive_successes st) 1 \<longleftrightarrow> unat threshold \<le> Suc (ts_successes a)" for threshold
    using assms by (auto simp: target_refines_def intro!: counts_threshold)
  with assms show ?thesis
    by (auto simp: target_refines_def note_success_def spec_succeed_def Let_def)
qed

text \<open>The registry, asked about one key: the events of the other keys are silent and change nothing.\<close>

definition registry_step :: "string \<Rightarrow> registry_event \<Rightarrow> runtime_registry \<Rightarrow> bool option \<times> runtime_registry" where
  "registry_step key e reg =
     ((case e of IsAvailable k now \<Rightarrow> if k = key then Some (fst (is_available reg k now)) else None
       | _ \<Rightarrow> None),
      apply_event e reg)"

definition target_step ::
    "passive_health_check_config \<Rightarrow> circuit_breaker_config \<Rightarrow> string \<Rightarrow> registry_event \<Rightarrow> target_spec
     \<Rightarrow> bool option \<times> target_spec" where
  "target_step pcfg bcfg key e a = (if event_key e = key then spec_event pcfg bcfg e a else (None, a))"

definition registry_refines ::
    "passive_health_check_config \<Rightarrow> circuit_breaker_config \<Rightarrow> string \<Rightarrow> runtime_registry \<Rightarrow> target_spec \<Rightarrow> bool" where
  "registry_refines pcfg bcfg key reg a \<longleftrightarrow>
     rr_passive_cfg reg = pcfg \<and> rr_breaker_cfg reg = bcfg \<and> target_refines (runtime_of reg key) a"

interpretation registry: forward_simulation "registry_step key" "target_step pcfg bcfg key"
  "registry_refines pcfg bcfg key" for pcfg bcfg key
proof unfold_locales
  fix reg a e
  assume R: "registry_refines pcfg bcfg key reg a"
  then have st: "target_refines (runtime_of reg key) a"
    and cfg: "rr_passive_cfg reg = pcfg" "rr_breaker_cfg reg = bcfg"
    by (simp_all add: registry_refines_def)
  show "fst (registry_step key e reg) = fst (target_step pcfg bcfg key e a)"
    using admit_refines [OF st] cfg
    by (cases e) (auto simp: registry_step_def target_step_def fst_is_available simp del: spec_ask.simps)
  have "target_refines (target_event pcfg bcfg e (runtime_of reg key)) (snd (spec_event pcfg bcfg e a))"
    using admit_refines [OF st] note_failure_refines [OF st] note_success_refines [OF st] st
    by (cases e) (simp_all add: target_refines_def del: spec_ask.simps)
  then show "registry_refines pcfg bcfg key (snd (registry_step key e reg)) (snd (target_step pcfg bcfg key e a))"
    using st cfg
    by (auto simp: registry_refines_def registry_step_def target_step_def runtime_of_apply_event)
qed

lemma run_answers_registry: "run_answers (registry_step key) es reg = answers key es reg"
  by (induction es arbitrary: reg) (auto simp: registry_step_def split: registry_event.splits)

lemma run_answers_silent:
  "run_answers (target_step pcfg bcfg key) es a
   = run_answers (spec_event pcfg bcfg) (filter (\<lambda>e. event_key e = key) es) a"
  by (induction es arbitrary: a) (auto simp: target_step_def split_beta)

section \<open>Properties\<close>

text \<open>
  C6. The registry refines independent targets.  For every sequence of operations on a fresh
  registry, on any keys, the answers it gives about one key are those of the specification of a
  single target on the operations of that key alone: keys do not influence each other, and neither
  the saturating counters nor the second failure counter are ever noticed.
\<close>

theorem registry_refines_targets:
  "answers key es (registry_new pcfg bcfg) =
   run_answers (spec_event pcfg bcfg) (filter (\<lambda>e. event_key e = key) es) fresh_target"
proof -
  have "registry_refines pcfg bcfg key (registry_new pcfg bcfg) fresh_target"
    by (simp add: registry_refines_def fresh_refines)
  from registry.run_answers_eq [OF this, of es] show ?thesis
    by (simp add: run_answers_registry run_answers_silent)
qed

end
