(* ===== verification/Wasm_Abi.thy ===== *)
theory Wasm_Abi
  imports Prelude
begin

text \<open>
  \<open>wasm_abi.rs\<close>: the phases, the capabilities and the call record that the plugin host hands to a
  Wasm module.
\<close>

definition ABI_VERSION :: u32 where
  "ABI_VERSION = 1"

definition PLUGIN_CONTRACT_VERSION :: u32 where
  "PLUGIN_CONTRACT_VERSION = 1"

datatype wasm_phase = Init | Access | HeaderFilter | BodyFilter | Log

datatype wasm_capability =
  ReadHeaders | WriteHeaders | ReadBody | WriteBody | RewritePath | EmitLogs

text \<open>The derived \<open>Debug\<close> prints the constructor name.\<close>

primrec debug_capability :: "wasm_capability \<Rightarrow> string" where
  "debug_capability ReadHeaders = ''ReadHeaders''"
| "debug_capability WriteHeaders = ''WriteHeaders''"
| "debug_capability ReadBody = ''ReadBody''"
| "debug_capability WriteBody = ''WriteBody''"
| "debug_capability RewritePath = ''RewritePath''"
| "debug_capability EmitLogs = ''EmitLogs''"

record wasm_call =
  wc_abi_version :: u32
  wc_plugin_contract_version :: u32
  wc_phase :: wasm_phase
  wc_plugin :: string
  wc_required_capabilities :: "wasm_capability list"
  wc_payload :: string

definition wasm_call_new ::
    "wasm_phase \<Rightarrow> string \<Rightarrow> wasm_capability list \<Rightarrow> string \<Rightarrow> wasm_call" where
  "wasm_call_new phase plugin required_capabilities payload =
     \<lparr>wc_abi_version = ABI_VERSION, wc_plugin_contract_version = PLUGIN_CONTRACT_VERSION,
      wc_phase = phase, wc_plugin = plugin,
      wc_required_capabilities = required_capabilities, wc_payload = payload\<rparr>"

end
