(* ===== verification/Plugin.thy ===== *)
theory Plugin
  imports Config Wasm_Abi
begin

text \<open>
  \<open>plugin.rs\<close>: the plugin trait, the declared plugins with their sandbox host, and the plugin manager
  with its lifecycle.

  A \<open>Box<dyn GatewayPlugin>\<close> is the record of its methods.  The manager carries a log of the \<open>init\<close>
  and \<open>teardown\<close> calls it makes, so that the lifecycle can be stated; the program itself keeps
  none.  The file system and the JSON serializer are parameters.
\<close>

section \<open>Model\<close>

record plugin_context =
  px_route :: string
  px_path :: string

record plugin_result =
  pr_allowed :: bool
  pr_reason :: "string option"

abbreviation pass :: plugin_result where
  "pass \<equiv> \<lparr>pr_allowed = True, pr_reason = None\<rparr>"

record gateway_plugin =
  gp_name :: string
  gp_contract_version :: u32
  gp_supports_phase :: "wasm_phase \<Rightarrow> bool"
  gp_init :: "unit res"
  gp_execute :: "wasm_phase \<Rightarrow> plugin_context \<Rightarrow> plugin_result"
  gp_teardown :: "unit res"

record plugin_env =
  pe_path_exists :: "string \<Rightarrow> bool"
  pe_to_vec :: "plugin_context \<Rightarrow> string res"

definition MAX_WASM_PAYLOAD_BYTES :: nat where
  "MAX_WASM_PAYLOAD_BYTES = 64 * 1024"

datatype plugin_runtime = Native | Wasm

record wasm_runtime_host =
  wh_allowed_capabilities :: "wasm_capability list"
  wh_max_payload_bytes :: nat

record declared_plugin =
  dp_name :: string
  dp_module :: string
  dp_runtime :: plugin_runtime
  dp_wasm_path :: "string option"
  dp_phases :: "wasm_phase list"
  dp_required_capabilities :: "wasm_capability list"
  dp_host :: wasm_runtime_host
  dp_contract_version :: u32

definition sandboxed_for_plugin :: "wasm_capability list \<Rightarrow> wasm_runtime_host" where
  "sandboxed_for_plugin required_capabilities =
     \<lparr>wh_allowed_capabilities = required_capabilities, wh_max_payload_bytes = MAX_WASM_PAYLOAD_BYTES\<rparr>"

definition invoke :: "wasm_runtime_host \<Rightarrow> wasm_call \<Rightarrow> unit res" where
  "invoke host call =
     bind_res (ensure (\<not> wh_max_payload_bytes host < length (wc_payload call))
       (''wasm payload exceeds sandbox limit: '' @ show_nat (length (wc_payload call)) @ '' > ''
         @ show_nat (wh_max_payload_bytes host))) (\<lambda>_.
     for_res (\<lambda>cap. ensure (cap \<in> set (wh_allowed_capabilities host))
       (''wasm capability '' @ quoted (debug_capability cap) @ '' is not allowed by sandbox policy''))
       (wc_required_capabilities call))"

definition declared_execute ::
    "plugin_env \<Rightarrow> declared_plugin \<Rightarrow> wasm_phase \<Rightarrow> plugin_context \<Rightarrow> plugin_result" where
  "declared_execute env p phase ctx =
     (if phase \<notin> set (dp_phases p) then pass
      else case dp_runtime p of
        Native \<Rightarrow> pass
      | Wasm \<Rightarrow>
          (let call = wasm_call_new phase (dp_name p) (dp_required_capabilities p)
             (case pe_to_vec env ctx of Inl _ \<Rightarrow> [] | Inr v \<Rightarrow> v)
           in case invoke (dp_host p) call of
             Inl err \<Rightarrow> \<lparr>pr_allowed = False, pr_reason = Some err\<rparr>
           | Inr _ \<Rightarrow> pass))"

text \<open>The implementation of the trait; \<open>init\<close> and \<open>teardown\<close> are the trait's defaults.\<close>

definition declared_gateway_plugin :: "plugin_env \<Rightarrow> declared_plugin \<Rightarrow> gateway_plugin" where
  "declared_gateway_plugin env p =
     \<lparr>gp_name = dp_name p, gp_contract_version = dp_contract_version p,
      gp_supports_phase = (\<lambda>phase. phase \<in> set (dp_phases p)), gp_init = Inr (),
      gp_execute = declared_execute env p, gp_teardown = Inr ()\<rparr>"

datatype lifecycle = InitCalled string | TeardownCalled string

record plugin_manager =
  pm_plugins :: "gateway_plugin list"
  pm_log :: "lifecycle list"

definition plugin_manager_new :: plugin_manager where
  "plugin_manager_new = \<lparr>pm_plugins = [], pm_log = []\<rparr>"

definition version_mismatch :: "string \<Rightarrow> u32 \<Rightarrow> string" where
  "version_mismatch name got =
     ''plugin '' @ quoted name @ '' contract version mismatch: expected ''
     @ show_word PLUGIN_CONTRACT_VERSION @ '', got '' @ show_word got"

definition register :: "gateway_plugin \<Rightarrow> plugin_manager \<Rightarrow> unit res \<times> plugin_manager" where
  "register p m =
     (if gp_contract_version p \<noteq> PLUGIN_CONTRACT_VERSION
      then (Inl (version_mismatch (gp_name p) (gp_contract_version p)), m)
      else
        (let m = m\<lparr>pm_log := pm_log m @ [InitCalled (gp_name p)]\<rparr>
         in case gp_init p of
           Inl err \<Rightarrow> (Inl err, m)
         | Inr _ \<Rightarrow> (Inr (), m\<lparr>pm_plugins := pm_plugins m @ [p]\<rparr>)))"

text \<open>A failing \<open>teardown\<close> is only logged, so its result does not matter here.\<close>

definition rollback_lifecycle :: "plugin_manager \<Rightarrow> plugin_manager" where
  "rollback_lifecycle m =
     \<lparr>pm_plugins = [], pm_log = pm_log m @ map (\<lambda>p. TeardownCalled (gp_name p)) (pm_plugins m)\<rparr>"

definition drop_plugin_manager :: "plugin_manager \<Rightarrow> plugin_manager" where
  "drop_plugin_manager m = rollback_lifecycle m"

fun run_phase :: "gateway_plugin list \<Rightarrow> wasm_phase \<Rightarrow> plugin_context \<Rightarrow> plugin_result" where
  "run_phase [] phase ctx = pass"
| "run_phase (p # ps) phase ctx =
     (if \<not> gp_supports_phase p phase then run_phase ps phase ctx
      else
        (let result = gp_execute p phase ctx
         in if \<not> pr_allowed result then result else run_phase ps phase ctx))"

definition ORDERED_PHASES :: "wasm_phase list" where
  "ORDERED_PHASES = [Access, HeaderFilter, BodyFilter, Log]"

fun run_phases :: "gateway_plugin list \<Rightarrow> wasm_phase list \<Rightarrow> plugin_context \<Rightarrow> plugin_result" where
  "run_phases ps [] ctx = pass"
| "run_phases ps (phase # phases) ctx =
     (let result = run_phase ps phase ctx
      in if \<not> pr_allowed result then result else run_phases ps phases ctx)"

definition run_request_pipeline :: "gateway_plugin list \<Rightarrow> plugin_context \<Rightarrow> plugin_result" where
  "run_request_pipeline ps ctx = run_phases ps ORDERED_PHASES ctx"

section \<open>Building declared plugins\<close>

definition validate_plugin_schema :: "plugin_config \<Rightarrow> unit res" where
  "validate_plugin_schema cfg =
     bind_res (ensure (trim (pc_name cfg) \<noteq> []) ''plugin name cannot be empty'') (\<lambda>_.
     bind_res (ensure (trim (pc_module cfg) \<noteq> [])
       (''plugin '' @ quoted (pc_name cfg) @ '' module cannot be empty'')) (\<lambda>_.
     bind_res (ensure (pc_contract_version cfg = PLUGIN_CONTRACT_VERSION)
       (version_mismatch (pc_name cfg) (pc_contract_version cfg))) (\<lambda>_.
     ensure (pc_phases cfg \<noteq> [])
       (''plugin '' @ quoted (pc_name cfg) @ '' phases cannot be empty''))))"

definition parse_runtime :: "string \<Rightarrow> plugin_runtime res" where
  "parse_runtime runtime =
     (let s = to_ascii_lowercase (trim runtime)
      in if s = ''native'' then Inr Native
         else if s = ''wasm'' then Inr Wasm
         else Inl (''unsupported plugin runtime '' @ quoted s))"

definition parse_phase :: "string \<Rightarrow> wasm_phase res" where
  "parse_phase phase =
     (let s = to_ascii_lowercase (trim phase)
      in if s = ''init'' then Inr Init
         else if s = ''access'' then Inr Access
         else if s \<in> set [''header'', ''header_filter'', ''headerfilter''] then Inr HeaderFilter
         else if s \<in> set [''body'', ''body_filter'', ''bodyfilter''] then Inr BodyFilter
         else if s = ''log'' then Inr Log
         else Inl (''unsupported plugin phase '' @ quoted s))"

text \<open>A \<open>HashSet\<close> of phases is the list of its elements, in the order of their first insertion.\<close>

fun parse_phases_into :: "wasm_phase list \<Rightarrow> string list \<Rightarrow> wasm_phase list res" where
  "parse_phases_into parsed [] = Inr parsed"
| "parse_phases_into parsed (phase # phases) =
     bind_res (parse_phase phase) (\<lambda>p.
       parse_phases_into (if p \<in> set parsed then parsed else parsed @ [p]) phases)"

definition parse_phases :: "string list \<Rightarrow> wasm_phase list res" where
  "parse_phases phases = parse_phases_into [] phases"

definition parse_capability :: "string \<Rightarrow> wasm_capability res" where
  "parse_capability capability =
     (let s = to_ascii_lowercase (trim capability)
      in if s = ''read_headers'' then Inr ReadHeaders
         else if s = ''write_headers'' then Inr WriteHeaders
         else if s = ''read_body'' then Inr ReadBody
         else if s = ''write_body'' then Inr WriteBody
         else if s = ''rewrite_path'' then Inr RewritePath
         else if s = ''emit_logs'' then Inr EmitLogs
         else Inl (''unsupported plugin capability '' @ quoted s))"

fun parse_capabilities :: "string list \<Rightarrow> wasm_capability list res" where
  "parse_capabilities [] = Inr []"
| "parse_capabilities (c # cs) =
     bind_res (parse_capability c) (\<lambda>p. bind_res (parse_capabilities cs) (\<lambda>ps. Inr (p # ps)))"

definition check_wasm_path :: "plugin_env \<Rightarrow> plugin_config \<Rightarrow> plugin_runtime \<Rightarrow> unit res" where
  "check_wasm_path env cfg runtime =
     (case runtime of
        Native \<Rightarrow> Inr ()
      | Wasm \<Rightarrow>
          (case pc_wasm_path cfg of
             None \<Rightarrow> Inl (''plugin '' @ quoted (pc_name cfg) @ '' runtime is wasm but wasm_path is missing'')
           | Some path \<Rightarrow> ensure (pe_path_exists env path)
               (''plugin '' @ quoted (pc_name cfg) @ '' wasm_path does not exist: '' @ path)))"

definition build_declared_plugin :: "plugin_env \<Rightarrow> plugin_config \<Rightarrow> declared_plugin res" where
  "build_declared_plugin env cfg =
     bind_res (validate_plugin_schema cfg) (\<lambda>_.
     bind_res (parse_runtime (pc_runtime cfg)) (\<lambda>runtime.
     bind_res (parse_phases (pc_phases cfg)) (\<lambda>phases.
     bind_res (parse_capabilities (pc_capabilities cfg)) (\<lambda>capabilities.
     bind_res (check_wasm_path env cfg runtime) (\<lambda>_.
     Inr \<lparr>dp_name = pc_name cfg, dp_module = pc_module cfg, dp_runtime = runtime,
          dp_wasm_path = pc_wasm_path cfg, dp_phases = phases,
          dp_required_capabilities = capabilities,
          dp_host = sandboxed_for_plugin capabilities,
          dp_contract_version = pc_contract_version cfg\<rparr>)))))"

text \<open>The loop of \<open>from_config\<close>, with the names seen so far.\<close>

fun load_plugins ::
    "plugin_env \<Rightarrow> plugin_manager \<Rightarrow> string list \<Rightarrow> plugin_config list \<Rightarrow> unit res \<times> plugin_manager" where
  "load_plugins env m seen [] = (Inr (), m)"
| "load_plugins env m seen (cfg # cfgs) =
     (if pc_name cfg \<in> set seen
      then (Inl (''duplicate plugin name '' @ quoted (pc_name cfg)), rollback_lifecycle m)
      else case build_declared_plugin env cfg of
        Inl err \<Rightarrow> (Inl err, m)
      | Inr declared \<Rightarrow>
          (case register (declared_gateway_plugin env declared) m of
             (Inl err, m') \<Rightarrow>
               (Inl (''failed to register plugin '' @ quoted (pc_name cfg) @ '': '' @ err),
                rollback_lifecycle m')
           | (Inr _, m') \<Rightarrow> load_plugins env m' (pc_name cfg # seen) cfgs))"

text \<open>An early return drops the manager; a success hands it to the caller.\<close>

definition from_config :: "plugin_env \<Rightarrow> plugin_config list \<Rightarrow> unit res \<times> plugin_manager" where
  "from_config env configs =
     (case load_plugins env plugin_manager_new [] configs of
        (Inl err, m) \<Rightarrow> (Inl err, drop_plugin_manager m)
      | (Inr _, m) \<Rightarrow> (Inr (), m))"

section \<open>The sandbox\<close>

text \<open>What building a plugin guarantees about it.\<close>

lemma build_declared_pluginD:
  assumes "build_declared_plugin env cfg = Inr d"
  shows "dp_name d = pc_name cfg" and "dp_contract_version d = PLUGIN_CONTRACT_VERSION"
    and "dp_host d = sandboxed_for_plugin (dp_required_capabilities d)"
  using assms by (auto simp: build_declared_plugin_def validate_plugin_schema_def)

lemma invoke_sandboxed:
  "invoke (sandboxed_for_plugin caps) call = Inr () \<longleftrightarrow>
   length (wc_payload call) \<le> MAX_WASM_PAYLOAD_BYTES \<and> set (wc_required_capabilities call) \<subseteq> set caps"
  by (auto simp: invoke_def sandboxed_for_plugin_def)

definition payload :: "plugin_env \<Rightarrow> plugin_context \<Rightarrow> string" where
  "payload env ctx = (case pe_to_vec env ctx of Inl _ \<Rightarrow> [] | Inr v \<Rightarrow> v)"

lemma declared_execute_allowed:
  assumes "build_declared_plugin env cfg = Inr d"
  shows "pr_allowed (declared_execute env d phase ctx) \<longleftrightarrow>
     phase \<notin> set (dp_phases d) \<or> dp_runtime d = Native \<or>
     length (payload env ctx) \<le> MAX_WASM_PAYLOAD_BYTES"
proof -
  have "invoke (dp_host d) (wasm_call_new phase (dp_name d) (dp_required_capabilities d) (payload env ctx))
      = Inr () \<longleftrightarrow> length (payload env ctx) \<le> MAX_WASM_PAYLOAD_BYTES"
    using build_declared_pluginD(3) [OF assms] by (simp add: invoke_sandboxed wasm_call_new_def)
  then show ?thesis
    by (auto simp: declared_execute_def Let_def payload_def split: plugin_runtime.splits sum.splits)
qed

section \<open>Phases\<close>

lemma run_phase_find:
  "run_phase ps phase ctx =
   (case find (\<lambda>p. gp_supports_phase p phase \<and> \<not> pr_allowed (gp_execute p phase ctx)) ps of
      None \<Rightarrow> pass | Some p \<Rightarrow> gp_execute p phase ctx)"
  by (induction ps) (auto simp: Let_def)

lemma run_phase_allowed_iff:
  "pr_allowed (run_phase ps phase ctx) \<longleftrightarrow>
   (\<forall>p\<in>set ps. gp_supports_phase p phase \<longrightarrow> pr_allowed (gp_execute p phase ctx))"
  by (induction ps) (auto simp: Let_def)

lemma find_append: "find P (xs @ ys) = (case find P xs of None \<Rightarrow> find P ys | Some x \<Rightarrow> Some x)"
  by (induction xs) auto

lemma find_map: "find P (map f xs) = map_option f (find (P \<circ> f) xs)"
  by (induction xs) auto

lemma run_phases_find:
  "run_phases ps phases ctx =
   (case find (\<lambda>(phase, p). gp_supports_phase p phase \<and> \<not> pr_allowed (gp_execute p phase ctx))
      (List.product phases ps) of
      None \<Rightarrow> pass | Some (phase, p) \<Rightarrow> gp_execute p phase ctx)"
proof (induction phases)
  case (Cons phase phases)
  show ?case
  proof (cases "find (\<lambda>p. gp_supports_phase p phase \<and> \<not> pr_allowed (gp_execute p phase ctx)) ps")
    case None
    then show ?thesis using Cons by (simp add: run_phase_find find_append find_map comp_def)
  next
    case (Some p)
    then have "\<not> pr_allowed (gp_execute p phase ctx)" by (auto simp: find_Some_iff)
    with Some show ?thesis by (simp add: run_phase_find find_append find_map comp_def)
  qed
qed simp

text \<open>
  The contract between the manager and a plugin: on a phase it does not support, a plugin passes.
  Under it the manager's own test of \<open>supports_phase\<close> changes no result.
\<close>

locale phase_contract =
  fixes plugin :: "'p \<Rightarrow> gateway_plugin"
  assumes unsupported_passes:
    "\<not> gp_supports_phase (plugin p) phase \<Longrightarrow> gp_execute (plugin p) phase ctx = pass"
begin

lemma run_phase_without_test:
  "run_phase (map plugin ps) phase ctx =
   (case find (\<lambda>r. \<not> pr_allowed r) (map (\<lambda>p. gp_execute (plugin p) phase ctx) ps) of
      None \<Rightarrow> pass | Some r \<Rightarrow> r)"
  by (induction ps) (auto simp: Let_def unsupported_passes)

end

interpretation declared: phase_contract "declared_gateway_plugin env" for env
  by unfold_locales (simp add: declared_gateway_plugin_def declared_execute_def)

section \<open>Lifecycle\<close>

text \<open>The manager after a list of plugins has been registered.\<close>

definition extended :: "plugin_env \<Rightarrow> plugin_config list \<Rightarrow> plugin_manager \<Rightarrow> plugin_manager" where
  "extended env cfgs m =
     \<lparr>pm_plugins = pm_plugins m @
        map (\<lambda>cfg. declared_gateway_plugin env (projr (build_declared_plugin env cfg))) cfgs,
      pm_log = pm_log m @ map (\<lambda>cfg. InitCalled (pc_name cfg)) cfgs\<rparr>"

definition loadable :: "plugin_env \<Rightarrow> string list \<Rightarrow> plugin_config list \<Rightarrow> bool" where
  "loadable env seen cfgs \<longleftrightarrow>
     distinct (map pc_name cfgs) \<and> set (map pc_name cfgs) \<inter> set seen = {} \<and>
     (\<forall>cfg\<in>set cfgs. \<not> isl (build_declared_plugin env cfg))"

lemma register_declared:
  assumes "build_declared_plugin env cfg = Inr d"
  shows "register (declared_gateway_plugin env d) m = (Inr (), extended env [cfg] m)"
  using build_declared_pluginD [OF assms] assms
  by (simp add: register_def declared_gateway_plugin_def extended_def Let_def)

lemma load_plugins_append:
  "loadable env seen us \<Longrightarrow>
   load_plugins env m seen (us @ rest) =
   load_plugins env (extended env us m) (rev (map pc_name us) @ seen) rest"
proof (induction us arbitrary: m seen)
  case Nil
  then show ?case by (cases m) (simp add: extended_def)
next
  case (Cons cfg us)
  obtain d where d: "build_declared_plugin env cfg = Inr d"
    using Cons.prems by (cases "build_declared_plugin env cfg") (auto simp: loadable_def)
  have "loadable env (pc_name cfg # seen) us" using Cons.prems by (auto simp: loadable_def)
  moreover have "extended env us (extended env [cfg] m) = extended env (cfg # us) m"
    by (simp add: extended_def)
  moreover have "pc_name cfg \<notin> set seen" using Cons.prems by (auto simp: loadable_def)
  ultimately show ?case using Cons.IH d by (simp add: register_declared [OF d])
qed

lemma first_unloadable:
  "\<not> loadable env seen cfgs \<Longrightarrow>
   \<exists>us cfg vs. cfgs = us @ cfg # vs \<and> loadable env seen us \<and>
     (pc_name cfg \<in> set (rev (map pc_name us) @ seen) \<or> isl (build_declared_plugin env cfg))"
proof (induction cfgs rule: rev_induct)
  case Nil
  then show ?case by (simp add: loadable_def)
next
  case (snoc cfg cfgs)
  show ?case
  proof (cases "loadable env seen cfgs")
    case True
    with snoc.prems show ?thesis
      by (intro exI [of _ cfgs] exI [of _ cfg] exI [of _ "[]"]) (auto simp: loadable_def)
  next
    case False
    with snoc.IH obtain us c vs where "cfgs = us @ c # vs" "loadable env seen us"
      "pc_name c \<in> set (rev (map pc_name us) @ seen) \<or> isl (build_declared_plugin env c)" by blast
    then show ?thesis by (intro exI [of _ us] exI [of _ c] exI [of _ "vs @ [cfg]"]) simp
  qed
qed

lemma rollback_rollback: "rollback_lifecycle (rollback_lifecycle m) = rollback_lifecycle m"
  by (simp add: rollback_lifecycle_def)

lemma rollback_extended:
  assumes "\<forall>cfg\<in>set us. \<not> isl (build_declared_plugin env cfg)"
  shows "rollback_lifecycle (extended env us plugin_manager_new) =
    \<lparr>pm_plugins = [], pm_log = map (\<lambda>cfg. InitCalled (pc_name cfg)) us @
       map (\<lambda>cfg. TeardownCalled (pc_name cfg)) us\<rparr>"
proof -
  have "dp_name (projr (build_declared_plugin env cfg)) = pc_name cfg" if "cfg \<in> set us" for cfg
    using assms that build_declared_pluginD(1) [of env cfg] by (cases "build_declared_plugin env cfg") auto
  then show ?thesis
    by (simp add: rollback_lifecycle_def extended_def plugin_manager_new_def declared_gateway_plugin_def
        comp_def)
qed

section \<open>Properties\<close>

text \<open>
  The request pipeline stops at the first denial.  The result of \<open>run_request_pipeline\<close> is the
  result of the first pair, in the order of the phases (access, header filter, body filter, log)
  and within a phase in the order of registration, whose plugin supports the phase and denies the
  request; if no plugin denies, the request passes.
\<close>

lemma pipeline_first_denial:
  "run_request_pipeline ps ctx =
   (case find (\<lambda>(phase, p). gp_supports_phase p phase \<and> \<not> pr_allowed (gp_execute p phase ctx))
      (List.product [Access, HeaderFilter, BodyFilter, Log] ps) of
      None \<Rightarrow> \<lparr>pr_allowed = True, pr_reason = None\<rparr>
    | Some (phase, p) \<Rightarrow> gp_execute p phase ctx)"
  unfolding run_request_pipeline_def ORDERED_PHASES_def by (rule run_phases_find)

text \<open>
  C25. A failed start leaves no plugin behind.  When \<open>from_config\<close> fails, the configurations before
  the faulty one had distinct names and could be built; exactly their plugins have been initialised,
  in order, and every one of them has been torn down exactly once, in the same order; the faulty one
  repeats a name or could not be built, and the manager holds no plugin.
\<close>

theorem failed_start_rolls_back:
  assumes "from_config env configs = (Inl err, m)"
  shows "\<exists>us cfg vs. configs = us @ cfg # vs \<and> distinct (map pc_name us) \<and>
     (\<forall>c\<in>set us. \<not> isl (build_declared_plugin env c)) \<and>
     (if pc_name cfg \<in> pc_name ` set us then err = ''duplicate plugin name '' @ quoted (pc_name cfg)
      else build_declared_plugin env cfg = Inl err) \<and>
     pm_plugins m = [] \<and>
     pm_log m = map (\<lambda>c. InitCalled (pc_name c)) us @ map (\<lambda>c. TeardownCalled (pc_name c)) us"
proof -
  have "\<not> loadable env [] configs"
  proof
    assume "loadable env [] configs"
    from load_plugins_append [OF this, of plugin_manager_new "[]"] assms
    show False by (simp add: from_config_def)
  qed
  from first_unloadable [OF this] obtain us cfg vs where split: "configs = us @ cfg # vs"
    and us: "loadable env [] us"
    and bad: "pc_name cfg \<in> pc_name ` set us \<or> isl (build_declared_plugin env cfg)" by auto
  have builds: "\<forall>c\<in>set us. \<not> isl (build_declared_plugin env c)" using us by (simp add: loadable_def)
  have run: "load_plugins env plugin_manager_new [] configs =
      load_plugins env (extended env us plugin_manager_new) (rev (map pc_name us)) (cfg # vs)"
    using load_plugins_append [OF us, of plugin_manager_new "cfg # vs"] by (simp add: split)
  have "m = rollback_lifecycle (extended env us plugin_manager_new) \<and>
      (if pc_name cfg \<in> pc_name ` set us then err = ''duplicate plugin name '' @ quoted (pc_name cfg)
       else build_declared_plugin env cfg = Inl err)"
    using assms bad
    by (auto simp: from_config_def run drop_plugin_manager_def rollback_rollback isl_def split: if_splits)
  with split us builds show ?thesis
    by (intro exI [of _ us] exI [of _ cfg] exI [of _ vs]) (simp add: loadable_def rollback_extended)
qed

definition sample_env :: plugin_env where
  "sample_env = \<lparr>pe_path_exists = (\<lambda>p. p = ''auth.wasm''), pe_to_vec = (\<lambda>ctx. Inr (px_route ctx @ px_path ctx))\<rparr>"

definition sample_plugin_config :: plugin_config where
  "sample_plugin_config =
     \<lparr>pc_name = ''wasm-auth'', pc_module = ''plugins.wasm_auth'', pc_wasm_path = Some ''auth.wasm'',
      pc_runtime = ''wasm'', pc_contract_version = 1, pc_phases = [''access'', ''log''],
      pc_capabilities = [''read_headers'', ''emit_logs'']\<rparr>"

definition sample_plugin :: declared_plugin where
  "sample_plugin =
     \<lparr>dp_name = ''wasm-auth'', dp_module = ''plugins.wasm_auth'', dp_runtime = Wasm,
      dp_wasm_path = Some ''auth.wasm'', dp_phases = [Access, Log],
      dp_required_capabilities = [ReadHeaders, EmitLogs],
      dp_host = sandboxed_for_plugin [ReadHeaders, EmitLogs], dp_contract_version = 1\<rparr>"

lemma sample_plugin_trims:
  "trim ''wasm-auth'' = ''wasm-auth''" "trim ''plugins.wasm_auth'' = ''plugins.wasm_auth''"
  "parse_runtime ''wasm'' = Inr Wasm" "parse_phases [''access'', ''log''] = Inr [Access, Log]"
  "parse_capability ''read_headers'' = Inr ReadHeaders" "parse_capability ''emit_logs'' = Inr EmitLogs"
  by code_simp+

lemma sample_plugin_build: "build_declared_plugin sample_env sample_plugin_config = Inr sample_plugin"
  by (simp add: build_declared_plugin_def validate_plugin_schema_def sample_plugin_config_def
      sample_plugin_trims ensure_def check_wasm_path_def sample_env_def sample_plugin_def
      PLUGIN_CONTRACT_VERSION_def)

lemma sample_plugin_twice:
  "fst (from_config sample_env [sample_plugin_config, sample_plugin_config])
   = Inl (''duplicate plugin name '' @ quoted ''wasm-auth'')"
  by (simp add: from_config_def sample_plugin_build register_declared [OF sample_plugin_build])
    (simp add: sample_plugin_config_def)

theorem failed_start_rolls_back_witness:
  "pm_plugins (snd (from_config sample_env [sample_plugin_config, sample_plugin_config])) = []"
  using failed_start_rolls_back [of sample_env "[sample_plugin_config, sample_plugin_config]"
      "''duplicate plugin name '' @ quoted ''wasm-auth''"
      "snd (from_config sample_env [sample_plugin_config, sample_plugin_config])"]
    sample_plugin_twice
  by (metis prod.collapse)

text \<open>
  C38. A start succeeds exactly on distinct names that all build.  Then the manager holds the declared
  plugins in the order of the configuration, and each has been initialised once.
\<close>

theorem start_succeeds_iff:
  "(fst (from_config env configs) = Inr () \<longleftrightarrow>
      distinct (map pc_name configs) \<and> list_all (\<lambda>c. \<not> isl (build_declared_plugin env c)) configs) \<and>
   (distinct (map pc_name configs) \<and> list_all (\<lambda>c. \<not> isl (build_declared_plugin env c)) configs \<longrightarrow>
      pm_plugins (snd (from_config env configs)) =
        map (\<lambda>c. declared_gateway_plugin env (projr (build_declared_plugin env c))) configs \<and>
      pm_log (snd (from_config env configs)) = map (\<lambda>c. InitCalled (pc_name c)) configs)"
proof -
  let ?ok = "distinct (map pc_name configs) \<and> list_all (\<lambda>c. \<not> isl (build_declared_plugin env c)) configs"
  have ok: "?ok \<longleftrightarrow> loadable env [] configs" by (simp add: loadable_def list_all_iff)
  have good: "from_config env configs = (Inr (), extended env configs plugin_manager_new)" if ?ok
    using load_plugins_append [of env "[]" configs plugin_manager_new "[]"] that ok
    by (simp add: from_config_def)
  have "\<not> fst (from_config env configs) = Inr ()" if "\<not> ?ok"
  proof -
    from first_unloadable [of env "[]" configs] that ok obtain us cfg vs where
      split: "configs = us @ cfg # vs" and us: "loadable env [] us"
      and bad: "pc_name cfg \<in> pc_name ` set us \<or> isl (build_declared_plugin env cfg)" by auto
    from load_plugins_append [OF us, of plugin_manager_new "cfg # vs"] bad
    show ?thesis by (auto simp: from_config_def split isl_def)
  qed
  with good show ?thesis by (auto simp: extended_def plugin_manager_new_def)
qed

theorem start_succeeds_iff_witness:
  "pm_log (snd (from_config sample_env [sample_plugin_config])) = [InitCalled ''wasm-auth'']"
  using start_succeeds_iff [of sample_env "[sample_plugin_config]"]
  by (simp add: sample_plugin_build) (simp add: sample_plugin_config_def)

text \<open>
  The sandbox denies by size only.  A plugin built from its configuration denies a request exactly
  when it runs in the Wasm runtime, supports the phase, and the serialised context is larger than
  64 KiB: the capabilities the host allows are by construction the ones the plugin requires, so the
  capability test of the sandbox never denies anything.
\<close>

lemma sandbox_denies_by_size_only:
  assumes "build_declared_plugin env cfg = Inr d"
  shows "\<not> pr_allowed (gp_execute (declared_gateway_plugin env d) phase ctx) \<longleftrightarrow>
     phase \<in> set (dp_phases d) \<and> dp_runtime d = Wasm \<and>
     64 * 1024 < length (case pe_to_vec env ctx of Inl _ \<Rightarrow> [] | Inr v \<Rightarrow> v)"
proof -
  have "dp_runtime d \<noteq> Native \<longleftrightarrow> dp_runtime d = Wasm" by (cases "dp_runtime d") auto
  then show ?thesis
    using declared_execute_allowed [OF assms, of phase ctx]
    by (auto simp: declared_gateway_plugin_def payload_def MAX_WASM_PAYLOAD_BYTES_def)
qed

end
