(* ===== verification/Observability.thy ===== *)
theory Observability
  imports Prelude
begin

text \<open>
  \<open>observability.rs\<close>: the request counters and their Prometheus rendering.  Each counter is an
  atomic \<open>u64\<close>; \<open>fetch_add\<close> wraps around.
\<close>

section \<open>Model\<close>

record metrics =
  total_requests :: u64
  total_errors :: u64
  total_unauthorized :: u64
  total_rate_limited :: u64
  total_upstream_failures :: u64

definition default_metrics :: metrics where
  "default_metrics =
     \<lparr>total_requests = 0, total_errors = 0, total_unauthorized = 0, total_rate_limited = 0,
      total_upstream_failures = 0\<rparr>"

definition inc_request :: "metrics \<Rightarrow> metrics" where
  "inc_request m = m\<lparr>total_requests := total_requests m + 1\<rparr>"

definition inc_error :: "metrics \<Rightarrow> metrics" where
  "inc_error m = m\<lparr>total_errors := total_errors m + 1\<rparr>"

definition inc_unauthorized :: "metrics \<Rightarrow> metrics" where
  "inc_unauthorized m = m\<lparr>total_unauthorized := total_unauthorized m + 1\<rparr>"

definition inc_rate_limited :: "metrics \<Rightarrow> metrics" where
  "inc_rate_limited m = m\<lparr>total_rate_limited := total_rate_limited m + 1\<rparr>"

definition inc_upstream_failure :: "metrics \<Rightarrow> metrics" where
  "inc_upstream_failure m = m\<lparr>total_upstream_failures := total_upstream_failures m + 1\<rparr>"

lemmas metrics_defs [rust_defs] =
  inc_request_def inc_error_def inc_unauthorized_def inc_rate_limited_def inc_upstream_failure_def

text \<open>The counters by name: adding one to a counter, and loading it.\<close>

datatype metric = Requests | Errors | Unauthorized | Rate_Limited | Upstream_Failures

primrec inc_metric :: "metric \<Rightarrow> metrics \<Rightarrow> metrics" where
  "inc_metric Requests = inc_request"
| "inc_metric Errors = inc_error"
| "inc_metric Unauthorized = inc_unauthorized"
| "inc_metric Rate_Limited = inc_rate_limited"
| "inc_metric Upstream_Failures = inc_upstream_failure"

primrec load_metric :: "metric \<Rightarrow> metrics \<Rightarrow> u64" where
  "load_metric Requests m = total_requests m"
| "load_metric Errors m = total_errors m"
| "load_metric Unauthorized m = total_unauthorized m"
| "load_metric Rate_Limited m = total_rate_limited m"
| "load_metric Upstream_Failures m = total_upstream_failures m"

lemma load_inc_metric: "load_metric k (inc_metric j m) = (if k = j then load_metric k m + 1 else load_metric k m)"
  by (cases j; cases k) (simp_all add: metrics_defs)

lemma metrics_eqI: "(\<And>k. load_metric k m = load_metric k m') \<Longrightarrow> m = (m' :: metrics)"
  by (rule metrics.equality) (metis load_metric.simps | simp)+

definition newline :: string where
  "newline = [CHR 0x0A]"

text \<open>One counter: its type line and its sample line.\<close>

definition render_counter :: "string \<Rightarrow> u64 \<Rightarrow> string" where
  "render_counter name v =
     ''# TYPE '' @ name @ '' counter'' @ newline @ name @ '' '' @ show_nat (unat v) @ newline"

definition render_prometheus :: "metrics \<Rightarrow> string" where
  "render_prometheus m =
     render_counter ''gateway_requests_total'' (total_requests m) @
     render_counter ''gateway_errors_total'' (total_errors m) @
     render_counter ''gateway_unauthorized_total'' (total_unauthorized m) @
     render_counter ''gateway_rate_limited_total'' (total_rate_limited m) @
     render_counter ''gateway_upstream_failures_total'' (total_upstream_failures m)"

section \<open>Reading the rendering back\<close>

text \<open>A scraper: the number on the sample line of a counter.\<close>

definition digit_value :: "char \<Rightarrow> nat" where
  "digit_value c = of_char c - 48"

definition read_nat :: "string \<Rightarrow> nat" where
  "read_nat s = foldl (\<lambda>n c. n * 10 + digit_value c) 0 s"

definition sample_value :: "string \<Rightarrow> string \<Rightarrow> nat option" where
  "sample_value name text =
     map_option (\<lambda>line. read_nat (drop (Suc (length name)) line))
       (find (\<lambda>line. starts_with line (name @ '' '')) (split_char (CHR 0x0A) text))"

lemma read_nat_snoc: "read_nat (s @ [c]) = read_nat s * 10 + digit_value c"
  by (simp add: read_nat_def)

lemma digit_value_char_of: "n < 10 \<Longrightarrow> digit_value (char_of (48 + n)) = n"
  by (simp add: digit_value_def of_char_of)

lemma read_show_nat: "read_nat (show_nat n) = n"
proof (induction n rule: show_nat.induct)
  case (1 n)
  show ?case
  proof (cases "n < 10")
    case True
    then show ?thesis
      by (subst show_nat.simps) (simp add: read_nat_def digit_value_char_of)
  next
    case False
    with 1 show ?thesis
      by (subst show_nat.simps) (simp add: read_nat_snoc digit_value_char_of)
  qed
qed

lemma show_nat_no_newline: "c \<in> set (show_nat n) \<Longrightarrow> 48 \<le> (of_char c :: nat)"
proof (induction n rule: show_nat.induct)
  case (1 n)
  then show ?case
    by (subst (asm) show_nat.simps) (auto simp: of_char_of split: if_splits)
qed

lemma newline_notin_show_nat: "CHR 0x0A \<notin> set (show_nat n)"
  using show_nat_no_newline [of "CHR 0x0A" n] by auto

section \<open>Properties\<close>

text \<open>
  C40. The Prometheus text can be read back: scraping each of the five counters from the rendered
  text gives the value of that counter.
\<close>

theorem render_prometheus_roundtrip:
  "sample_value ''gateway_requests_total'' (render_prometheus m) = Some (unat (total_requests m)) \<and>
   sample_value ''gateway_errors_total'' (render_prometheus m) = Some (unat (total_errors m)) \<and>
   sample_value ''gateway_unauthorized_total'' (render_prometheus m)
     = Some (unat (total_unauthorized m)) \<and>
   sample_value ''gateway_rate_limited_total'' (render_prometheus m)
     = Some (unat (total_rate_limited m)) \<and>
   sample_value ''gateway_upstream_failures_total'' (render_prometheus m)
     = Some (unat (total_upstream_failures m))"
proof -
  have lines: "split_char (CHR 0x0A) (render_counter name v @ rest) =
      (''# TYPE '' @ name @ '' counter'') # (name @ '' '' @ show_nat (unat v)) #
      split_char (CHR 0x0A) rest" if "CHR 0x0A \<notin> set name" for name v rest
    using that split_char_append [of "CHR 0x0A" "''# TYPE '' @ name @ '' counter''"]
      split_char_append [of "CHR 0x0A" "name @ '' '' @ show_nat (unat v)"]
    by (simp add: render_counter_def newline_def newline_notin_show_nat)
  show ?thesis
    using lines [where rest = "[]"]
    by (simp add: sample_value_def render_prometheus_def lines starts_with_def read_show_nat)
qed

end
