(* ===== verification/Proxy.thy ===== *)
theory Proxy
  imports Resilience Plugin Observability
begin

text \<open>
  The helper functions of \<open>main.rs\<close>: protocol detection, the choice of upstream and target, path and
  header transformation, fault injection and the plugin phases of the response.  The request handler
  that composes them is in the theory \<open>Gateway\<close>, the other tasks of the process in \<open>Server\<close>.
\<close>

section \<open>Responses\<close>

text \<open>
  \<open>Simple status text\<close> is \<open>(status, text).into_response()\<close>; \<open>Built\<close> is a response of the builder, with
  the headers in the order they were added.
\<close>

datatype response_body = Replaced string | Streamed string

datatype response = Simple status string | Built status "(string \<times> string) list" response_body

section \<open>Protocol\<close>

definition media_type :: "string \<Rightarrow> string" where
  "media_type content_type =
     to_ascii_lowercase (trim (case split_once (CHR '';'') content_type of
        Some (media_type, _) \<Rightarrow> media_type | None \<Rightarrow> content_type))"

definition request_protocol :: "'h http_api \<Rightarrow> http_version \<Rightarrow> 'h \<Rightarrow> protocol" where
  "request_protocol api version headers =
     (if version = HTTP_2 then
        (case get_str api headers ''content-type'' of
           Some content_type \<Rightarrow>
             if media_type content_type = ''application/grpc'' \<or>
                starts_with (media_type content_type) ''application/grpc+''
             then Grpc else Http2
         | None \<Rightarrow> Http2)
      else Http1)"

section \<open>Choosing the target\<close>

text \<open>
  The filter of \<open>pick_target\<close> asks the registry about every target in turn; the \<open>i\<close>-th question
  reads the clock at \<open>clock i\<close>.  Here the questions follow each other directly; the task of the theory
  \<open>Gateway\<close> lets other tasks run between them, and picks the same if none does.
\<close>

fun available_targets ::
    "string \<Rightarrow> (nat \<Rightarrow> instant) \<Rightarrow> nat \<Rightarrow> upstream_target list \<Rightarrow> runtime_registry \<Rightarrow>
     upstream_target list \<times> runtime_registry" where
  "available_targets upstream clock i [] reg = ([], reg)"
| "available_targets upstream clock i (t # ts) reg =
     (let (ok, reg1) = is_available reg (target_key upstream (ut_id t)) (clock i);
          (rest, reg2) = available_targets upstream clock (Suc i) ts reg1
      in (if ok then t # rest else rest, reg2))"

definition pick_target ::
    "bool \<Rightarrow> hasher \<Rightarrow> upstream_config \<Rightarrow> (nat \<Rightarrow> instant) \<Rightarrow> string \<Rightarrow> usize \<Rightarrow> runtime_registry \<Rightarrow>
     upstream_target option rust \<times> runtime_registry" where
  "pick_target ovf hash upstream clock request_key request_count reg =
     (let (targets, reg') = available_targets (u_name upstream) clock 0 (u_targets upstream) reg
      in (if targets = [] then Ret None
          else select_target ovf hash (u_strategy upstream) targets (Some request_key) request_count,
          reg'))"

definition deterministic_percentage_bucket :: "hasher \<Rightarrow> string \<Rightarrow> string \<Rightarrow> usize \<Rightarrow> u64" where
  "deterministic_percentage_bucket hash route_name client_key request_count =
     hash [HStr route_name, HStr client_key, HUsize request_count] mod 100"

definition force_canary :: "'h http_api \<Rightarrow> traffic_split_config \<Rightarrow> 'h \<Rightarrow> bool" where
  "force_canary api split headers =
     (case ts_canary_header split of
        None \<Rightarrow> False
      | Some hdr \<Rightarrow> (case get_str api headers (ch_name hdr) of
          None \<Rightarrow> False | Some v \<Rightarrow> v = ch_value hdr))"

definition select_upstream_name ::
    "'h http_api \<Rightarrow> hasher \<Rightarrow> route \<Rightarrow> 'h \<Rightarrow> string \<Rightarrow> usize \<Rightarrow> string" where
  "select_upstream_name api hash r headers client_key request_count =
     (let split = r_traffic_split r
      in case ts_canary_upstream split of
        None \<Rightarrow> r_upstream r
      | Some canary_upstream \<Rightarrow>
          if force_canary api split headers then canary_upstream
          else if ts_canary_percentage split = 0 then r_upstream r
          else
            (let bucket = deterministic_percentage_bucket hash (r_name r) client_key request_count
             in if bucket < ucast (ts_canary_percentage split) then canary_upstream else r_upstream r))"

section \<open>Transformations\<close>

definition rewrite_path_and_query :: "route \<Rightarrow> string \<Rightarrow> string \<Rightarrow> string rust" where
  "rewrite_path_and_query r path path_and_query =
     (case rt_path_prefix_rewrite (tc_request (r_transform r)) of
        None \<Rightarrow> Ret path_and_query
      | Some replacement \<Rightarrow>
          if \<not> starts_with path (r_path_prefix r) then Ret path_and_query
          else bind_rust (slice_from path_and_query (length (r_path_prefix r))) (\<lambda>suffix.
            Ret (replacement @ suffix)))"

definition is_hop_by_hop_header :: "string \<Rightarrow> bool" where
  "is_hop_by_hop_header header_name \<longleftrightarrow>
     to_ascii_lowercase header_name \<in> set [''connection'', ''keep-alive'', ''proxy-authenticate'',
       ''proxy-authorization'', ''te'', ''trailer'', ''transfer-encoding'', ''upgrade'']"

definition forwardable_headers :: "'h http_api \<Rightarrow> 'h \<Rightarrow> (string \<times> string) list" where
  "forwardable_headers api headers =
     filter (\<lambda>(name, v). \<not> (is_hop_by_hop_header name \<or> eq_ignore_ascii_case name ''host''))
       (hm_iter api headers)"

text \<open>The names and values of a configured entry that the \<open>http\<close> crate accepts.\<close>

definition parse_entry :: "'h http_api \<Rightarrow> string \<times> string \<Rightarrow> (string \<times> string) option" where
  "parse_entry api e =
     (case (header_name_from_bytes api (fst e), header_value_from_str api (snd e)) of
        (Some header_name, Some header_value) \<Rightarrow> Some (header_name, header_value)
      | _ \<Rightarrow> None)"

definition add_header :: "'h http_api \<Rightarrow> string \<times> string \<Rightarrow> 'h \<Rightarrow> 'h" where
  "add_header api e headers =
     (case parse_entry api e of
        Some (n, v) \<Rightarrow> if \<not> hm_contains_key api headers n then hm_append api headers n v else headers
      | None \<Rightarrow> headers)"

definition set_header :: "'h http_api \<Rightarrow> string \<times> string \<Rightarrow> 'h \<Rightarrow> 'h" where
  "set_header api e headers =
     (case parse_entry api e of
        Some (n, v) \<Rightarrow> hm_insert api headers n v
      | None \<Rightarrow> headers)"

definition apply_header_transform ::
    "'h http_api \<Rightarrow> 'h \<Rightarrow> header_entries \<Rightarrow> header_entries \<Rightarrow> string list \<Rightarrow> 'h" where
  "apply_header_transform api headers add_headers set_headers remove_headers =
     (let headers = fold (\<lambda>name h. hm_remove api h name) remove_headers headers;
          headers = fold (add_header api) add_headers headers
      in fold (set_header api) set_headers headers)"

definition transform_request_headers ::
    "'h http_api \<Rightarrow> 'h \<Rightarrow> request_transform \<Rightarrow> (string \<times> string) list" where
  "transform_request_headers api headers transform =
     (let transformed = fold (\<lambda>(name, v) h. hm_insert api h name v) (forwardable_headers api headers)
            (hm_new api);
          transformed = apply_header_transform api transformed (rt_add_headers transform)
            (rt_set_headers transform) (rt_remove_headers transform)
      in List.map_filter (\<lambda>(name, v). map_option (\<lambda>n. (n, v)) name) (hm_into_iter api transformed))"

definition transform_response_headers :: "'h http_api \<Rightarrow> 'h \<Rightarrow> response_transform \<Rightarrow> 'h" where
  "transform_response_headers api headers transform =
     (let transformed = fold (\<lambda>(name, v) h. hm_insert api h name v) (hm_iter api headers) (hm_new api)
      in apply_header_transform api transformed (rst_add_headers transform)
           (rst_set_headers transform) (rst_remove_headers transform))"

text \<open>The loop of the handler that copies the headers to the response builder.\<close>

definition response_headers :: "'h http_api \<Rightarrow> 'h \<Rightarrow> (string \<times> string) list" where
  "response_headers api headers =
     filter (\<lambda>(name, v). \<not> is_hop_by_hop_header name) (hm_iter api headers)"

section \<open>Fault injection\<close>

definition fault_jitter :: "bool \<Rightarrow> hasher \<Rightarrow> fault_injection_config \<Rightarrow> string \<Rightarrow> usize \<Rightarrow> u64 rust" where
  "fault_jitter ovf hash fault client_key request_count =
     (if fi_jitter_ms fault > 0 then
        bind_rust (add_chk ovf (fi_jitter_ms fault) 1) (\<lambda>modulus.
          if modulus = 0 then Panic
          else Ret (hash [HStr client_key, HUsize request_count] mod modulus))
      else Ret 0)"

text \<open>The result is the delay in milliseconds before it returns, and the response if it aborts.\<close>

definition maybe_apply_fault_injection ::
    "'h http_api \<Rightarrow> bool \<Rightarrow> hasher \<Rightarrow> fault_injection_config \<Rightarrow> string \<Rightarrow> usize \<Rightarrow>
     (u64 \<times> response option) rust" where
  "maybe_apply_fault_injection api ovf hash fault client_key request_count =
     (if \<not> fi_enabled fault then Ret (0, None)
      else if \<not> deterministic_percentage_bucket hash ''fault-injection'' client_key request_count
                  < ucast (fi_probability_percent fault)
      then Ret (0, None)
      else bind_rust (fault_jitter ovf hash fault client_key request_count) (\<lambda>jitter.
        let delay = sat_add (fi_delay_ms fault) jitter
        in case fi_abort_status fault of
             Some st \<Rightarrow>
               Ret (delay, Some (Simple
                 (case status_from_u16 api st of Some s \<Rightarrow> s | None \<Rightarrow> 500)
                 (case fi_abort_body fault of Some b \<Rightarrow> b | None \<Rightarrow> ''fault injection abort'')))
           | None \<Rightarrow> Ret (delay, None)))"

section \<open>Plugin phases of the response\<close>

definition run_response_plugin_phases :: "gateway_plugin list \<Rightarrow> plugin_context \<Rightarrow> response option" where
  "run_response_plugin_phases plugins plugin_context =
     (let header_filter_result = run_phase plugins HeaderFilter plugin_context
      in if \<not> pr_allowed header_filter_result
         then Some (Simple 403 (case pr_reason header_filter_result of
                Some r \<Rightarrow> r | None \<Rightarrow> ''blocked by header phase plugin''))
         else
           (let body_filter_result = run_phase plugins BodyFilter plugin_context
            in if \<not> pr_allowed body_filter_result
               then Some (Simple 403 (case pr_reason body_filter_result of
                      Some r \<Rightarrow> r | None \<Rightarrow> ''blocked by body phase plugin''))
               else (let _ = run_phase plugins Log plugin_context in None)))"

section \<open>Availability of a list of targets\<close>

lemma target_key_inject [simp]: "target_key u a = target_key u b \<longleftrightarrow> a = b"
  by (simp add: target_key_def)

abbreviation admitted :: "runtime_registry \<Rightarrow> string \<Rightarrow> instant \<Rightarrow> bool" where
  "admitted reg key now \<equiv> fst (admit (rr_breaker_cfg reg) now (runtime_of reg key))"

lemma available_targets_frame:
  "snd (available_targets u clock i ts reg) = reg' \<Longrightarrow>
   rr_breaker_cfg reg' = rr_breaker_cfg reg \<and> rr_passive_cfg reg' = rr_passive_cfg reg \<and>
   (key \<notin> target_key u ` ut_id ` set ts \<longrightarrow> runtime_of reg' key = runtime_of reg key)"
  by (induction ts arbitrary: i reg reg') (force simp: is_available_def split_beta Let_def)+

text \<open>
  With distinct target ids every question is about a key of its own: the answers are those of the
  registry as it was before, and the state of every target is advanced, selected or not.
\<close>

lemma available_targets_spec:
  "distinct (map ut_id ts) \<Longrightarrow>
   fst (available_targets u clock i ts reg) =
     map fst (filter (\<lambda>(t, j). admitted reg (target_key u (ut_id t)) (clock j)) (zip ts [i..<i + length ts]))"
proof (induction ts arbitrary: i reg)
  case (Cons t ts)
  let ?reg = "snd (is_available reg (target_key u (ut_id t)) (clock i))"
  have "runtime_of ?reg (target_key u (ut_id s)) = runtime_of reg (target_key u (ut_id s))"
    if "s \<in> set ts" for s
    using that Cons.prems by (auto simp: is_available_def split_beta image_iff)
  moreover have "rr_breaker_cfg ?reg = rr_breaker_cfg reg" by (simp add: is_available_def split_beta)
  ultimately have
    "filter (\<lambda>a. admitted ?reg (target_key u (ut_id (fst a))) (clock (snd a))) (zip ts [Suc i..<Suc i + length ts])
     = filter (\<lambda>a. admitted reg (target_key u (ut_id (fst a))) (clock (snd a))) (zip ts [Suc i..<Suc i + length ts])"
    by (intro filter_cong refl) (auto dest: set_zip_leftD)
  moreover have "[i..<i + length (t # ts)] = i # [Suc i..<Suc i + length ts]" by (simp add: upt_rec)
  ultimately show ?case using Cons by (simp add: split_beta Let_def fst_is_available del: upt_Suc)
qed simp

lemma available_targets_advance:
  "distinct (map ut_id ts) \<Longrightarrow> j < length ts \<Longrightarrow>
   runtime_of (snd (available_targets u clock i ts reg)) (target_key u (ut_id (ts ! j))) =
     snd (admit (rr_breaker_cfg reg) (clock (i + j)) (runtime_of reg (target_key u (ut_id (ts ! j)))))"
proof (induction ts arbitrary: i j reg)
  case (Cons t ts)
  let ?reg = "snd (is_available reg (target_key u (ut_id t)) (clock i))"
  have step: "snd (available_targets u clock i (t # ts) reg) = snd (available_targets u clock (Suc i) ts ?reg)"
    by (simp add: split_beta Let_def)
  show ?case
  proof (cases j)
    case 0
    have "target_key u (ut_id t) \<notin> target_key u ` ut_id ` set ts" using Cons.prems by auto
    then have "runtime_of (snd (available_targets u clock (Suc i) ts ?reg)) (target_key u (ut_id t))
        = runtime_of ?reg (target_key u (ut_id t))"
      using available_targets_frame [OF refl, where key = "target_key u (ut_id t)"] by blast
    then show ?thesis using 0 unfolding step by (simp add: is_available_def split_beta)
  next
    case (Suc l)
    then have "ut_id (ts ! l) \<noteq> ut_id t"
      using Cons.prems nth_eq_iff_index_eq [of "map ut_id (t # ts)" 0 "Suc l"] by auto
    then have "runtime_of ?reg (target_key u (ut_id (ts ! l))) = runtime_of reg (target_key u (ut_id (ts ! l)))"
      "rr_breaker_cfg ?reg = rr_breaker_cfg reg"
      by (simp_all add: is_available_def split_beta)
    then show ?thesis using Cons.IH [of l "Suc i" ?reg] Cons.prems Suc unfolding step by simp
  qed
qed simp

text \<open>The registry after a pick, whatever the pick returned.\<close>

lemma snd_pick_target:
  "snd (pick_target ovf hash up clock key n reg)
   = snd (available_targets (u_name up) clock 0 (u_targets up) reg)"
  by (simp add: pick_target_def split_beta Let_def)

lemma fst_pick_target:
  "fst (pick_target ovf hash up clock key n reg) =
   (if fst (available_targets (u_name up) clock 0 (u_targets up) reg) = [] then Ret None
    else select_target ovf hash (u_strategy up)
      (fst (available_targets (u_name up) clock 0 (u_targets up) reg)) (Some key) n)"
  by (simp add: pick_target_def split_beta Let_def)

lemma pick_target_Some:
  assumes "distinct (map ut_id (u_targets up))"
    and "fst (pick_target ovf hash up clock key n reg) = Ret (Some t)"
  obtains j where "j < length (u_targets up)" "u_targets up ! j = t" "0 < ut_weight t"
    "admitted reg (target_key (u_name up) (ut_id t)) (clock j)"
proof -
  from assms(2) have "t \<in> set (fst (available_targets (u_name up) clock 0 (u_targets up) reg))"
    and w: "0 < ut_weight t"
    by (auto simp: fst_pick_target dest: select_target_sound split: if_splits)
  then obtain j where "(t, j) \<in> set (zip (u_targets up) [0..<length (u_targets up)])"
    "admitted reg (target_key (u_name up) (ut_id t)) (clock j)"
    by (auto simp: available_targets_spec [OF assms(1)])
  then show ?thesis using w that by (auto simp: set_zip)
qed

lemma total_weight_available:
  "total_weight (fst (available_targets u clock i ts reg)) \<le> total_weight ts"
proof (induction ts arbitrary: i reg)
  case (Cons t ts)
  show ?case
    using Cons [of "Suc i" "snd (is_available reg (target_key u (ut_id t)) (clock i))"]
    by (simp add: split_beta Let_def)
qed simp

text \<open>Repeated picks, seen from the key of one target.\<close>

lemma pick_target_advance:
  assumes "distinct (map ut_id (u_targets up))" and "j < length (u_targets up)"
  shows "runtime_of (snd (pick_target ovf hash up clock rk n reg)) (target_key (u_name up) (ut_id (u_targets up ! j)))
      = snd (admit (rr_breaker_cfg reg) (clock j)
          (runtime_of reg (target_key (u_name up) (ut_id (u_targets up ! j)))))"
    and "rr_breaker_cfg (snd (pick_target ovf hash up clock rk n reg)) = rr_breaker_cfg reg"
  using available_targets_advance [OF assms, where i = 0] available_targets_frame [OF refl]
  by (simp_all add: snd_pick_target)

lemma picks_half_open:
  assumes "distinct (map ut_id (u_targets up))" and "j < length (u_targets up)"
    and key: "key = target_key (u_name up) (ut_id (u_targets up ! j))"
  shows "tr_active_healthy (runtime_of reg key) \<Longrightarrow> tr_circuit_state (runtime_of reg key) = HalfOpen r \<Longrightarrow>
    unat r \<le> length picks \<Longrightarrow>
    tr_circuit_state (runtime_of (fold (\<lambda>(clock, rk, n) reg. snd (pick_target ovf hash up clock rk n reg)) picks reg) key)
      = HalfOpen 0"
proof (induction picks arbitrary: reg r)
  case Nil
  then show ?case by (simp add: unat_eq_0)
next
  case (Cons p picks)
  obtain clock rk n where p: "p = (clock, rk, n)" by (cases p)
  let ?reg = "snd (pick_target ovf hash up clock rk n reg)"
  have st: "runtime_of ?reg key = snd (admit (rr_breaker_cfg reg) (clock j) (runtime_of reg key))"
    using pick_target_advance(1) [OF assms(1,2)] by (simp add: key)
  show ?case
  proof (cases "r = 0")
    case True
    then have "runtime_of ?reg key = runtime_of reg key" using Cons.prems by (simp add: st admit_def)
    then show ?thesis using Cons.IH [of ?reg r] Cons.prems True by (simp add: p)
  next
    case False
    then have "runtime_of ?reg key = (runtime_of reg key)\<lparr>tr_circuit_state := HalfOpen (r - 1)\<rparr>"
      using Cons.prems by (simp add: st admit_def)
    moreover have "unat (r - 1) \<le> length picks" using Cons.prems False by (simp add: unat_minus_one)
    ultimately show ?thesis using Cons.IH [of ?reg "r - 1"] Cons.prems by (simp add: p)
  qed
qed

lemma picks_exhaust_probes:
  assumes "distinct (map ut_id (u_targets up))" and "j < length (u_targets up)"
    and "key = target_key (u_name up) (ut_id (u_targets up ! j))"
    and "tr_active_healthy (runtime_of reg key)" and "tr_circuit_state (runtime_of reg key) = Open t"
    and "\<forall>(clock, rk, n)\<in>set picks. t + from_millis (cb_open_ms (rr_breaker_cfg reg)) \<le> clock j"
    and "unat (cb_half_open_max_requests (rr_breaker_cfg reg)) < length picks"
  shows "tr_circuit_state (runtime_of
      (fold (\<lambda>(clock, rk, n) reg. snd (pick_target ovf hash up clock rk n reg)) picks reg) key) = HalfOpen 0"
proof (cases picks)
  case Nil
  with assms(7) show ?thesis by simp
next
  case (Cons p rest)
  obtain clock rk n where p: "p = (clock, rk, n)" by (cases p)
  have "from_millis (cb_open_ms (rr_breaker_cfg reg)) \<le> duration_since (clock j) t"
    using assms(6) by (auto simp: Cons p duration_since_def)
  then have "runtime_of (snd (pick_target ovf hash up clock rk n reg)) key =
      (runtime_of reg key)\<lparr>tr_circuit_state := HalfOpen (cb_half_open_max_requests (rr_breaker_cfg reg))\<rparr>"
    using pick_target_advance(1) [OF assms(1,2)] assms(4,5) by (simp add: assms(3) admit_def)
  then show ?thesis
    using picks_half_open [OF assms(1-3), where picks = rest] assms(4,7) by (simp add: Cons p)
qed

section \<open>Header transformation\<close>

text \<open>The values that a list of configured entries gives a name.\<close>

definition entry_values :: "'h http_api \<Rightarrow> header_entries \<Rightarrow> string \<Rightarrow> string list" where
  "entry_values api es n = map snd (filter (\<lambda>e. fst e = n) (List.map_filter (parse_entry api) es))"

text \<open>
  What a transformation makes of a name: a \<open>set\<close> entry wins; else a value that is present and not
  removed stays; else an \<open>add\<close> entry supplies one.
\<close>

definition transformed_value ::
    "'h http_api \<Rightarrow> header_entries \<Rightarrow> header_entries \<Rightarrow> string list \<Rightarrow> string option \<Rightarrow> string \<Rightarrow> string option" where
  "transformed_value api adds sets removes present n =
     (if entry_values api sets n \<noteq> [] then Some (last (entry_values api sets n))
      else if n \<notin> to_ascii_lowercase ` set removes \<and> present \<noteq> None then present
      else if entry_values api adds n \<noteq> [] then Some (hd (entry_values api adds n))
      else None)"

definition last_value :: "string list \<Rightarrow> string option" where
  "last_value vs = (if vs = [] then None else Some (last vs))"

lemma entry_values_snoc:
  "entry_values api (es @ [e]) n =
   entry_values api es n @ (case parse_entry api e of Some (m, v) \<Rightarrow> if m = n then [v] else [] | None \<Rightarrow> [])"
  by (auto simp: entry_values_def map_filter_append List.map_filter_simps split: option.splits)

lemma filter_by_name:
  "filter (\<lambda>e. fst e = n) (filter (\<lambda>(name, v). P name) es) = (if P n then filter (\<lambda>e. fst e = n) es else [])"
  by (induction es) auto

context header_map
begin

lemma vals_fold_add:
  "vals (fold (add_header api) es h) n =
   (if vals h n \<noteq> [] then vals h n else case entry_values api es n of [] \<Rightarrow> [] | v # _ \<Rightarrow> [v])"
proof (induction es rule: rev_induct)
  case Nil
  then show ?case by (simp add: entry_values_def List.map_filter_simps)
next
  case (snoc e es)
  then show ?case
    by (auto simp: add_header_def entry_values_snoc vals_append contains_key
        split: option.splits list.splits)
qed

lemma vals_fold_set:
  "vals (fold (set_header api) es h) n =
   (if entry_values api es n = [] then vals h n else [last (entry_values api es n)])"
proof (induction es rule: rev_induct)
  case Nil
  then show ?case by (simp add: entry_values_def List.map_filter_simps)
next
  case (snoc e es)
  then show ?case by (auto simp: set_header_def entry_values_snoc vals_insert split: option.splits)
qed

text \<open>From a map with at most one value per name, the transformation yields at most one value per name.\<close>

lemma vals_apply_header_transform:
  assumes "vals h n = (case present of None \<Rightarrow> [] | Some v \<Rightarrow> [v])"
  shows "vals (apply_header_transform api h adds sets removes) n =
    (case transformed_value api adds sets removes present n of None \<Rightarrow> [] | Some v \<Rightarrow> [v])"
  using assms
  by (auto simp: apply_header_transform_def Let_def vals_fold_set vals_fold_add vals_fold_remove
      transformed_value_def split: option.splits list.splits)

lemma vals_collapse:
  "vals (fold (\<lambda>(n, v) h. hm_insert api h n v) es (hm_new api)) m =
   (case last_value (map snd (filter (\<lambda>e. fst e = m) es)) of None \<Rightarrow> [] | Some v \<Rightarrow> [v])"
proof -
  have "(case rev vs of [] \<Rightarrow> [] | v # _ \<Rightarrow> [v]) = (case last_value vs of None \<Rightarrow> [] | Some v \<Rightarrow> [v])"
    for vs :: "string list"
    by (cases vs rule: rev_cases) (auto simp: last_value_def)
  then show ?thesis unfolding vals_fold_insert vals_new .
qed

lemma forwardable_values:
  "map snd (filter (\<lambda>e. fst e = n) (forwardable_headers api h)) =
   (if is_hop_by_hop_header n \<or> eq_ignore_ascii_case n ''host'' then [] else vals h n)"
  unfolding forwardable_headers_def filter_by_name by (simp add: vals_iter)

end

section \<open>Buckets and jitter\<close>

lemma fault_jitter_Panic:
  assumes "fault_jitter ovf hash fault client_key n = Panic"
  shows "fi_jitter_ms fault = - 1"
proof (rule ccontr)
  assume "fi_jitter_ms fault \<noteq> - 1"
  then have ne: "fi_jitter_ms fault + 1 \<noteq> 0" by (metis add_diff_cancel_right' diff_0)
  then have "unat (fi_jitter_ms fault) + unat (1 :: u64) < 2 ^ LENGTH(64)"
    using unat_plus_one_nonzero [OF ne] unat_lt_max_word [of "fi_jitter_ms fault + 1"] by simp
  then have "add_chk ovf (fi_jitter_ms fault) 1 = Ret (fi_jitter_ms fault + 1)" by (rule add_chk_no_overflow)
  with assms ne show False by (simp add: fault_jitter_def split: if_splits)
qed

lemma fault_jitter_bound:
  assumes "fault_jitter ovf hash fault client_key n = Ret j"
  shows "j \<le> fi_jitter_ms fault"
proof (cases "fi_jitter_ms fault > 0")
  case True
  with assms have ne: "fi_jitter_ms fault + 1 \<noteq> 0"
    and j: "j = hash [HStr client_key, HUsize n] mod (fi_jitter_ms fault + 1)"
    by (auto simp: fault_jitter_def split: if_splits dest!: add_chk_Ret)
  have "unat j < unat (fi_jitter_ms fault + 1)" using ne by (simp add: j unat_mod unat_gt_0)
  then show ?thesis using unat_plus_one_nonzero [OF ne] by (simp add: word_le_nat_alt)
qed (use assms in \<open>simp add: fault_jitter_def\<close>)

lemma percentage_bucket_less:
  "deterministic_percentage_bucket hash name client_key n < (ucast (p :: u8) :: u64) \<longleftrightarrow>
   unat (hash [HStr name, HStr client_key, HUsize n]) mod 100 < unat p"
  by (simp add: deterministic_percentage_bucket_def word_less_nat_alt unat_mod unat_u64_ucast_u8)

section \<open>Properties\<close>

text \<open>
  C16. A pick is an available target, and only exhaustion yields none.  With distinct target ids, if
  no other task comes between:
  a target that \<open>pick_target\<close> returns is configured, has a positive weight and is one that the
  registry admits at the instant it was asked about; and if some target with a positive weight is
  admitted and the weights of the upstream sum to less than \<open>2 ^ 32\<close>, a target is returned.
\<close>

theorem pick_target_available:
  assumes "distinct (map ut_id (u_targets up))"
  shows "(\<forall>t. fst (pick_target ovf hash up clock key n reg) = Ret (Some t) \<longrightarrow>
       (\<exists>j < length (u_targets up). u_targets up ! j = t \<and> 0 < ut_weight t \<and>
          fst (is_available reg (target_key (u_name up) (ut_id t)) (clock j)))) \<and>
     (total_weight (u_targets up) < 2 ^ 32 \<longrightarrow>
      (\<exists>j < length (u_targets up). 0 < ut_weight (u_targets up ! j) \<and>
          fst (is_available reg (target_key (u_name up) (ut_id (u_targets up ! j))) (clock j))) \<longrightarrow>
      (\<exists>t. fst (pick_target ovf hash up clock key n reg) = Ret (Some t)))"
proof (rule conjI; intro allI impI)
  fix t assume "fst (pick_target ovf hash up clock key n reg) = Ret (Some t)"
  with assms show "\<exists>j < length (u_targets up). u_targets up ! j = t \<and> 0 < ut_weight t \<and>
      fst (is_available reg (target_key (u_name up) (ut_id t)) (clock j))"
    by (elim pick_target_Some) (auto simp: fst_is_available)
next
  let ?ts = "u_targets up" and ?avail = "fst (available_targets (u_name up) clock 0 (u_targets up) reg)"
  assume total: "total_weight ?ts < 2 ^ 32"
    and "\<exists>j < length ?ts. 0 < ut_weight (?ts ! j) \<and>
          fst (is_available reg (target_key (u_name up) (ut_id (?ts ! j))) (clock j))"
  then obtain j where j: "j < length ?ts" "0 < ut_weight (?ts ! j)"
    "admitted reg (target_key (u_name up) (ut_id (?ts ! j))) (clock j)"
    by (auto simp: fst_is_available)
  then have "(?ts ! j, j) \<in> set (zip ?ts [0..<length ?ts])" by (auto simp: in_set_zip)
  with j have mem: "?ts ! j \<in> set ?avail"
    by (force simp: available_targets_spec [OF assms])
  have "total_weight ?avail \<le> total_weight ?ts"
    by (rule total_weight_available)
  with total have "total_weight ?avail < 2 ^ 32" by linarith
  with mem j show "\<exists>t. fst (pick_target ovf hash up clock key n reg) = Ret (Some t)"
    using select_target_complete [of ?avail "u_strategy up" "Some key" ovf hash n]
    by (auto simp: fst_pick_target)
qed

definition sample_clock :: "nat \<Rightarrow> instant" where
  "sample_clock i = 1000 + i"

theorem pick_target_available_witness:
  "\<exists>t. fst (pick_target True (\<lambda>_. 0) sample_upstream sample_clock ''k'' 0
      (registry_new default_passive_health_check default_circuit_breaker)) = Ret (Some t)"
proof -
  let ?reg = "registry_new default_passive_health_check default_circuit_breaker"
  have "\<exists>j < length (u_targets sample_upstream). 0 < ut_weight (u_targets sample_upstream ! j) \<and>
      fst (is_available ?reg (target_key (u_name sample_upstream) (ut_id (u_targets sample_upstream ! j))) (sample_clock j))"
    by (intro exI [of _ 0]) (simp add: sample_upstream_def sample_targets_def fst_is_available admit_def
        default_target_runtime_def)
  moreover have "distinct (map ut_id (u_targets sample_upstream))"
    "total_weight (u_targets sample_upstream) < 2 ^ 32"
    by (simp_all add: sample_upstream_def sample_targets_def)
  ultimately show ?thesis using pick_target_available by blast
qed

text \<open>
  A recovering target loses its probes to picks that do not select it.  \<open>pick_target\<close> asks about
  every target, and every question spends a probe.  If a target is actively healthy and its circuit
  has been open long enough, then after \<open>half_open_max_requests + 1\<close> picks of any keys and counts,
  whichever targets they selected, the target is never available again until an outcome is recorded
  for it; so if none of those picks selected it, it is lost for good.
\<close>

lemma unselected_probes_lost:
  assumes "distinct (map ut_id (u_targets up))" and "j < length (u_targets up)"
    and "key = target_key (u_name up) (ut_id (u_targets up ! j))"
    and "tr_active_healthy (runtime_of reg key)" and "tr_circuit_state (runtime_of reg key) = Open t"
    and "\<forall>(clock, rk, n)\<in>set picks. t + from_millis (cb_open_ms (rr_breaker_cfg reg)) \<le> clock j"
    and "unat (cb_half_open_max_requests (rr_breaker_cfg reg)) < length picks"
    and "\<forall>e\<in>set es. event_key e = key \<longrightarrow> no_outcome e"
  shows "True \<notin> set (answers key es
    (fold (\<lambda>(clock, rk, n) reg. snd (pick_target ovf hash up clock rk n reg)) picks reg))"
proof (rule ejection.answers_False [OF _ refl refl])
  show "ejected (runtime_of
      (fold (\<lambda>(clock, rk, n) reg. snd (pick_target ovf hash up clock rk n reg)) picks reg) key)"
    using picks_exhaust_probes [OF assms(1-7)] by (simp add: ejected_def)
qed (fact assms(8))

lemma unselected_probes_lost_example:
  "True \<notin> set (answers ''svc-b:a''
     [IsAvailable ''svc-b:a'' 3000000, SetActiveHealth ''svc-b:a'' True, IsAvailable ''svc-b:a'' 9000000000]
     (fold (\<lambda>(clock, rk, n) reg. snd (pick_target True (\<lambda>_. 0) sample_upstream clock rk n reg))
       [(\<lambda>i. 2000000 + i, ''k'', 1), (\<lambda>i. 2500000 + i, ''k'', 2)]
       (record_failure test_registry ''svc-b:a'' 5)))"
  by (rule unselected_probes_lost [where j = 0 and t = 5])
    (simp_all add: sample_upstream_def sample_targets_def target_key_def test_registry_failed
      from_millis_def no_outcome_def)

text \<open>
  C30. The forwarded request headers, exactly.  Each name is sent at most once.  Its value is the last
  configured \<open>set\<close> value; without one, the last value of the request, unless the name is removed, is
  a hop-by-hop header or is \<open>host\<close>; without that, the first configured \<open>add\<close> value.  A name with
  none of these is not sent.  (Configured entries count if the \<open>http\<close> crate accepts them.)
\<close>

theorem request_headers_exact:
  assumes "header_map api vals"
  shows "distinct (map fst (transform_request_headers api headers tr)) \<and>
    ((n, v) \<in> set (transform_request_headers api headers tr) \<longleftrightarrow>
      transformed_value api (rt_add_headers tr) (rt_set_headers tr) (rt_remove_headers tr)
        (if is_hop_by_hop_header n \<or> eq_ignore_ascii_case n ''host'' then None
         else last_value (vals headers n)) n = Some v)"
proof -
  let ?h = "fold (\<lambda>(name, v) h. hm_insert api h name v) (forwardable_headers api headers) (hm_new api)"
  let ?t = "apply_header_transform api ?h (rt_add_headers tr) (rt_set_headers tr) (rt_remove_headers tr)"
  let ?f = "\<lambda>(name, v). map_option (\<lambda>n. (n, v)) name"
  let ?present = "if is_hop_by_hop_header n \<or> eq_ignore_ascii_case n ''host'' then None
      else last_value (vals headers n)"
  have out: "transform_request_headers api headers tr = List.map_filter ?f (hm_into_iter api ?t)"
    by (simp add: transform_request_headers_def Let_def)
  have "map fst (List.map_filter ?f xs) = List.map_filter fst xs" for xs :: "(string option \<times> string) list"
    by (induction xs) (auto simp: List.map_filter_simps split: option.splits)
  then have "distinct (map fst (transform_request_headers api headers tr))"
    using header_map.into_iter_once [OF assms] by (simp add: out)
  moreover have "(n, v) \<in> set (transform_request_headers api headers tr) \<longleftrightarrow>
      (Some n, v) \<in> set (hm_into_iter api ?t)"
    by (force simp: out List.map_filter_def split: option.splits)
  moreover have "vals ?h n = (case ?present of None \<Rightarrow> [] | Some v \<Rightarrow> [v])"
    by (simp add: header_map.vals_collapse [OF assms] header_map.forwardable_values [OF assms] last_value_def)
  ultimately show ?thesis
    using header_map.vals_apply_header_transform [OF assms] header_map.into_iter_first [OF assms]
    by (simp split: option.splits)
qed

theorem request_headers_exact_witness:
  "(''x-trace'', ''2'') \<in> set (transform_request_headers ref_api
     [(''x-trace'', ''1''), (''x-trace'', ''2''), (''connection'', ''close'')] default_request_transform)"
  using request_headers_exact [OF ref_map.header_map_axioms, of
      "[(''x-trace'', ''1''), (''x-trace'', ''2''), (''connection'', ''close'')]"
      default_request_transform "''x-trace''" "''2''"]
  by (simp add: default_request_transform_def) code_simp

text \<open>
  C31. The response headers, exactly.  No hop-by-hop header is in the response.  Every other name
  occurs at most once; its value is the configured \<open>set\<close> value, else the last value of the upstream's
  response unless the name is removed, else the configured \<open>add\<close> value.  So of several values of one
  name in the upstream's response, such as several cookies being set, only the last survives.
\<close>

theorem response_headers_exact:
  assumes "header_map api vals"
  shows "map snd (filter (\<lambda>e. fst e = n) (response_headers api (transform_response_headers api headers tr))) =
    (if is_hop_by_hop_header n then []
     else case transformed_value api (rst_add_headers tr) (rst_set_headers tr) (rst_remove_headers tr)
            (last_value (vals headers n)) n of None \<Rightarrow> [] | Some v \<Rightarrow> [v])"
proof -
  let ?h = "fold (\<lambda>(name, v) h. hm_insert api h name v) (hm_iter api headers) (hm_new api)"
  have "vals ?h n = (case last_value (vals headers n) of None \<Rightarrow> [] | Some v \<Rightarrow> [v])"
    by (simp add: header_map.vals_collapse [OF assms] header_map.vals_iter [OF assms])
  from header_map.vals_apply_header_transform [OF assms this]
  show ?thesis
    unfolding response_headers_def filter_by_name
    by (simp add: header_map.vals_iter [OF assms] transform_response_headers_def Let_def)
qed

theorem response_headers_exact_witness:
  "map snd (filter (\<lambda>e. fst e = ''set-cookie'') (response_headers ref_api (transform_response_headers ref_api
     [(''set-cookie'', ''a=1''), (''set-cookie'', ''b=2'')] default_response_transform))) = [''b=2'']"
  unfolding response_headers_exact [OF ref_map.header_map_axioms]
  by code_simp

text \<open>
  The canary split.  A request goes to the canary upstream exactly when one is configured and
  either its header matches or the hash bucket of route, client and request count, a number below
  100, is below the percentage; otherwise it goes to the upstream of the route.
\<close>

lemma canary_selection:
  "select_upstream_name api hash r headers client_key n =
   (case ts_canary_upstream (r_traffic_split r) of
      None \<Rightarrow> r_upstream r
    | Some canary \<Rightarrow>
        if force_canary api (r_traffic_split r) headers \<or>
           unat (hash [HStr (r_name r), HStr client_key, HUsize n]) mod 100
             < unat (ts_canary_percentage (r_traffic_split r))
        then canary else r_upstream r)"
  by (auto simp: select_upstream_name_def Let_def percentage_bucket_less split: option.splits)

text \<open>
  Fault injection stays within its bounds.  It never delays or aborts when it is disabled or the
  bucket is at or above the probability; otherwise the delay is at least the configured delay and at
  most delay plus jitter (capped at \<open>u64::MAX\<close>), and it aborts exactly if a status is configured.  It
  panics only for the jitter \<open>u64::MAX\<close>.
\<close>

lemma fault_injection_bounds:
  "case maybe_apply_fault_injection api ovf hash fault client_key n of
     Panic \<Rightarrow> fi_enabled fault \<and> fi_jitter_ms fault = - 1
   | Ret (delay, resp) \<Rightarrow>
       if fi_enabled fault \<and> unat (hash [HStr ''fault-injection'', HStr client_key, HUsize n]) mod 100
            < unat (fi_probability_percent fault)
       then fi_delay_ms fault \<le> delay \<and>
         unat delay \<le> unat (fi_delay_ms fault) + unat (fi_jitter_ms fault) \<and>
         (resp = None \<longleftrightarrow> fi_abort_status fault = None)
       else delay = 0 \<and> resp = None"
proof (cases "fault_jitter ovf hash fault client_key n")
  case Panic
  then show ?thesis
    using fault_jitter_Panic [OF Panic]
    by (auto simp: maybe_apply_fault_injection_def percentage_bucket_less)
next
  case (Ret jitter)
  from fault_jitter_bound [OF Ret] have "unat (sat_add (fi_delay_ms fault) jitter)
      \<le> unat (fi_delay_ms fault) + unat (fi_jitter_ms fault)"
    by (simp add: unat_sat_add word_le_nat_alt)
  with Ret show ?thesis
    by (auto simp: maybe_apply_fault_injection_def percentage_bucket_less sat_add_ge Let_def
        split: option.splits)
qed

end
