(* ===== verification/Task.thy ===== *)
theory Task
  imports Prelude
begin

text \<open>
  Concurrent tasks over a shared state, for the handlers and tasks of \<open>main.rs\<close>.

  A task is a program whose atomic operations (an atomic instruction, or a section under a mutex)
  are the nodes of a tree: \<open>Op f k\<close> performs \<open>f\<close> on the shared state at the moment it is scheduled,
  which also yields the event that describes the operation and its answer, and continues with
  \<open>k\<close> of the state it found.  Other tasks may run before every operation, so a history of a task
  lists the state each of its operations found, the event, and the state it left, and the state an
  operation finds is not related to the one left by the operation before.

  The theory has the histories (\<open>run\<close>), the run without interruption (\<open>alone\<close>), the possible results,
  a bound on the number of operations, and weakest preconditions over the events so far, each with
  its rule for sequential composition.
\<close>

section \<open>Programs\<close>

datatype ('s, 'e, 'a) task = Done 'a | Op "'s \<Rightarrow> 'e \<times> 's" "'s \<Rightarrow> ('s, 'e, 'a) task"

primrec andthen :: "('s, 'e, 'a) task \<Rightarrow> ('a \<Rightarrow> ('s, 'e, 'b) task) \<Rightarrow> ('s, 'e, 'b) task" where
  "andthen (Done a) g = g a"
| "andthen (Op f k) g = Op f (\<lambda>s. andthen (k s) g)"

lemma andthen_Done [simp]: "andthen p Done = p"
  by (induction p) simp_all

lemma andthen_assoc: "andthen (andthen p g) h = andthen p (\<lambda>a. andthen (g a) h)"
  by (induction p) simp_all

section \<open>Histories\<close>

type_synonym ('s, 'e) history = "('s \<times> 'e \<times> 's) list"

inductive run :: "('s, 'e, 'a) task \<Rightarrow> ('s, 'e) history \<Rightarrow> ('s, 'e, 'a) task \<Rightarrow> bool" where
  stop: "run p [] p"
| step: "run (k s) h q \<Longrightarrow> run (Op f k) ((s, f s) # h) q"

inductive_simps run_Done [simp]: "run (Done a) h q"
inductive_simps run_Op: "run (Op f k) h q"
inductive_simps run_Nil [simp]: "run p [] q"
inductive_simps run_Cons: "run p (x # h) q"

definition events :: "('s, 'e) history \<Rightarrow> 'e list" where
  "events h = map (fst \<circ> snd) h"

lemma events_simps [simp]:
  "events [] = []" "events ((s, es) # h) = fst es # events h" "events (h @ h') = events h @ events h'"
  "length (events h) = length h"
  by (simp_all add: events_def)

lemma run_append: "run p h q \<Longrightarrow> run q h' r \<Longrightarrow> run p (h @ h') r"
  by (induction rule: run.induct) (auto intro: run.step)

lemma run_split: "run p (h @ h') r \<Longrightarrow> \<exists>q. run p h q \<and> run q h' r"
proof (induction h arbitrary: p)
  case (Cons x h)
  then show ?case by (fastforce simp: run_Cons)
qed auto

lemma run_snoc: "run p h (Op f k) \<Longrightarrow> run p (h @ [(s, f s)]) (k s)"
  by (erule run_append) (auto intro: run.intros)

text \<open>Every history can be continued to a result, whatever states the remaining operations find.\<close>

lemma run_completes: "\<exists>h a. run p h (Done a)"
proof (induction p)
  case (Done a)
  show ?case by auto
next
  case (Op f k)
  have "\<exists>h a. run (k undefined) h (Done a)" using Op by blast
  then show ?case by (blast intro: run.step)
qed

section \<open>Running alone\<close>

primrec alone :: "('s, 'e, 'a) task \<Rightarrow> 's \<Rightarrow> ('s, 'e) history \<times> 'a \<times> 's" where
  "alone (Done a) s = ([], a, s)"
| "alone (Op f k) s = (let (h, a, s') = alone (k s) (snd (f s)) in ((s, f s) # h, a, s'))"

abbreviation "alone_history p s \<equiv> fst (alone p s)"
abbreviation "alone_result p s \<equiv> fst (snd (alone p s))"
abbreviation "alone_state p s \<equiv> snd (snd (alone p s))"

lemma alone_simps [simp]:
  "alone_history (Op f k) s = (s, f s) # alone_history (k s) (snd (f s))"
  "alone_result (Op f k) s = alone_result (k s) (snd (f s))"
  "alone_state (Op f k) s = alone_state (k s) (snd (f s))"
  by (simp_all add: split_beta Let_def)

declare alone.simps(2) [simp del]

lemma run_alone: "run p (alone_history p s) (Done (alone_result p s))"
  by (induction p arbitrary: s) (auto intro: run.intros)

lemma alone_andthen [simp]:
  "alone_history (andthen p g) s = alone_history p s @ alone_history (g (alone_result p s)) (alone_state p s)"
  "alone_result (andthen p g) s = alone_result (g (alone_result p s)) (alone_state p s)"
  "alone_state (andthen p g) s = alone_state (g (alone_result p s)) (alone_state p s)"
  by (induction p arbitrary: s) simp_all

section \<open>Results\<close>

primrec results :: "('s, 'e, 'a) task \<Rightarrow> 'a set" where
  "results (Done a) = {a}"
| "results (Op f k) = (\<Union>s. results (k s))"

lemma results_andthen [simp]: "results (andthen p g) = (\<Union>a\<in>results p. results (g a))"
  by (induction p) auto

lemma run_results: "run p h q \<Longrightarrow> results q \<subseteq> results p"
  by (induction rule: run.induct) auto

lemma results_iff: "a \<in> results p \<longleftrightarrow> (\<exists>h. run p h (Done a))"
proof
  show "a \<in> results p \<Longrightarrow> \<exists>h. run p h (Done a)"
  proof (induction p)
    case (Op f k)
    then show ?case by (auto intro: run.step)
  qed simp
  show "\<exists>h. run p h (Done a) \<Longrightarrow> a \<in> results p"
    by (auto dest: run_results)
qed

section \<open>Complete traces\<close>

text \<open>\<open>does p es a\<close>: the task can perform exactly the operations with the events \<open>es\<close> and finish with \<open>a\<close>.\<close>

definition does :: "('s, 'e, 'a) task \<Rightarrow> 'e list \<Rightarrow> 'a \<Rightarrow> bool" where
  "does p es a \<longleftrightarrow> (\<exists>h. run p h (Done a) \<and> events h = es)"

lemma does_Done [simp]: "does (Done b) es a \<longleftrightarrow> es = [] \<and> a = b"
  by (auto simp: does_def)

lemma does_Op [simp]: "does (Op f k) es a \<longleftrightarrow> (\<exists>s es'. es = fst (f s) # es' \<and> does (k s) es' a)"
proof
  assume "does (Op f k) es a"
  then show "\<exists>s es'. es = fst (f s) # es' \<and> does (k s) es' a"
    by (auto simp: does_def run_Op) blast
next
  assume "\<exists>s es'. es = fst (f s) # es' \<and> does (k s) es' a"
  then obtain s h where "es = fst (f s) # events h" "run (k s) h (Done a)" by (auto simp: does_def)
  then show "does (Op f k) es a"
    unfolding does_def by (intro exI [of _ "(s, f s) # h"]) (auto intro: run.step)
qed

lemma does_andthen:
  "does (andthen p g) es b \<longleftrightarrow> (\<exists>es1 es2 a. es = es1 @ es2 \<and> does p es1 a \<and> does (g a) es2 b)"
proof (induction p arbitrary: es)
  case (Op f k)
  then show ?case by (simp (no_asm_simp)) (metis append_Cons)
qed simp

section \<open>Number of operations\<close>

primrec ops_within :: "('s, 'e, 'a) task \<Rightarrow> nat \<Rightarrow> bool" where
  "ops_within (Done a) n \<longleftrightarrow> True"
| "ops_within (Op f k) n \<longleftrightarrow> 0 < n \<and> (\<forall>s. ops_within (k s) (n - 1))"

lemma ops_within_mono: "ops_within p m \<Longrightarrow> m \<le> n \<Longrightarrow> ops_within p n"
proof (induction p arbitrary: m n)
  case (Op f k)
  then have "ops_within (k s) (n - 1)" for s by (meson diff_le_mono ops_within.simps(2) rangeI)
  with Op.prems show ?case by auto
qed simp

lemma ops_within_andthen:
  assumes "ops_within p m" and "\<And>a. a \<in> results p \<Longrightarrow> ops_within (g a) n" and "m + n \<le> b"
  shows "ops_within (andthen p g) b"
proof -
  have "ops_within (andthen p g) (m + n)" using assms(1,2)
  proof (induction p arbitrary: m)
    case (Done a)
    then show ?case by (auto intro: ops_within_mono)
  next
    case (Op f k)
    have "ops_within (andthen (k s) g) (m - 1 + n)" for s
      using Op.IH [of "k s" "m - 1"] Op.prems by auto
    with Op.prems(1) show ?case by simp
  qed
  with assms(3) show ?thesis by (rule ops_within_mono [rotated])
qed

lemma run_within: "run p h q \<Longrightarrow> ops_within p n \<Longrightarrow> length h \<le> n"
  by (induction arbitrary: n rule: run.induct) fastforce+

section \<open>Guarantees\<close>

text \<open>Every operation satisfies \<open>G\<close>, whatever state it finds.\<close>

primrec always :: "('s \<Rightarrow> 'e \<Rightarrow> 's \<Rightarrow> bool) \<Rightarrow> ('s, 'e, 'a) task \<Rightarrow> bool" where
  "always G (Done a) \<longleftrightarrow> True"
| "always G (Op f k) \<longleftrightarrow> (\<forall>s. G s (fst (f s)) (snd (f s)) \<and> always G (k s))"

lemma always_andthen: "always G p \<Longrightarrow> (\<And>a. a \<in> results p \<Longrightarrow> always G (g a)) \<Longrightarrow> always G (andthen p g)"
  by (induction p) auto

lemma always_mono: "always G p \<Longrightarrow> (\<And>s e s'. G s e s' \<Longrightarrow> G' s e s') \<Longrightarrow> always G' p"
  by (induction p) auto

lemma always_run: "run p h q \<Longrightarrow> always G p \<Longrightarrow> always G q \<and> (\<forall>(s, e, s')\<in>set h. G s e s')"
  by (induction rule: run.induct) (auto simp: split_beta)

lemma always_events: "run p h q \<Longrightarrow> always (\<lambda>_ e _. E e) p \<Longrightarrow> list_all E (events h)"
  by (drule (1) always_run) (auto simp: list_all_iff events_def split_beta)

section \<open>Weakest preconditions\<close>

text \<open>
  \<open>wp G p Q past\<close>: started after the events \<open>past\<close>, every operation of the task satisfies \<open>G\<close>, given
  the events before it, the state it finds, its event and the state it leaves; and if it
  finishes, \<open>Q\<close> holds of the result and all events.
\<close>

type_synonym ('s, 'e) guarantee = "'e list \<Rightarrow> 's \<Rightarrow> 'e \<Rightarrow> 's \<Rightarrow> bool"

primrec wp :: "('s, 'e) guarantee \<Rightarrow> ('s, 'e, 'a) task \<Rightarrow> ('a \<Rightarrow> 'e list \<Rightarrow> bool) \<Rightarrow> 'e list \<Rightarrow> bool" where
  "wp G (Done a) Q past \<longleftrightarrow> Q a past"
| "wp G (Op f k) Q past \<longleftrightarrow>
     (\<forall>s. G past s (fst (f s)) (snd (f s)) \<and> wp G (k s) Q (past @ [fst (f s)]))"

lemma wp_andthen [simp]: "wp G (andthen p g) Q past \<longleftrightarrow> wp G p (\<lambda>a. wp G (g a) Q) past"
  by (induction p arbitrary: past) simp_all

lemma wp_mono:
  assumes "wp G p Q past"
    and "\<And>past s e s'. G past s e s' \<Longrightarrow> G' past s e s'"
    and "\<And>a past. a \<in> results p \<Longrightarrow> Q a past \<Longrightarrow> Q' a past"
  shows "wp G' p Q' past"
  using assms(1,3)
proof (induction p arbitrary: past)
  case (Op f k)
  have "wp G' (k s) Q' (past @ [fst (f s)])" for s
    using Op.prems by (intro Op.IH) auto
  with Op.prems(1) assms(2) show ?case by simp
qed simp

lemma wp_conj: "wp G p Q past \<Longrightarrow> wp G' p Q' past \<Longrightarrow>
    wp (\<lambda>past s e s'. G past s e s' \<and> G' past s e s') p (\<lambda>a past. Q a past \<and> Q' a past) past"
  by (induction p arbitrary: past) auto

lemma wp_always: "always G p \<Longrightarrow> wp (\<lambda>_. G) p (\<lambda>_ _. True) past"
  by (induction p arbitrary: past) auto

text \<open>What all operations satisfy by themselves also holds of all events added.\<close>

lemma wp_added:
  assumes "wp G p Q past" and "\<And>past s e s'. G past s e s' \<Longrightarrow> I e"
  shows "wp G p (\<lambda>a past'. Q a past' \<and> (\<exists>new. past' = past @ new \<and> list_all I new)) past"
  using assms(1)
proof (induction p arbitrary: past)
  case (Op f k)
  have "wp G (k s) (\<lambda>a past'. Q a past' \<and> (\<exists>new. past' = past @ new \<and> list_all I new)) (past @ [fst (f s)])" for s
  proof (rule wp_mono)
    have "wp G (k s) Q (past @ [fst (f s)])" using Op.prems by simp
    with Op.IH [of "k s"] show "wp G (k s) (\<lambda>a past'. Q a past' \<and>
        (\<exists>new. past' = (past @ [fst (f s)]) @ new \<and> list_all I new)) (past @ [fst (f s)])" by blast
    have "I (fst (f s))" using Op.prems assms(2) [of past s "fst (f s)" "snd (f s)"] by simp
    then show "Q a past' \<and> (\<exists>new. past' = (past @ [fst (f s)]) @ new \<and> list_all I new) \<Longrightarrow>
      Q a past' \<and> (\<exists>new. past' = past @ new \<and> list_all I new)" for a past' by auto
  qed
  with Op.prems show ?case by simp
qed auto

lemma wp_run:
  "run p h q \<Longrightarrow> wp G p Q past \<Longrightarrow> wp G q Q (past @ events h)"
  by (induction arbitrary: past rule: run.induct) fastforce+

text \<open>Every operation of a history satisfies the guarantee, given the events before it.\<close>

lemma wp_guarantee:
  assumes "run p (h @ (s, e, s') # h') q" and "wp G p Q past"
  shows "G (past @ events h) s e s'"
proof -
  obtain r where "run p h r" and r: "run r ((s, e, s') # h') q"
    using run_split [OF assms(1)] by blast
  with assms(2) have "wp G r Q (past @ events h)" by (blast intro: wp_run)
  with r show ?thesis by (auto simp: run_Cons) (metis fst_conv snd_conv)
qed

lemma wp_result: "run p h (Done a) \<Longrightarrow> wp G p Q past \<Longrightarrow> Q a (past @ events h)"
  using wp_run by fastforce

lemma wp_true: "wp (\<lambda>_ _ _ _. True) p (\<lambda>a _. a \<in> results p) past"
proof (induction p arbitrary: past)
  case (Op f k)
  have "wp (\<lambda>_ _ _ _. True) (k s) (\<lambda>a _. a \<in> results (Op f k)) past" for s past
    by (rule wp_mono [OF Op.IH]) auto
  then show ?case by simp
qed simp

lemma wp_results: "wp G p Q past \<Longrightarrow> wp G p (\<lambda>a past'. Q a past' \<and> a \<in> results p) past"
  using wp_conj [OF _ wp_true, of G p Q past] by (auto elim: wp_mono)

section \<open>Loops\<close>

text \<open>
  A task that loops, possibly for ever, is given by the program of each of its rounds, which returns
  whether the task is over.  A configuration is the number of the current round and what is
  left of it.
\<close>

type_synonym ('s, 'e) rounds = "nat \<Rightarrow> ('s, 'e, bool) task"

inductive loop_run :: "('s, 'e) rounds \<Rightarrow> nat \<times> ('s, 'e, bool) task \<Rightarrow> ('s, 'e) history \<Rightarrow>
    nat \<times> ('s, 'e, bool) task \<Rightarrow> bool" for rounds where
  here: "loop_run rounds c [] c"
| operate: "loop_run rounds (n, k s) h c \<Longrightarrow> loop_run rounds (n, Op f k) ((s, f s) # h) c"
| again: "loop_run rounds (Suc n, rounds (Suc n)) h c \<Longrightarrow> loop_run rounds (n, Done False) h c"

lemma loop_run_split:
  "loop_run rounds c (h @ h') c'' \<Longrightarrow> \<exists>c'. loop_run rounds c h c' \<and> loop_run rounds c' h' c''"
proof (induction c "h @ h'" c'' arbitrary: h rule: loop_run.induct)
  case (here c)
  then show ?case by (intro exI [of _ c]) (simp add: loop_run.here)
next
  case (operate n k s h0 c f)
  show ?case
  proof (cases h)
    case Nil
    then show ?thesis using operate.hyps by (auto intro: loop_run.intros)
  next
    case (Cons x h1)
    with operate.hyps(3) have "h0 = h1 @ h'" and x: "x = (s, f s)" by auto
    from operate.hyps(2) [OF this(1)] show ?thesis using Cons x by (blast intro: loop_run.operate)
  qed
next
  case (again n h0 c)
  then show ?case by (blast intro: loop_run.again)
qed

lemma loop_run_over: "loop_run rounds (n, Done True) h c \<Longrightarrow> h = [] \<and> c = (n, Done True)"
  by (auto elim: loop_run.cases)

lemma run_loop: "run p h q \<Longrightarrow> loop_run rounds (n, p) h (n, q)"
  by (induction rule: run.induct) (auto intro: loop_run.intros)

text \<open>An invariant of the configurations and the events so far.\<close>

lemma loop_run_events:
  assumes "loop_run rounds c h c'" and "I c es"
    and "\<And>n f k s es. I (n, Op f k) es \<Longrightarrow> I (n, k s) (es @ [fst (f s)])"
    and "\<And>n es. I (n, Done False) es \<Longrightarrow> I (Suc n, rounds (Suc n)) es"
  shows "I c' (es @ events h)"
  using assms(1,2)
proof (induction arbitrary: es rule: loop_run.induct)
  case (operate n k s h c f)
  from operate.IH [OF assms(3) [OF operate.prems]] show ?case by simp
qed (auto intro: assms(4))

lemma loop_run_invariant:
  assumes "loop_run rounds c h c'" and "I c"
    and "\<And>n f k s. I (n, Op f k) \<Longrightarrow> I (n, k s)" and "\<And>n. I (n, Done False) \<Longrightarrow> I (Suc n, rounds (Suc n))"
  shows "I c'"
  using assms(1) by (rule loop_run_events [where I = "\<lambda>c _. I c"]) (auto intro: assms(2-4))

end
