(* ===== verification/Gateway.thy ===== *)
theory Gateway
  imports Proxy Task
begin

text \<open>
  The request handlers of \<open>main.rs\<close> and the state they work on.

  \<^item> \<open>AppState\<close> is split in its immutable part (\<open>app\<close>: configuration, plugins, and the map from upstream
    names to registries) and the part that requests share (\<open>shared\<close>).  The registries are behind
    \<open>Arc\<close>s, so the map holds addresses and \<open>sh_registries\<close> is the store.
  \<^item> A handler is a task in the sense of \<open>Task\<close> with early returns and panics (\<open>flow\<close>).  Each operation on
    an atomic and each call of the limiter or of a registry (which lock a mutex) is one operation of
    the task, with an \<open>event\<close> that names it and its answer.  Sending a request upstream is an event too.
    Other tasks may run before every one of them, so nothing but a single operation is atomic.
  \<^item> What a handler meets besides the shared state is its environment: the clock, the body of the
    client, the answers of the upstream, and whether the response builder accepts the response.
\<close>

section \<open>State\<close>

record app =
  app_config :: gateway_config
  app_plugins :: "gateway_plugin list"
  app_runtime :: "string \<Rightarrow> nat option"

record shared =
  sh_metrics :: metrics
  sh_limiter :: limit_states
  sh_request_counter :: usize
  sh_draining :: bool
  sh_in_flight :: usize
  sh_registries :: "nat \<Rightarrow> runtime_registry"

definition upstream_registry :: "upstream_config \<Rightarrow> runtime_registry" where
  "upstream_registry u = registry_new (hc_passive (u_health_checks u)) (u_circuit_breaker u)"

text \<open>
  The registries in the order of the configuration, and the map of the names to their addresses; of
  several entries with one name, collecting into the \<open>HashMap\<close> keeps the last.
\<close>

definition build_runtime_registry :: "gateway_config \<Rightarrow> (string \<Rightarrow> nat option) \<times> (nat \<Rightarrow> runtime_registry)" where
  "build_runtime_registry config =
     (map_of (rev (zip (map u_name (gc_upstreams config)) [0..<length (gc_upstreams config)])),
      (\<lambda>i. if i < length (gc_upstreams config) then upstream_registry (gc_upstreams config ! i)
           else registry_new default_passive_health_check default_circuit_breaker))"

definition initial_app :: "gateway_config \<Rightarrow> gateway_plugin list \<Rightarrow> app" where
  "initial_app config plugins =
     \<lparr>app_config = config, app_plugins = plugins, app_runtime = fst (build_runtime_registry config)\<rparr>"

definition initial_shared :: "gateway_config \<Rightarrow> shared" where
  "initial_shared config =
     \<lparr>sh_metrics = default_metrics, sh_limiter = rate_limiter_new, sh_request_counter = 0,
      sh_draining = False, sh_in_flight = 0, sh_registries = snd (build_runtime_registry config)\<rparr>"

text \<open>A request to the upstream, with the key of the target it is sent to.\<close>

record sent =
  se_target :: string
  se_method :: http_method
  se_url :: string
  se_headers :: "(string \<times> string) list"
  se_body :: string

record 'h request =
  rq_client_ip :: string
  rq_method :: http_method
  rq_path :: string
  rq_path_and_query :: "string option"
  rq_version :: http_version
  rq_headers :: 'h

record 'h upstream_response =
  ur_status :: status
  ur_headers :: 'h
  ur_body :: string

record 'h attempt_env =
  at_elapsed :: duration
  at_clock :: "nat \<Rightarrow> instant"
  at_result :: "sent \<Rightarrow> 'h upstream_response res"
  at_failed_at :: instant

record ('h, 'j) gateway_env =
  ge_http :: "'h http_api"
  ge_token :: "'j token_api"
  ge_hash :: hasher
  ge_ovf :: bool
  ge_now :: instant
  ge_body :: "usize \<Rightarrow> string res"
  ge_attempt :: "nat \<Rightarrow> 'h attempt_env"
  ge_build_ok :: "status \<Rightarrow> (string \<times> string) list \<Rightarrow> bool"

section \<open>Events and operations\<close>

text \<open>
  \<open>Read_Clock\<close> is the clock that the limiter reads before it takes its lock, \<open>Checked\<close> has the instant and
  the verdict of the limiter or its panic, \<open>Asked\<close> the answer of \<open>is_available\<close> of the
  registry at an address, \<open>Noted\<close> another operation of a registry, \<open>Entered\<close> and \<open>Exited\<close> are the
  constructor and the drop of the in-flight guard.  \<open>Set_Draining\<close> and \<open>Saw_In_Flight\<close> are operations of
  the shutdown.
\<close>

datatype event =
  Bumped metric
| Read_Metric metric u64
| Saw_Draining bool
| Set_Draining
| Saw_In_Flight usize
| Entered
| Exited
| Loaded_Counter usize
| Took_Number usize
| Read_Clock instant
| Checked rate_limit_context instant "bool rust"
| Asked nat string instant bool
| Noted nat registry_event
| Sent sent

datatype 'a flow = Panicked | Return response | Go 'a

type_synonym 'a proc = "(shared, event, 'a flow) task"

definition go :: "'a \<Rightarrow> 'a proc" where
  "go x = Done (Go x)"

definition return :: "response \<Rightarrow> 'a proc" where
  "return r = Done (Return r)"

definition of_rust :: "'a rust \<Rightarrow> 'a proc" where
  "of_rust r = Done (case r of Panic \<Rightarrow> Panicked | Ret x \<Rightarrow> Go x)"

definition seq :: "'a proc \<Rightarrow> ('a \<Rightarrow> 'b proc) \<Rightarrow> 'b proc" where
  "seq m f = andthen m (\<lambda>fl. case fl of Panicked \<Rightarrow> Done Panicked | Return r \<Rightarrow> Done (Return r) | Go x \<Rightarrow> f x)"

text \<open>An operation that only updates the state, and one that answers.\<close>

definition act :: "event \<Rightarrow> (shared \<Rightarrow> shared) \<Rightarrow> unit proc" where
  "act e f = Op (\<lambda>sh. (e, f sh)) (\<lambda>_. Done (Go ()))"

definition query :: "(shared \<Rightarrow> 'a) \<Rightarrow> ('a \<Rightarrow> event) \<Rightarrow> (shared \<Rightarrow> shared) \<Rightarrow> 'a proc" where
  "query ans ev f = Op (\<lambda>sh. (ev (ans sh), f sh)) (\<lambda>sh. Done (Go (ans sh)))"

definition on_registry :: "nat \<Rightarrow> registry_event \<Rightarrow> shared \<Rightarrow> shared" where
  "on_registry addr e sh =
     sh\<lparr>sh_registries := (sh_registries sh)(addr := apply_event e (sh_registries sh addr))\<rparr>"

definition bump :: "metric \<Rightarrow> unit proc" where
  "bump m = act (Bumped m) (\<lambda>sh. sh\<lparr>sh_metrics := inc_metric m (sh_metrics sh)\<rparr>)"

definition load_draining :: "bool proc" where
  "load_draining = query sh_draining Saw_Draining (\<lambda>sh. sh)"

definition load_counter :: "usize proc" where
  "load_counter = query sh_request_counter Loaded_Counter (\<lambda>sh. sh)"

definition fetch_add_counter :: "usize proc" where
  "fetch_add_counter = query sh_request_counter Took_Number
     (\<lambda>sh. sh\<lparr>sh_request_counter := sh_request_counter sh + 1\<rparr>)"

definition note_outcome :: "nat \<Rightarrow> registry_event \<Rightarrow> unit proc" where
  "note_outcome addr e = act (Noted addr e) (on_registry addr e)"

definition ask_available :: "nat \<Rightarrow> string \<Rightarrow> instant \<Rightarrow> bool proc" where
  "ask_available addr key now =
     query (\<lambda>sh. fst (is_available (sh_registries sh addr) key now)) (Asked addr key now)
       (on_registry addr (IsAvailable key now))"

definition send :: "sent \<Rightarrow> unit proc" where
  "send x = act (Sent x) (\<lambda>sh. sh)"

section \<open>Admission\<close>

text \<open>\<open>limiter.check_with_context\<close>; a panic inside leaves the states as they are (the lock recovers).\<close>

definition after_check :: "(bool \<times> limit_states) rust \<Rightarrow> shared \<Rightarrow> shared" where
  "after_check r sh = (case r of Panic \<Rightarrow> sh | Ret (ok, states) \<Rightarrow> sh\<lparr>sh_limiter := states\<rparr>)"

definition verdict :: "(bool \<times> limit_states) rust \<Rightarrow> bool rust" where
  "verdict r = (case r of Panic \<Rightarrow> Panic | Ret (ok, states) \<Rightarrow> Ret ok)"

definition limiter_check ::
    "bool \<Rightarrow> rate_limit_config \<Rightarrow> rate_limit_context \<Rightarrow> instant \<Rightarrow> bool proc" where
  "limiter_check ovf cfg ctx now =
     andthen (Op
       (\<lambda>sh. let r = check_with_context ovf cfg ctx now (sh_limiter sh)
             in (Checked ctx now (verdict r), after_check r sh))
       (\<lambda>sh. Done (verdict (check_with_context ovf cfg ctx now (sh_limiter sh))))) of_rust"

text \<open>An enabled limiter reads the clock first and takes the lock then, so other tasks may come between.\<close>

definition limiter_call ::
    "bool \<Rightarrow> rate_limit_config \<Rightarrow> rate_limit_context \<Rightarrow> instant \<Rightarrow> bool proc" where
  "limiter_call ovf cfg ctx now =
     seq (if rl_enabled cfg then act (Read_Clock now) (\<lambda>sh. sh) else go ()) (\<lambda>_. limiter_check ovf cfg ctx now)"

definition client_key :: "route \<Rightarrow> 'h request \<Rightarrow> string" where
  "client_key r req = r_name r @ '':'' @ rq_client_ip req"

definition limiter_context :: "route \<Rightarrow> 'h request \<Rightarrow> authenticated_identity \<Rightarrow> rate_limit_context" where
  "limiter_context r req identity =
     \<lparr>rc_route = r_name r, rc_service = r_upstream r, rc_consumer = ai_subject identity,
      rc_client = client_key r req\<rparr>"

definition plugin_context_of :: "route \<Rightarrow> 'h request \<Rightarrow> plugin_context" where
  "plugin_context_of r req = \<lparr>px_route = r_name r, px_path = rq_path req\<rparr>"

definition admission :: "app \<Rightarrow> ('h, 'j) gateway_env \<Rightarrow> 'h request \<Rightarrow> route proc" where
  "admission app env req =
     (let cfg = app_config app;
          api = ge_http env;
          protocol = request_protocol api (rq_version req) (rq_headers req)
      in case match_route (gc_routes cfg) (rq_path req) protocol of
        None \<Rightarrow> return (Simple 404 ''no matching route'')
      | Some r \<Rightarrow>
          (let plugin_result = run_phase (app_plugins app) Access (plugin_context_of r req)
           in if \<not> pr_allowed plugin_result
              then seq (bump Unauthorized) (\<lambda>_.
                return (Simple 403 (case pr_reason plugin_result of Some x \<Rightarrow> x | None \<Rightarrow> ''blocked by plugin'')))
              else case authenticate api (ge_token env) (gc_security cfg) (rq_headers req) of
                Inl err \<Rightarrow> seq (bump Unauthorized) (\<lambda>_. return (Simple 401 ''authentication failed''))
              | Inr identity \<Rightarrow>
                  if \<not> authorize (gc_security cfg) (auth_context_of identity (r_name r))
                  then seq (bump Unauthorized) (\<lambda>_. return (Simple 403 ''authorization denied''))
                  else seq (limiter_call (ge_ovf env) (gc_rate_limit cfg) (limiter_context r req identity) (ge_now env))
                    (\<lambda>ok. if \<not> ok
                      then seq (bump Rate_Limited) (\<lambda>_. return (Simple 429 ''rate limit exceeded''))
                      else go r)))"

section \<open>One attempt\<close>

text \<open>Building the response from the upstream's.\<close>

definition respond :: "app \<Rightarrow> ('h, 'j) gateway_env \<Rightarrow> 'h request \<Rightarrow> route \<Rightarrow> 'h upstream_response \<Rightarrow> response" where
  "respond app env req r up =
     (let api = ge_http env;
          transformed = transform_response_headers api (ur_headers up) (tc_response (r_transform r));
          hdrs = response_headers api transformed;
          built = (\<lambda>body. if ge_build_ok env (ur_status up) hdrs then Built (ur_status up) hdrs body
                         else Simple 500 ''failed to build response'')
      in case run_response_plugin_phases (app_plugins app) (plugin_context_of r req) of
           Some blocked_response \<Rightarrow> blocked_response
         | None \<Rightarrow>
             (case rst_body_replace (tc_response (r_transform r)) of
                Some replacement_body \<Rightarrow> built (Replaced replacement_body)
              | None \<Rightarrow> built (Streamed (ur_body up))))"

definition upstream_request ::
    "('h, 'j) gateway_env \<Rightarrow> 'h request \<Rightarrow> route \<Rightarrow> upstream_config \<Rightarrow> string \<Rightarrow> string \<Rightarrow> upstream_target \<Rightarrow> sent" where
  "upstream_request env req r up path_and_query body target =
     \<lparr>se_target = target_key (u_name up) (ut_id target), se_method = rq_method req,
      se_url = ''http://'' @ ut_address target @ path_and_query,
      se_headers = transform_request_headers (ge_http env) (rq_headers req) (tc_request (r_transform r)),
      se_body = (case rt_body_replace (tc_request (r_transform r)) of Some v \<Rightarrow> v | None \<Rightarrow> body)\<rparr>"

text \<open>
  \<open>pick_target\<close>: the registry is locked anew for every target, so other tasks may run between two
  questions of the filter.  The \<open>i\<close>-th question reads the clock at \<open>clock i\<close>.
\<close>

fun ask_targets :: "nat \<Rightarrow> string \<Rightarrow> (nat \<Rightarrow> instant) \<Rightarrow> nat \<Rightarrow> upstream_target list \<Rightarrow> upstream_target list proc" where
  "ask_targets addr upstream clock i [] = go []"
| "ask_targets addr upstream clock i (t # ts) =
     seq (ask_available addr (target_key upstream (ut_id t)) (clock i)) (\<lambda>ok.
     seq (ask_targets addr upstream clock (Suc i) ts) (\<lambda>rest.
       go (if ok then t # rest else rest)))"

definition pick_target_task ::
    "bool \<Rightarrow> hasher \<Rightarrow> upstream_config \<Rightarrow> nat \<Rightarrow> (nat \<Rightarrow> instant) \<Rightarrow> string \<Rightarrow> usize \<Rightarrow>
     upstream_target option proc" where
  "pick_target_task ovf hash upstream addr clock request_key request_count =
     seq (ask_targets addr (u_name upstream) clock 0 (u_targets upstream)) (\<lambda>available_targets.
       if available_targets = [] then go None
       else of_rust (select_target ovf hash (u_strategy upstream) available_targets (Some request_key) request_count))"

text \<open>
  The body of the loop, from the point where a target has been picked: it returns a response or
  continues with the new \<open>last_status\<close>.  Here \<open>path_and_query\<close> and \<open>body\<close> are the transformed path
  and the body of the client.
\<close>

definition send_attempt ::
    "app \<Rightarrow> ('h, 'j) gateway_env \<Rightarrow> 'h request \<Rightarrow> route \<Rightarrow> upstream_config \<Rightarrow> nat \<Rightarrow> string \<Rightarrow> string \<Rightarrow>
     nat \<Rightarrow> nat \<Rightarrow> status option \<Rightarrow> upstream_target \<Rightarrow> status option proc" where
  "send_attempt app env req r up addr path_and_query body max_attempts attempt last_status target =
     (let att = ge_attempt env attempt;
          x = upstream_request env req r up path_and_query body target;
          failed = note_outcome addr (RecordFailure (se_target x) (at_failed_at att))
      in seq (send x) (\<lambda>_.
         case at_result att x of
           Inl err \<Rightarrow>
             seq failed (\<lambda>_. seq (bump Upstream_Failures) (\<lambda>_.
               if attempt < max_attempts then go last_status
               else return (Simple 502 ''upstream request failed'')))
         | Inr resp \<Rightarrow>
             if should_retry_status (ur_status resp) \<and> attempt < max_attempts
             then seq failed (\<lambda>_. go (Some (ur_status resp)))
             else seq (if is_server_error (ge_http env) (ur_status resp) then failed
                       else note_outcome addr (RecordSuccess (se_target x)))
               (\<lambda>_. return (respond app env req r resp))))"

text \<open>The whole body of the loop.\<close>

definition attempt_once ::
    "app \<Rightarrow> ('h, 'j) gateway_env \<Rightarrow> 'h request \<Rightarrow> route \<Rightarrow> upstream_config \<Rightarrow> nat \<Rightarrow> string \<Rightarrow> string \<Rightarrow>
     nat \<Rightarrow> nat \<Rightarrow> status option \<Rightarrow> status option proc" where
  "attempt_once app env req r up addr path_and_query body max_attempts attempt last_status =
     (if from_millis (pr_request_timeout_ms (sv_proxy (gc_server (app_config app))))
         \<le> at_elapsed (ge_attempt env attempt)
      then seq (bump Upstream_Failures) (\<lambda>_. return (Simple 504 ''upstream request timed out''))
      else seq fetch_add_counter (\<lambda>request_count.
        seq (pick_target_task (ge_ovf env) (ge_hash env) up addr (at_clock (ge_attempt env attempt))
              (client_key r req) request_count)
          (\<lambda>picked. case picked of
            None \<Rightarrow> seq (bump Errors) (\<lambda>_. return (Simple 502 ''no healthy upstream target available''))
          | Some target \<Rightarrow>
              send_attempt app env req r up addr path_and_query body max_attempts attempt last_status target)))"

fun attempt_loop ::
    "app \<Rightarrow> ('h, 'j) gateway_env \<Rightarrow> 'h request \<Rightarrow> route \<Rightarrow> upstream_config \<Rightarrow> nat \<Rightarrow> string \<Rightarrow> string \<Rightarrow>
     nat \<Rightarrow> nat list \<Rightarrow> status option \<Rightarrow> status option proc" where
  "attempt_loop app env req r up addr pq body max_attempts [] last_status = go last_status"
| "attempt_loop app env req r up addr pq body max_attempts (attempt # attempts) last_status =
     seq (attempt_once app env req r up addr pq body max_attempts attempt last_status)
       (attempt_loop app env req r up addr pq body max_attempts attempts)"

section \<open>The handler\<close>

definition max_attempts_for :: "retry_config \<Rightarrow> http_method \<Rightarrow> nat" where
  "max_attempts_for cfg m =
     (if should_retry_method m (rc_idempotent_only cfg) (rc_retry_unsafe_methods cfg)
      then unat (max (rc_max_attempts cfg) 1) else 1)"

definition fault_stage :: "('h, 'j) gateway_env \<Rightarrow> 'h request \<Rightarrow> route \<Rightarrow> usize \<Rightarrow> unit proc" where
  "fault_stage env req r request_count =
     seq (of_rust (maybe_apply_fault_injection (ge_http env) (ge_ovf env) (ge_hash env) (r_fault_injection r)
            (client_key r req) request_count))
       (\<lambda>(delay, fault_response).
          case fault_response of Some resp \<Rightarrow> return resp | None \<Rightarrow> go ())"

definition contains :: "string \<Rightarrow> string \<Rightarrow> bool" where
  "contains s p = sublist p s"

definition read_body :: "app \<Rightarrow> ('h, 'j) gateway_env \<Rightarrow> string proc" where
  "read_body app env =
     (case ge_body env (sv_max_request_body_bytes (gc_server (app_config app))) of
         Inr bytes \<Rightarrow> go bytes
       | Inl err \<Rightarrow> seq (bump Errors) (\<lambda>_.
           if contains err ''length limit exceeded'' then return (Simple 413 ''request body too large'')
           else return (Simple 400 ''failed to read request body'')))"

definition original_path_and_query :: "'h request \<Rightarrow> string" where
  "original_path_and_query req = (case rq_path_and_query req of Some v \<Rightarrow> v | None \<Rightarrow> rq_path req)"

definition forward ::
    "app \<Rightarrow> ('h, 'j) gateway_env \<Rightarrow> 'h request \<Rightarrow> route \<Rightarrow> upstream_config \<Rightarrow> nat \<Rightarrow> unit proc" where
  "forward app env req r up addr =
     (let max_attempts = max_attempts_for (pr_retries (sv_proxy (gc_server (app_config app)))) (rq_method req)
      in seq (of_rust (rewrite_path_and_query r (rq_path req) (original_path_and_query req))) (\<lambda>path_and_query.
         seq (read_body app env) (\<lambda>body.
         seq (attempt_loop app env req r up addr path_and_query body max_attempts [1..<Suc max_attempts] None)
           (\<lambda>last_status. case last_status of
              Some s \<Rightarrow> return (Simple s ''upstream retries exhausted'')
            | None \<Rightarrow> return (Simple 502 ''upstream retries exhausted'')))))"

definition proxy_body :: "app \<Rightarrow> ('h, 'j) gateway_env \<Rightarrow> 'h request \<Rightarrow> unit proc" where
  "proxy_body app env req =
     seq (admission app env req) (\<lambda>r.
     seq load_counter (\<lambda>request_count.
     seq (fault_stage env req r request_count) (\<lambda>_.
       let name = select_upstream_name (ge_http env) (ge_hash env) r (rq_headers req) (client_key r req) request_count
       in case find (\<lambda>u. u_name u = name) (gc_upstreams (app_config app)) of
         None \<Rightarrow> seq (bump Errors) (\<lambda>_. return (Simple 502 ''upstream config not found''))
       | Some up \<Rightarrow>
           (case app_runtime app (u_name up) of
              None \<Rightarrow> seq (bump Errors) (\<lambda>_. return (Simple 502 ''runtime state unavailable''))
            | Some addr \<Rightarrow> forward app env req r up addr))))"

text \<open>\<open>InFlightGuard\<close>: the drop runs on every way out of the handler, a panic included.\<close>

definition guard_new :: "unit proc" where
  "guard_new = act Entered (\<lambda>sh. sh\<lparr>sh_in_flight := sh_in_flight sh + 1\<rparr>)"

definition guard_drop :: "unit proc" where
  "guard_drop = act Exited (\<lambda>sh. sh\<lparr>sh_in_flight := sh_in_flight sh - 1\<rparr>)"

definition guarded :: "'a proc \<Rightarrow> 'a proc" where
  "guarded p = seq guard_new (\<lambda>_. andthen p (\<lambda>result. andthen guard_drop (\<lambda>_. Done result)))"

definition proxy_handler :: "app \<Rightarrow> ('h, 'j) gateway_env \<Rightarrow> 'h request \<Rightarrow> unit proc" where
  "proxy_handler app env req =
     seq (bump Requests) (\<lambda>_.
     seq load_draining (\<lambda>draining.
       if draining then return (Simple 503 ''gateway is draining'')
       else guarded (proxy_body app env req)))"

text \<open>
  The two other handlers of the router.  The rendering of the metrics loads the five counters one
  after the other.
\<close>

definition healthz_handler :: "unit proc" where
  "healthz_handler = return (Simple 200 ''ok'')"

definition read_metric :: "metric \<Rightarrow> u64 proc" where
  "read_metric m = query (\<lambda>sh. load_metric m (sh_metrics sh)) (Read_Metric m) (\<lambda>sh. sh)"

definition metrics_handler :: "unit proc" where
  "metrics_handler =
     seq (read_metric Requests) (\<lambda>requests.
     seq (read_metric Errors) (\<lambda>errors.
     seq (read_metric Unauthorized) (\<lambda>unauthorized.
     seq (read_metric Rate_Limited) (\<lambda>rate_limited.
     seq (read_metric Upstream_Failures) (\<lambda>upstream_failures.
       return (Built 200 [(''content-type'', ''text/plain; version=0.0.4; charset=utf-8'')]
         (Replaced (render_prometheus
           \<lparr>total_requests = requests, total_errors = errors, total_unauthorized = unauthorized,
            total_rate_limited = rate_limited, total_upstream_failures = upstream_failures\<rparr>))))))))"

section \<open>Reasoning about handlers\<close>

lemma seq_simps [simp]:
  "seq (go x) f = f x" "seq (return r) f = return r"
  "seq (of_rust q) f = (case q of Panic \<Rightarrow> Done Panicked | Ret x \<Rightarrow> f x)"
  "seq (Op u k) f = Op u (\<lambda>sh. seq (k sh) f)" "seq (Done Panicked) f = Done Panicked"
  "seq (act e g) f1 = Op (\<lambda>sh. (e, g sh)) (\<lambda>_. f1 ())"
  "seq (query ans ev g) f2 = Op (\<lambda>sh. (ev (ans sh), g sh)) (\<lambda>sh. f2 (ans sh))"
  by (simp_all add: seq_def go_def return_def act_def query_def of_rust_def split: rust.splits)

lemma seq_assoc [simp]: "seq (seq m f) g = seq m (\<lambda>x. seq (f x) g)"
  by (auto simp: seq_def andthen_assoc fun_eq_iff split: flow.splits intro!: arg_cong [of _ _ "andthen m"])

lemma results_proc [simp]:
  "results (go x) = {Go x}" "results (return r) = {Return r}" "results (act e f) = {Go ()}"
  "results (query ans ev f) = range (\<lambda>sh. Go (ans sh))"
  "results (of_rust q) = {case q of Panic \<Rightarrow> Panicked | Ret y \<Rightarrow> Go y}"
  by (auto simp: go_def return_def act_def query_def of_rust_def)

lemma results_seq:
  "fl \<in> results (seq m f) \<longleftrightarrow>
   fl = Panicked \<and> Panicked \<in> results m \<or> (\<exists>r. fl = Return r \<and> Return r \<in> results m) \<or>
   (\<exists>x. Go x \<in> results m \<and> fl \<in> results (f x))"
  by (auto simp: seq_def split: flow.splits) (metis flow.exhaust)+

lemma wp_proc [simp]:
  "wp G (go x) Q past \<longleftrightarrow> Q (Go x) past" "wp G (return r) Q past \<longleftrightarrow> Q (Return r) past"
  "wp G (of_rust q) Q past \<longleftrightarrow> Q (case q of Panic \<Rightarrow> Panicked | Ret x \<Rightarrow> Go x) past"
  "wp G (act e f) R past \<longleftrightarrow> (\<forall>sh. G past sh e (f sh)) \<and> R (Go ()) (past @ [e])"
  "wp G (query ans ev f) P past \<longleftrightarrow>
     (\<forall>sh. G past sh (ev (ans sh)) (f sh) \<and> P (Go (ans sh)) (past @ [ev (ans sh)]))"
  by (simp_all add: go_def return_def of_rust_def act_def query_def)

lemma wp_seq [simp]:
  "wp G (seq m f) Q past \<longleftrightarrow> wp G m (\<lambda>fl past'. case fl of
     Panicked \<Rightarrow> Q Panicked past' | Return r \<Rightarrow> Q (Return r) past' | Go x \<Rightarrow> wp G (f x) Q past') past"
proof -
  have "(\<lambda>fl. wp G (case fl of Panicked \<Rightarrow> Done Panicked | Return r \<Rightarrow> Done (Return r) | Go x \<Rightarrow> f x) Q)
    = (\<lambda>fl past'. case fl of Panicked \<Rightarrow> Q Panicked past' | Return r \<Rightarrow> Q (Return r) past' | Go x \<Rightarrow> wp G (f x) Q past')"
    by (auto simp: fun_eq_iff split: flow.splits)
  then show ?thesis by (simp add: seq_def)
qed

lemma always_proc [simp]:
  "always G (go x)" "always G (return r)" "always G (of_rust q)"
  "always G (act e f) \<longleftrightarrow> (\<forall>sh. G sh e (f sh))"
  "always G (query ans ev f) \<longleftrightarrow> (\<forall>sh. G sh (ev (ans sh)) (f sh))"
  by (simp_all add: go_def return_def of_rust_def act_def query_def)

lemma always_seq: "always G m \<Longrightarrow> (\<And>x. Go x \<in> results m \<Longrightarrow> always G (f x)) \<Longrightarrow> always G (seq m f)"
  unfolding seq_def by (rule always_andthen) (auto split: flow.splits)

lemma ops_proc [simp]:
  "ops_within (go x) n" "ops_within (return r) n" "ops_within (of_rust q) n"
  "ops_within (act e f) n \<longleftrightarrow> 0 < n" "ops_within (query ans ev f) n \<longleftrightarrow> 0 < n"
  by (simp_all add: go_def return_def of_rust_def act_def query_def)

lemma ops_seq:
  "ops_within m a \<Longrightarrow> (\<And>x. Go x \<in> results m \<Longrightarrow> ops_within (f x) b) \<Longrightarrow> a + b \<le> n \<Longrightarrow> ops_within (seq m f) n"
  unfolding seq_def by (rule ops_within_andthen) (auto split: flow.splits)

lemma alone_proc [simp]:
  "alone (go x) sh = ([], Go x, sh)" "alone (return r) sh = ([], Return r, sh)"
  "alone (act e f) sh = ([(sh, e, f sh)], Go (), f sh)"
  "alone (query ans ev f) sh = ([(sh, ev (ans sh), f sh)], Go (ans sh), f sh)"
  "alone (of_rust q) sh = ([], case q of Panic \<Rightarrow> Panicked | Ret x \<Rightarrow> Go x, sh)"
  by (simp_all add: go_def return_def act_def query_def of_rust_def alone.simps)

lemmas operation_defs = bump_def load_draining_def load_counter_def fetch_add_counter_def note_outcome_def
  ask_available_def send_def guard_new_def guard_drop_def read_metric_def

lemma limiter_check_simps [simp]:
  "seq (limiter_check ovf cfg ctx now) f =
     Op (\<lambda>sh. let r = check_with_context ovf cfg ctx now (sh_limiter sh)
            in (Checked ctx now (verdict r), after_check r sh))
       (\<lambda>sh. case verdict (check_with_context ovf cfg ctx now (sh_limiter sh)) of
          Panic \<Rightarrow> Done Panicked | Ret ok \<Rightarrow> f ok)"
  by (auto simp: limiter_check_def seq_def of_rust_def fun_eq_iff split: rust.splits)

lemma limiter_call_simps [simp]:
  "seq (limiter_call ovf cfg ctx now) f =
     (if rl_enabled cfg then Op (\<lambda>sh. (Read_Clock now, sh)) (\<lambda>_. seq (limiter_check ovf cfg ctx now) f)
      else seq (limiter_check ovf cfg ctx now) f)"
  by (simp add: limiter_call_def del: limiter_check_simps)

lemma guarded_alt:
  "guarded p = Op (\<lambda>sh. (Entered, sh\<lparr>sh_in_flight := sh_in_flight sh + 1\<rparr>)) (\<lambda>_. andthen p (\<lambda>result.
     Op (\<lambda>sh. (Exited, sh\<lparr>sh_in_flight := sh_in_flight sh - 1\<rparr>)) (\<lambda>_. Done result)))"
  by (simp add: guarded_def guard_new_def guard_drop_def act_def seq_def)

lemma wp_guarded:
  "wp G (guarded p) Q past \<longleftrightarrow>
   (\<forall>sh. G past sh Entered (sh\<lparr>sh_in_flight := sh_in_flight sh + 1\<rparr>)) \<and>
   wp G p (\<lambda>result past'. (\<forall>sh. G past' sh Exited (sh\<lparr>sh_in_flight := sh_in_flight sh - 1\<rparr>)) \<and>
     Q result (past' @ [Exited])) (past @ [Entered])"
proof -
  have "(\<lambda>result. wp G (Op (\<lambda>sh. (Exited, sh\<lparr>sh_in_flight := sh_in_flight sh - 1\<rparr>)) (\<lambda>_. Done result)) Q)
    = (\<lambda>result past'. (\<forall>sh. G past' sh Exited (sh\<lparr>sh_in_flight := sh_in_flight sh - 1\<rparr>)) \<and> Q result (past' @ [Exited]))"
    by (simp add: fun_eq_iff)
  then show ?thesis by (simp add: guarded_alt del: wp.simps(2) add: wp.simps(2) [of _ _ "\<lambda>_. andthen p g" for g])
qed

section \<open>Single operations\<close>

text \<open>
  What one operation of any task does to the shared state, by its event.  The answers in the events
  are those of the state the operation finds.
\<close>

inductive shared_step :: "bool \<Rightarrow> app \<Rightarrow> shared \<Rightarrow> event \<Rightarrow> shared \<Rightarrow> bool" for ovf app where
  bumped: "shared_step ovf app sh (Bumped m) (sh\<lparr>sh_metrics := inc_metric m (sh_metrics sh)\<rparr>)"
| read: "v = load_metric m (sh_metrics sh) \<Longrightarrow> shared_step ovf app sh (Read_Metric m v) sh"
| saw_draining: "b = sh_draining sh \<Longrightarrow> shared_step ovf app sh (Saw_Draining b) sh"
| set_draining: "shared_step ovf app sh Set_Draining (sh\<lparr>sh_draining := True\<rparr>)"
| saw_in_flight: "n = sh_in_flight sh \<Longrightarrow> shared_step ovf app sh (Saw_In_Flight n) sh"
| entered: "shared_step ovf app sh Entered (sh\<lparr>sh_in_flight := sh_in_flight sh + 1\<rparr>)"
| left: "shared_step ovf app sh Exited (sh\<lparr>sh_in_flight := sh_in_flight sh - 1\<rparr>)"
| loaded: "n = sh_request_counter sh \<Longrightarrow> shared_step ovf app sh (Loaded_Counter n) sh"
| took: "n = sh_request_counter sh \<Longrightarrow>
    shared_step ovf app sh (Took_Number n) (sh\<lparr>sh_request_counter := sh_request_counter sh + 1\<rparr>)"
| read_clock: "shared_step ovf app sh (Read_Clock now) sh"
| checked: "r = check_with_context ovf (gc_rate_limit (app_config app)) ctx now (sh_limiter sh) \<Longrightarrow>
    v = verdict r \<Longrightarrow> shared_step ovf app sh (Checked ctx now v) (after_check r sh)"
| asked: "ok = fst (is_available (sh_registries sh addr) key now) \<Longrightarrow>
    shared_step ovf app sh (Asked addr key now ok) (on_registry addr (IsAvailable key now) sh)"
| noted: "shared_step ovf app sh (Noted addr e) (on_registry addr e sh)"
| sent: "shared_step ovf app sh (Sent x) sh"

inductive_cases shared_step_cases: "shared_step ovf app sh e sh'"

text \<open>
  The events of a handler between the constructor and the drop of its guard.  The body of the handler
  consists of operations with such events.
\<close>

fun body_event :: "event \<Rightarrow> bool" where
  "body_event (Bumped m) \<longleftrightarrow> m \<noteq> Requests"
| "body_event (Read_Metric m v) \<longleftrightarrow> False"
| "body_event (Saw_Draining b) \<longleftrightarrow> False"
| "body_event Set_Draining \<longleftrightarrow> False"
| "body_event (Saw_In_Flight n) \<longleftrightarrow> False"
| "body_event Entered \<longleftrightarrow> False"
| "body_event Exited \<longleftrightarrow> False"
| "body_event _ \<longleftrightarrow> True"

definition body_step :: "bool \<Rightarrow> app \<Rightarrow> shared \<Rightarrow> event \<Rightarrow> shared \<Rightarrow> bool" where
  "body_step ovf app sh e sh' \<longleftrightarrow> shared_step ovf app sh e sh' \<and> body_event e"

lemma body_steps:
  "m \<noteq> Requests \<Longrightarrow> always (body_step ovf app) (bump m)"
  "always (body_step ovf app) load_counter" "always (body_step ovf app) fetch_add_counter"
  "always (body_step ovf app) (note_outcome addr e)" "always (body_step ovf app) (ask_available addr key now)"
  "always (body_step ovf app) (send x)"
  "always (body_step ovf app) (limiter_call ovf (gc_rate_limit (app_config app)) ctx now)"
  by (auto simp: operation_defs body_step_def limiter_call_def limiter_check_def Let_def
      intro!: shared_step.intros always_andthen always_seq)

lemma always_admission: "always (body_step (ge_ovf env) app) (admission app env req)"
  unfolding admission_def Let_def
  by (auto split: option.split sum.split intro!: always_seq body_steps simp del: seq_simps limiter_check_simps limiter_call_simps)

lemma always_ask_targets: "always (body_step ovf app) (ask_targets addr u clock i ts)"
  by (induction ts arbitrary: i) (auto intro!: always_seq body_steps simp del: seq_simps)

lemma always_pick: "always (body_step ovf app) (pick_target_task ovf hash up addr clock key n)"
  by (auto simp: pick_target_task_def intro!: always_seq always_ask_targets simp del: seq_simps)

lemma always_send_attempt:
  "always (body_step (ge_ovf env) app) (send_attempt app env req r up addr pq body m k lst target)"
  by (auto simp: send_attempt_def Let_def intro!: always_seq body_steps split: sum.split simp del: seq_simps)

lemma always_attempt_once:
  "always (body_step (ge_ovf env) app) (attempt_once app env req r up addr pq body m k lst)"
  by (auto simp: attempt_once_def intro!: always_seq body_steps always_pick always_send_attempt
      split: option.split simp del: seq_simps)

lemma always_attempt_loop:
  "always (body_step (ge_ovf env) app) (attempt_loop app env req r up addr pq body m ks lst)"
  by (induction ks arbitrary: lst) (auto intro!: always_seq always_attempt_once simp del: seq_simps)

lemma always_forward: "always (body_step (ge_ovf env) app) (forward app env req r up addr)"
  by (auto simp: forward_def read_body_def Let_def intro!: always_seq body_steps always_attempt_loop
      split: option.split sum.split simp del: seq_simps)

lemma always_proxy_body: "always (body_step (ge_ovf env) app) (proxy_body app env req)"
  by (auto simp: proxy_body_def fault_stage_def Let_def intro!: always_seq body_steps always_admission always_forward
      split: option.split simp del: seq_simps)

section \<open>What is sent upstream\<close>

definition admitted_as ::
    "app \<Rightarrow> ('h, 'j) gateway_env \<Rightarrow> 'h request \<Rightarrow> route \<Rightarrow> authenticated_identity \<Rightarrow> bool" where
  "admitted_as app env req r identity \<longleftrightarrow>
     match_route (gc_routes (app_config app)) (rq_path req)
       (request_protocol (ge_http env) (rq_version req) (rq_headers req)) = Some r \<and>
     pr_allowed (run_phase (app_plugins app) Access (plugin_context_of r req)) \<and>
     authenticate (ge_http env) (ge_token env) (gc_security (app_config app)) (rq_headers req) = Inr identity \<and>
     authorize (gc_security (app_config app)) (auth_context_of identity (r_name r))"

text \<open>The events of a pick, for given answers of the registry, and the targets that were answered yes.\<close>

fun asked :: "nat \<Rightarrow> string \<Rightarrow> (nat \<Rightarrow> instant) \<Rightarrow> nat \<Rightarrow> upstream_target list \<Rightarrow> bool list \<Rightarrow> event list" where
  "asked addr u clock i (t # ts) (ok # oks) =
     Asked addr (target_key u (ut_id t)) (clock i) ok # asked addr u clock (Suc i) ts oks"
| "asked addr u clock i _ _ = []"

definition answered :: "upstream_target list \<Rightarrow> bool list \<Rightarrow> upstream_target list" where
  "answered ts oks = map fst (filter snd (zip ts oks))"

lemma answered_simps [simp]:
  "answered [] oks = []" "answered (t # ts) (ok # oks) = (if ok then t # answered ts oks else answered ts oks)"
  by (simp_all add: answered_def)

lemma answered_subset: "set (answered ts oks) \<subseteq> set ts"
  by (auto simp: answered_def dest: set_zip_leftD)

lemma asked_yes:
  "length oks = length ts \<Longrightarrow> t \<in> set (answered ts oks) \<Longrightarrow>
   \<exists>now. Asked addr (target_key u (ut_id t)) now True \<in> set (asked addr u clock i ts oks)"
  by (induction oks ts arbitrary: i rule: list_induct2) (auto split: if_splits)

definition sent_requests :: "event list \<Rightarrow> sent list" where
  "sent_requests es = List.map_filter (\<lambda>e. case e of Sent x \<Rightarrow> Some x | _ \<Rightarrow> None) es"

lemma sent_requests_simps [simp]:
  "sent_requests [] = []" "sent_requests (es @ es') = sent_requests es @ sent_requests es'"
  "sent_requests (Sent x # es) = x # sent_requests es"
  "(\<And>x. e \<noteq> Sent x) \<Longrightarrow> sent_requests (e # es) = sent_requests es"
  by (auto simp: sent_requests_def List.map_filter_def split: event.splits)

lemma sent_requests_asked [simp]: "sent_requests (asked addr u clock i ts oks) = []"
  by (induction addr u clock i ts oks rule: asked.induct) simp_all

text \<open>
  A send after the events \<open>past\<close> is justified: the handler saw the gateway not draining and entered,
  the request was admitted, the upstream is the one selected with the count that was loaded, and
  the events just before are the draw of a number and a question about every target; the balancer
  selected the target with that number among those that were answered yes.
\<close>

definition stage_passed ::
    "app \<Rightarrow> ('h, 'j) gateway_env \<Rightarrow> 'h request \<Rightarrow> route \<Rightarrow> authenticated_identity \<Rightarrow> upstream_config \<Rightarrow> nat \<Rightarrow>
     event list \<Rightarrow> bool" where
  "stage_passed app env req r identity up addr past \<longleftrightarrow>
     admitted_as app env req r identity \<and>
     Saw_Draining False \<in> set past \<and> Entered \<in> set past \<and>
     Checked (limiter_context r req identity) (ge_now env) (Ret True) \<in> set past \<and>
     (\<exists>c. Loaded_Counter c \<in> set past \<and>
        find (\<lambda>u. u_name u = select_upstream_name (ge_http env) (ge_hash env) r (rq_headers req)
          (client_key r req) c) (gc_upstreams (app_config app)) = Some up) \<and>
     app_runtime app (u_name up) = Some addr"

definition justified_send ::
    "app \<Rightarrow> ('h, 'j) gateway_env \<Rightarrow> 'h request \<Rightarrow> event list \<Rightarrow> sent \<Rightarrow> bool" where
  "justified_send app env req past x \<longleftrightarrow>
     (\<exists>r identity up addr pq body before n clock oks target.
        stage_passed app env req r identity up addr before \<and>
        rewrite_path_and_query r (rq_path req) (original_path_and_query req) = Ret pq \<and>
        ge_body env (sv_max_request_body_bytes (gc_server (app_config app))) = Inr body \<and>
        past = before @ Took_Number n # asked addr (u_name up) clock 0 (u_targets up) oks \<and>
        length oks = length (u_targets up) \<and>
        select_target (ge_ovf env) (ge_hash env) (u_strategy up) (answered (u_targets up) oks)
          (Some (client_key r req)) n = Ret (Some target) \<and>
        x = upstream_request env req r up pq body target)"

definition send_guarantee :: "app \<Rightarrow> ('h, 'j) gateway_env \<Rightarrow> 'h request \<Rightarrow> (shared, event) guarantee" where
  "send_guarantee app env req past sh e sh' \<longleftrightarrow>
     (\<forall>x. e = Sent x \<longrightarrow> justified_send app env req past x \<and>
        length (sent_requests past) < max_attempts_for (pr_retries (sv_proxy (gc_server (app_config app)))) (rq_method req))"

lemma send_guarantee_other [simp]: "(\<And>x. e \<noteq> Sent x) \<Longrightarrow> send_guarantee app env req past sh e sh'"
  by (simp add: send_guarantee_def)

lemma stage_passed_grows:
  "stage_passed app env req r identity up addr past \<Longrightarrow> stage_passed app env req r identity up addr (past @ new)"
  by (auto simp: stage_passed_def)

lemma wp_ask_targets:
  assumes "\<And>past sh addr key now ok sh'. G past sh (Asked addr key now ok) sh'"
  shows "(\<And>oks. length oks = length ts \<Longrightarrow> Q (Go (answered ts oks)) (past @ asked addr u clock i ts oks)) \<Longrightarrow>
    wp G (ask_targets addr u clock i ts) Q past"
proof (induction ts arbitrary: i past Q)
  case Nil
  then show ?case by simp
next
  case (Cons t ts)
  have "wp G (ask_targets addr u clock (Suc i) ts) (\<lambda>fl past'. case fl of
        Panicked \<Rightarrow> Q Panicked past' | Return r \<Rightarrow> Q (Return r) past'
      | Go rest \<Rightarrow> wp G (go (if ok then t # rest else rest)) Q past')
      (past @ [Asked addr (target_key u (ut_id t)) (clock i) ok])" for ok
    using Cons.prems [of "ok # oks" for oks] by (intro Cons.IH) simp
  then show ?case by (simp add: ask_available_def assms split del: if_split)
qed

lemma wp_pick:
  assumes "\<And>past sh addr key now ok sh'. G past sh (Asked addr key now ok) sh'"
    and "\<And>oks. length oks = length (u_targets up) \<Longrightarrow>
      Q (if answered (u_targets up) oks = [] then Go None
         else case select_target ovf hash (u_strategy up) (answered (u_targets up) oks) (Some key) n of
           Panic \<Rightarrow> Panicked | Ret t \<Rightarrow> Go t) (past @ asked addr (u_name up) clock 0 (u_targets up) oks)"
  shows "wp G (pick_target_task ovf hash up addr clock key n) Q past"
  unfolding pick_target_task_def wp_seq
proof (rule wp_ask_targets)
  show "\<And>past sh addr key now ok sh'. G past sh (Asked addr key now ok) sh'" by (rule assms(1))
  fix oks :: "bool list"
  assume "length oks = length (u_targets up)"
  from assms(2) [OF this] show "case Go (answered (u_targets up) oks) of
      Panicked \<Rightarrow> Q Panicked (past @ asked addr (u_name up) clock 0 (u_targets up) oks)
    | Return r \<Rightarrow> Q (Return r) (past @ asked addr (u_name up) clock 0 (u_targets up) oks)
    | Go targets \<Rightarrow> wp G (if targets = [] then go None
        else of_rust (select_target ovf hash (u_strategy up) targets (Some key) n)) Q
        (past @ asked addr (u_name up) clock 0 (u_targets up) oks)"
    by (simp split: if_splits)
qed

text \<open>One attempt: at most one send, and what was established before stays.\<close>

lemma wp_send_attempt:
  assumes "justified_send app env req past (upstream_request env req r up pq body target)"
    and "length (sent_requests past) < max_attempts_for (pr_retries (sv_proxy (gc_server (app_config app)))) (rq_method req)"
  shows "wp (send_guarantee app env req) (send_attempt app env req r up addr pq body m k lst target)
    (\<lambda>_ past'. \<exists>new. past' = past @ new \<and> length (sent_requests new) \<le> 1) past"
  using assms
  by (auto simp: send_attempt_def send_def note_outcome_def bump_def Let_def send_guarantee_def split: sum.split)

lemma wp_attempt_once:
  assumes "stage_passed app env req r identity up addr past"
    and "rewrite_path_and_query r (rq_path req) (original_path_and_query req) = Ret pq"
    and "ge_body env (sv_max_request_body_bytes (gc_server (app_config app))) = Inr body"
    and "length (sent_requests past) < max_attempts_for (pr_retries (sv_proxy (gc_server (app_config app)))) (rq_method req)"
  shows "wp (send_guarantee app env req) (attempt_once app env req r up addr pq body m k lst)
    (\<lambda>_ past'. \<exists>new. past' = past @ new \<and> length (sent_requests new) \<le> 1) past"
proof -
  let ?Q = "\<lambda>_ past'. \<exists>new. past' = past @ new \<and> length (sent_requests new) \<le> 1"
  have "wp (send_guarantee app env req) (send_attempt app env req r up addr pq body m k lst target) ?Q
      (past @ Took_Number n # asked addr (u_name up) clock 0 (u_targets up) oks)"
    if "length oks = length (u_targets up)"
      and "select_target (ge_ovf env) (ge_hash env) (u_strategy up) (answered (u_targets up) oks)
        (Some (client_key r req)) n = Ret (Some target)" for n oks clock target
  proof -
    let ?past = "past @ Took_Number n # asked addr (u_name up) clock 0 (u_targets up) oks"
    have "justified_send app env req ?past (upstream_request env req r up pq body target)"
      using assms(1-3) that unfolding justified_send_def by blast
    have "wp (send_guarantee app env req) (send_attempt app env req r up addr pq body m k lst target)
        (\<lambda>_ past'. \<exists>new. past' = ?past @ new \<and> length (sent_requests new) \<le> 1) ?past"
      using assms(4) by (intro wp_send_attempt [OF \<open>justified_send _ _ _ _ _\<close>]) simp
    then show ?thesis by (rule wp_mono) auto
  qed
  moreover have "wp (send_guarantee app env req) (seq (bump Errors) (\<lambda>_. return resp)) ?Q
      (past @ Took_Number n # asked addr (u_name up) clock 0 (u_targets up) oks)" for n oks clock resp
    by (simp add: bump_def)
  moreover have "wp (send_guarantee app env req) (seq (bump Upstream_Failures) (\<lambda>_. return resp)) ?Q past" for resp
    by (simp add: bump_def)
  ultimately show ?thesis
    by (auto simp: attempt_once_def fetch_add_counter_def simp del: seq_simps(6)
      intro!: wp_pick split: option.split rust.split)
qed

lemma wp_attempt_loop:
  assumes "rewrite_path_and_query r (rq_path req) (original_path_and_query req) = Ret pq"
    and "ge_body env (sv_max_request_body_bytes (gc_server (app_config app))) = Inr body"
  shows "stage_passed app env req r identity up addr past \<Longrightarrow>
    length (sent_requests past) + length ks
      \<le> max_attempts_for (pr_retries (sv_proxy (gc_server (app_config app)))) (rq_method req) \<Longrightarrow>
    wp (send_guarantee app env req) (attempt_loop app env req r up addr pq body m ks lst) (\<lambda>_ _. True) past"
proof (induction ks arbitrary: lst past)
  case (Cons k ks)
  have "wp (send_guarantee app env req) (attempt_once app env req r up addr pq body m k lst)
      (\<lambda>_ past'. \<exists>new. past' = past @ new \<and> length (sent_requests new) \<le> 1) past"
    using Cons.prems by (intro wp_attempt_once [OF _ assms]) auto
  then show ?case unfolding attempt_loop.simps wp_seq
  proof (rule wp_mono)
    fix fl past'
    assume "\<exists>new. past' = past @ new \<and> length (sent_requests new) \<le> 1"
    then show "case fl of Panicked \<Rightarrow> True | Return r \<Rightarrow> True
      | Go lst' \<Rightarrow> wp (send_guarantee app env req) (attempt_loop app env req r up addr pq body m ks lst')
          (\<lambda>_ _. True) past'"
      using Cons.prems by (auto split: flow.split intro!: Cons.IH stage_passed_grows)
  qed
qed simp

lemma wp_forward:
  assumes "stage_passed app env req r identity up addr past" and "sent_requests past = []"
  shows "wp (send_guarantee app env req) (forward app env req r up addr) (\<lambda>_ _. True) past"
proof -
  let ?m = "max_attempts_for (pr_retries (sv_proxy (gc_server (app_config app)))) (rq_method req)"
  have loop: "wp (send_guarantee app env req) (attempt_loop app env req r up addr pq body ?m [1..<Suc ?m] None)
      (\<lambda>_ _. True) past"
    if "rewrite_path_and_query r (rq_path req) (original_path_and_query req) = Ret pq"
      "ge_body env (sv_max_request_body_bytes (gc_server (app_config app))) = Inr body" for pq body
    using assms by (intro wp_attempt_loop [OF that, where identity = identity]) simp_all
  show ?thesis
    unfolding forward_def Let_def
    by (auto simp: read_body_def bump_def split: rust.split sum.split option.split flow.split simp del: upt_Suc One_nat_def
      intro: wp_mono [OF loop])
qed

lemma wp_proxy_body:
  assumes "Saw_Draining False \<in> set past" and "Entered \<in> set past" and "sent_requests past = []"
  shows "wp (send_guarantee app env req) (proxy_body app env req) (\<lambda>_ _. True) past"
proof -
  have fwd: "wp (send_guarantee app env req) (forward app env req r up addr) (\<lambda>_ _. True)
      (past @ [Checked (limiter_context r req identity) (ge_now env) (Ret True), Loaded_Counter c])"
    "wp (send_guarantee app env req) (forward app env req r up addr) (\<lambda>_ _. True)
      (past @ [Read_Clock t, Checked (limiter_context r req identity) (ge_now env) (Ret True), Loaded_Counter c])"
    if "admitted_as app env req r identity" and "app_runtime app (u_name up) = Some addr"
      and "find (\<lambda>u. u_name u = select_upstream_name (ge_http env) (ge_hash env) r (rq_headers req)
          (client_key r req) c) (gc_upstreams (app_config app)) = Some up" for r identity up addr c t
    using that assms by (auto intro!: wp_forward [where identity = identity] simp: stage_passed_def)
  show ?thesis
    unfolding proxy_body_def admission_def fault_stage_def Let_def
    by (auto simp: bump_def load_counter_def admitted_as_def Let_def
      split: option.split sum.split rust.split intro!: fwd)
qed

section \<open>The guard\<close>

text \<open>A handler enters at most once, and leaves once after it entered and before it finishes.\<close>

definition guard_guarantee :: "(shared, event) guarantee" where
  "guard_guarantee past sh e sh' \<longleftrightarrow>
     (e = Entered \<longrightarrow> Entered \<notin> set past) \<and> (e = Exited \<longrightarrow> Entered \<in> set past \<and> Exited \<notin> set past)"

abbreviation balanced :: "'a \<Rightarrow> event list \<Rightarrow> bool" where
  "balanced result past \<equiv> Entered \<in> set past \<longleftrightarrow> Exited \<in> set past"

lemma no_guard_events: "list_all body_event es \<Longrightarrow> Entered \<notin> set es \<and> Exited \<notin> set es"
  by (auto simp: list_all_iff)

lemma wp_guard_body:
  "wp guard_guarantee (proxy_body app env req) (\<lambda>_ past'. \<exists>new. past' = past @ new \<and> list_all body_event new) past"
proof -
  have "wp (\<lambda>_. body_step (ge_ovf env) app) (proxy_body app env req)
      (\<lambda>_ past'. True \<and> (\<exists>new. past' = past @ new \<and> list_all body_event new)) past"
    by (rule wp_added [OF wp_always [OF always_proxy_body]]) (simp add: body_step_def)
  then show ?thesis
    by (rule wp_mono) (auto simp: body_step_def guard_guarantee_def)
qed

lemma wp_guard_handler: "wp guard_guarantee (proxy_handler app env req) balanced []"
proof -
  have "wp guard_guarantee (guarded (proxy_body app env req)) balanced [Bumped Requests, Saw_Draining False]"
    unfolding wp_guarded
    by (auto simp: guard_guarantee_def intro!: wp_mono [OF wp_guard_body] dest: no_guard_events)
  then show ?thesis by (simp add: proxy_handler_def bump_def load_draining_def guard_guarantee_def)
qed

section \<open>Answers\<close>

text \<open>Without overflow checks neither the limiter nor the balancer panics.\<close>

lemma add_chk_release [simp]: "add_chk False a b = Ret (a + b)"
  by (simp add: add_chk_def)

lemma stage_rules_release: "stage_rules False cfg states now rules \<noteq> Panic"
  by (induction rules) (auto simp: Let_def split: prod.splits bool.splits if_splits)

lemma check_release: "check_with_context False cfg ctx now states \<noteq> Panic"
  using stage_rules_release by (auto simp: check_with_context_def Let_def split: prod.splits option.splits)

lemma sum_u32_release: "sum_u32 False acc ws \<noteq> Panic"
  by (induction ws arbitrary: acc) auto

lemma select_target_release: "select_target False hash strategy ts key n \<noteq> Panic"
  using sum_u32_release
  by (auto simp: select_target_def pick_weighted_target_def split: balancing_strategy.splits option.splits)

lemma pick_target_release: "fst (pick_target False hash up clock key n reg) \<noteq> Panic"
  by (simp add: fst_pick_target select_target_release)

lemma verdict_release: "verdict (check_with_context False cfg ctx now states) \<noteq> Panic"
  using check_release by (auto simp: verdict_def split: rust.splits)

definition ascii :: "string \<Rightarrow> bool" where
  "ascii s \<longleftrightarrow> list_all (\<lambda>c. (of_char c :: nat) < 128) s"

lemma rewrite_no_panic:
  assumes "prefix path pq" and "ascii pq"
  shows "rewrite_path_and_query r path pq \<noteq> Panic"
proof -
  have "is_char_boundary pq (length (r_path_prefix r))" if "starts_with path (r_path_prefix r)"
  proof -
    have "length (r_path_prefix r) \<le> length pq"
      using that assms(1) by (auto simp: starts_with_def dest!: prefix_length_le)
    moreover have "length (r_path_prefix r) < length pq \<Longrightarrow> (of_char (pq ! length (r_path_prefix r)) :: nat) < 128"
      using assms(2) by (simp add: ascii_def list_all_length)
    ultimately show ?thesis by (cases "length (r_path_prefix r) = length pq") (simp_all add: is_char_boundary_def)
  qed
  then show ?thesis by (auto simp: rewrite_path_and_query_def slice_from_def split: option.splits)
qed

lemma panic_ask_targets: "results (ask_targets addr u clock i ts) \<subseteq> range Go"
  by (induction ts arbitrary: i) (fastforce simp: results_seq ask_available_def simp del: seq_simps)+

lemma panic_pick: "Panicked \<notin> results (pick_target_task False hash up addr clock key n)"
  using panic_ask_targets select_target_release
  by (fastforce simp: pick_target_task_def results_seq split: if_splits rust.splits simp del: seq_simps)

lemma panic_admission: "\<not> ge_ovf env \<Longrightarrow> Panicked \<notin> results (admission app env req)"
  using verdict_release
  by (auto simp: admission_def Let_def bump_def split: option.splits sum.splits if_splits rust.splits)

text \<open>The route after admission is one of the configuration.\<close>

lemma admission_Go: "Go r \<in> results (admission app env req) \<Longrightarrow> \<exists>identity. admitted_as app env req r identity"
  by (auto simp: admission_def admitted_as_def Let_def results_seq
      split: option.splits sum.splits if_splits simp del: seq_simps limiter_check_simps limiter_call_simps)

lemma panic_send_attempt:
  "Panicked \<notin> results (send_attempt app env req r up addr pq body m k lst target)"
  by (auto simp: send_attempt_def Let_def send_def note_outcome_def bump_def split: sum.split)

lemma panic_attempt_once:
  "\<not> ge_ovf env \<Longrightarrow> Panicked \<notin> results (attempt_once app env req r up addr pq body m k lst)"
  by (auto simp: attempt_once_def results_seq bump_def fetch_add_counter_def panic_pick panic_send_attempt
      split: option.splits)

lemma panic_attempt_loop:
  "\<not> ge_ovf env \<Longrightarrow> Panicked \<notin> results (attempt_loop app env req r up addr pq body m ks lst)"
  by (induction ks arbitrary: lst) (auto simp: results_seq panic_attempt_once)

text \<open>The last attempt never continues, so the loop always returns a response.\<close>

lemma last_attempt_decides: "Go lst' \<notin> results (attempt_once app env req r up addr pq body m m lst)"
  by (auto simp: attempt_once_def send_attempt_def results_seq Let_def bump_def fetch_add_counter_def send_def
      note_outcome_def split: option.splits sum.splits if_splits)

lemma attempt_loop_decides:
  "Go lst' \<notin> results (attempt_loop app env req r up addr pq body m (ks @ [m]) lst)"
  by (induction ks arbitrary: lst) (auto simp: results_seq last_attempt_decides)

lemma answers_forward:
  assumes "\<not> ge_ovf env" and "prefix (rq_path req) (original_path_and_query req)"
    and "ascii (original_path_and_query req)"
  shows "results (forward app env req r up addr) \<subseteq> range Return"
proof
  fix fl
  assume fl: "fl \<in> results (forward app env req r up addr)"
  have "fl \<noteq> Panicked"
    using fl rewrite_no_panic [OF assms(2,3), of r] panic_attempt_loop [OF assms(1)]
    by (auto simp: forward_def read_body_def results_seq Let_def bump_def
      split: option.splits sum.splits rust.splits if_splits)
  moreover have "fl \<noteq> Go x" for x
    using fl by (auto simp: forward_def results_seq Let_def split: option.splits rust.splits)
  ultimately show "fl \<in> range Return" by (cases fl) auto
qed

lemma fault_stage_no_panic:
  assumes "fi_jitter_ms (r_fault_injection r) \<noteq> - 1"
  shows "Panicked \<notin> results (fault_stage env req r n)"
  using fault_injection_bounds [where api = "ge_http env" and ovf = "ge_ovf env" and hash = "ge_hash env"
      and fault = "r_fault_injection r" and client_key = "client_key r req" and n = n] assms
  by (auto simp: fault_stage_def split: rust.splits option.splits)

lemma answers_proxy_body:
  assumes "\<not> ge_ovf env" and "prefix (rq_path req) (original_path_and_query req)"
    and "ascii (original_path_and_query req)"
    and "\<forall>r\<in>set (gc_routes (app_config app)). fi_jitter_ms (r_fault_injection r) \<noteq> - 1"
  shows "results (proxy_body app env req) \<subseteq> range Return"
proof -
  have "fi_jitter_ms (r_fault_injection r) \<noteq> - 1" if "Go r \<in> results (admission app env req)" for r
    using admission_Go [OF that] assms(4) by (auto simp: admitted_as_def dest: match_route_Some(1))
  with fault_stage_no_panic have fault: "Panicked \<notin> results (fault_stage env req r n)"
    if "Go r \<in> results (admission app env req)" for r n using that by blast
  show ?thesis
    using panic_admission [OF assms(1)] fault answers_forward [OF assms(1-3)]
    by (fastforce simp: proxy_body_def results_seq Let_def bump_def load_counter_def split: option.splits)
qed

lemma results_guarded: "results (guarded p) = results p"
  by (auto simp: guarded_alt)

section \<open>Number of operations\<close>

lemma ops_ask_targets: "ops_within (ask_targets addr u clock i ts) (length ts)"
proof (induction ts arbitrary: i)
  case (Cons t ts)
  have "ops_within (seq (ask_targets addr u clock (Suc i) ts) (\<lambda>rest. go (if ok then t # rest else rest))) (length ts)" for ok
    by (rule ops_seq [where b = 0, OF Cons.IH]) simp_all
  then show ?case by (simp add: ask_available_def split del: if_split)
qed simp

lemma ops_pick: "ops_within (pick_target_task ovf hash up addr clock key n) (length (u_targets up))"
  unfolding pick_target_task_def by (rule ops_seq [OF ops_ask_targets, where b = 0]) simp_all

lemma ops_send_attempt: "ops_within (send_attempt app env req r up addr pq body m k lst target) 3"
  by (auto simp: send_attempt_def Let_def send_def note_outcome_def bump_def split: sum.split)

lemma ops_attempt_once:
  "ops_within (attempt_once app env req r up addr pq body m k lst) (length (u_targets up) + 4)"
proof -
  have "ops_within (seq (pick_target_task ovf hash up addr clock key n) (\<lambda>picked. case picked of
        None \<Rightarrow> seq (bump Errors) (\<lambda>_. return (Simple 502 ''no healthy upstream target available''))
      | Some target \<Rightarrow> send_attempt app env req r up addr pq body m k lst target)) (3 + length (u_targets up))"
    for ovf hash clock key n
    by (rule ops_seq [where b = 3, OF ops_pick]) (auto simp: bump_def ops_send_attempt split: option.split)
  moreover have "ops_within (seq (bump Upstream_Failures) (\<lambda>_. return resp) :: status option proc)
      (length (u_targets up) + 4)" for resp
    by (simp add: bump_def)
  ultimately show ?thesis by (simp add: attempt_once_def fetch_add_counter_def)
qed

lemma ops_attempt_loop:
  "ops_within (attempt_loop app env req r up addr pq body m ks lst) (length ks * (length (u_targets up) + 4))"
  by (induction ks arbitrary: lst) (auto intro: ops_seq [OF ops_attempt_once])

lemma ops_forward:
  "ops_within (forward app env req r up addr)
     (max_attempts_for (pr_retries (sv_proxy (gc_server (app_config app)))) (rq_method req)
        * (length (u_targets up) + 4) + 1)"
proof -
  let ?m = "max_attempts_for (pr_retries (sv_proxy (gc_server (app_config app)))) (rq_method req)"
  have "ops_within (seq (attempt_loop app env req r up addr pq body ?m [1..<Suc ?m] None)
      (\<lambda>last_status. case last_status of
          Some s \<Rightarrow> return (Simple s ''upstream retries exhausted'')
        | None \<Rightarrow> return (Simple 502 ''upstream retries exhausted'')))
      (?m * (length (u_targets up) + 4) + 1)" for pq body
    using ops_attempt_loop [of app env req r up addr pq body ?m "[1..<Suc ?m]" None]
    by (rule ops_seq [where b = 0]) (auto split: option.split)
  then show ?thesis
    by (auto simp: forward_def read_body_def bump_def Let_def simp del: upt_Suc One_nat_def
      split: rust.split sum.split)
qed

lemma ops_proxy_body:
  assumes "\<forall>u\<in>set (gc_upstreams (app_config app)). length (u_targets u) \<le> t"
  shows "ops_within (proxy_body app env req)
    (max_attempts_for (pr_retries (sv_proxy (gc_server (app_config app)))) (rq_method req) * (t + 4) + 4)"
proof -
  let ?m = "max_attempts_for (pr_retries (sv_proxy (gc_server (app_config app)))) (rq_method req)"
  have fwd: "ops_within (forward app env req r up addr) (Suc (?m * (t + 4)))"
    if "find P (gc_upstreams (app_config app)) = Some up" for P r up addr
  proof (rule ops_within_mono [OF ops_forward])
    from that have "up \<in> set (gc_upstreams (app_config app))" by (auto simp: find_Some_iff)
    with assms show "?m * (length (u_targets up) + 4) + 1 \<le> Suc (?m * (t + 4))" by simp
  qed
  have later: "ops_within (forward app env req r up addr) (Suc (Suc (?m * (t + 4))))"
    if "find P (gc_upstreams (app_config app)) = Some up" for P r up addr
    by (rule ops_within_mono [OF fwd [OF that]]) simp
  show ?thesis
    by (auto simp: proxy_body_def admission_def fault_stage_def bump_def load_counter_def Let_def fwd later
      split: option.split sum.split rust.split)
qed

lemma ops_handler:
  assumes "\<forall>u\<in>set (gc_upstreams (app_config app)). length (u_targets u) \<le> t"
  shows "ops_within (proxy_handler app env req)
    (max_attempts_for (pr_retries (sv_proxy (gc_server (app_config app)))) (rq_method req) * (t + 4) + 8)"
proof -
  let ?n = "max_attempts_for (pr_retries (sv_proxy (gc_server (app_config app)))) (rq_method req) * (t + 4)"
  have "ops_within (andthen (proxy_body app env req) (\<lambda>result.
      Op (\<lambda>sh. (Exited, sh\<lparr>sh_in_flight := sh_in_flight sh - 1\<rparr>)) (\<lambda>_. Done result))) (5 + ?n)"
    by (rule ops_within_andthen [OF ops_proxy_body [OF assms], where n = 1]) simp_all
  then show ?thesis by (simp add: proxy_handler_def guarded_alt bump_def load_draining_def)
qed

section \<open>Running alone\<close>

lemma alone_seq:
  "alone_history (seq m f) sh = alone_history m sh @ (case alone_result m sh of
     Go x \<Rightarrow> alone_history (f x) (alone_state m sh) | _ \<Rightarrow> [])"
  "alone_result (seq m f) sh = (case alone_result m sh of
     Panicked \<Rightarrow> Panicked | Return r \<Rightarrow> Return r | Go x \<Rightarrow> alone_result (f x) (alone_state m sh))"
  "alone_state (seq m f) sh = (case alone_result m sh of
     Go x \<Rightarrow> alone_state (f x) (alone_state m sh) | _ \<Rightarrow> alone_state m sh)"
  by (simp_all add: seq_def split: flow.split)

lemma registries_update_id [simp]: "sh\<lparr>sh_registries := (sh_registries sh)(addr := sh_registries sh addr)\<rparr> = sh"
  by simp

text \<open>Without interruption the task asks and picks like the functions of \<open>Proxy\<close>.\<close>

lemma alone_ask_targets:
  "alone_result (ask_targets addr u clock i ts) sh = Go (fst (available_targets u clock i ts (sh_registries sh addr))) \<and>
   alone_state (ask_targets addr u clock i ts) sh =
     sh\<lparr>sh_registries := (sh_registries sh)(addr := snd (available_targets u clock i ts (sh_registries sh addr)))\<rparr>"
  by (induction ts arbitrary: i sh)
    (auto simp: alone_seq ask_available_def on_registry_def split_beta Let_def simp del: fun_upd_apply
      simp add: fun_upd_same)

lemma alone_pick_target:
  "alone_result (pick_target_task ovf hash up addr clock key n) sh =
     (case fst (pick_target ovf hash up clock key n (sh_registries sh addr)) of Panic \<Rightarrow> Panicked | Ret t \<Rightarrow> Go t) \<and>
   alone_state (pick_target_task ovf hash up addr clock key n) sh =
     sh\<lparr>sh_registries := (sh_registries sh)(addr := snd (pick_target ovf hash up clock key n (sh_registries sh addr)))\<rparr>"
  by (simp add: pick_target_task_def alone_seq alone_ask_targets fst_pick_target snd_pick_target)

section \<open>A sample run\<close>

text \<open>An upstream that answers, and a request to it.\<close>

definition sample_response :: "ref_headers upstream_response" where
  "sample_response = \<lparr>ur_status = 200, ur_headers = [(''content-type'', ''text/plain'')], ur_body = ''hello''\<rparr>"

definition sample_attempt :: "ref_headers attempt_env" where
  "sample_attempt =
     \<lparr>at_elapsed = 0, at_clock = (\<lambda>i. i), at_result = (\<lambda>x. Inr sample_response), at_failed_at = 0\<rparr>"

definition sample_gateway_env :: "(ref_headers, json) gateway_env" where
  "sample_gateway_env =
     \<lparr>ge_http = ref_api, ge_token = sample_token_api, ge_hash = (\<lambda>_. 0), ge_ovf = False, ge_now = 0,
      ge_body = (\<lambda>_. Inr []), ge_attempt = (\<lambda>_. sample_attempt), ge_build_ok = (\<lambda>_ _. True)\<rparr>"

definition sample_request :: "ref_headers request" where
  "sample_request =
     \<lparr>rq_client_ip = ''10.1.1.1'', rq_method = GET, rq_path = ''/api/v1/users'',
      rq_path_and_query = Some ''/api/v1/users?page=2'', rq_version = HTTP_11, rq_headers = []\<rparr>"

definition sample_app :: app where
  "sample_app = initial_app sample_config []"

definition sample_handler :: "unit proc" where
  "sample_handler = proxy_handler sample_app sample_gateway_env sample_request"

definition sample_identity :: authenticated_identity where
  "sample_identity = \<lparr>ai_mode = Anonymous, ai_roles = [], ai_groups = [], ai_subject = None\<rparr>"

definition sample_sent :: sent where
  "sample_sent =
     \<lparr>se_target = ''svc-b:a'', se_method = GET, se_url = ''http://10.0.0.1:8080/api/v1/users?page=2'',
      se_headers = [], se_body = []\<rparr>"

definition sample_answer :: response where
  "sample_answer = Built 200 [(''content-type'', ''text/plain'')] (Streamed ''hello'')"

definition sample_events :: "event list" where
  "sample_events =
     [Read_Clock 0, Checked (limiter_context (last sample_routes) sample_request sample_identity) 0 (Ret True), Loaded_Counter 0,
      Took_Number 0, Asked 1 ''svc-b:a'' 0 True, Asked 1 ''svc-b:b'' 1 True, Sent sample_sent,
      Noted 1 (RecordSuccess ''svc-b:a'')]"

text \<open>The run of the handler on it, stage by stage.\<close>

lemma sample_env_simps:
  "ge_ovf sample_gateway_env = False" "ge_hash sample_gateway_env = (\<lambda>_. 0)" "ge_now sample_gateway_env = 0"
  "ge_http sample_gateway_env = ref_api" "ge_attempt sample_gateway_env k = sample_attempt"
  "ge_token sample_gateway_env = sample_token_api"
  "at_elapsed sample_attempt = 0" "at_clock sample_attempt = (\<lambda>i. i)"
  "at_result sample_attempt x = Inr sample_response" "ur_status sample_response = 200"
  "app_config sample_app = sample_config" "app_plugins sample_app = []"
  by (simp_all add: sample_gateway_env_def sample_attempt_def sample_response_def sample_app_def initial_app_def)

lemma sample_check:
  "verdict (check_with_context False (gc_rate_limit sample_config)
     (limiter_context (last sample_routes) sample_request sample_identity) 0 Map.empty) = Ret True"
  by (simp add: verdict_def rust_simps Let_def word_le_nat_alt sample_config_def sample_quota_config_def
      limiter_context_def sample_identity_def)

lemma sample_limiter_enabled: "rl_enabled (gc_rate_limit sample_config)"
  by (simp add: sample_config_def sample_quota_config_def)

lemma after_check_simps [simp]:
  "sh_request_counter (after_check r sh) = sh_request_counter sh" "sh_registries (after_check r sh) = sh_registries sh"
  by (simp_all add: after_check_def split: rust.split prod.split)

text \<open>Up to the forwarding, for any application and environment that agree with the sample on admission.\<close>

definition sample_like :: "app \<Rightarrow> (ref_headers, json) gateway_env \<Rightarrow> bool" where
  "sample_like app env \<longleftrightarrow> gc_routes (app_config app) = sample_routes \<and>
     gc_security (app_config app) = default_security_config \<and>
     gc_upstreams (app_config app) = gc_upstreams sample_config \<and> app_plugins app = [] \<and>
     app_runtime app ''svc-b'' = Some 1 \<and> ge_http env = ref_api \<and> ge_token env = sample_token_api"

lemma sample_like_body:
  assumes "sample_like app env"
  shows "proxy_body app env sample_request =
   seq (limiter_call (ge_ovf env) (gc_rate_limit (app_config app))
       (limiter_context (last sample_routes) sample_request sample_identity) (ge_now env))
     (\<lambda>ok. if \<not> ok then seq (bump Rate_Limited) (\<lambda>_. return (Simple 429 ''rate limit exceeded''))
       else seq load_counter (\<lambda>_. forward app env sample_request (last sample_routes) sample_upstream 1))"
proof -
  have like: "gc_routes (app_config app) = sample_routes" "gc_security (app_config app) = default_security_config"
    "gc_upstreams (app_config app) = gc_upstreams sample_config" "app_plugins app = []" "app_runtime app ''svc-b'' = Some 1"
    "ge_http env = ref_api" "ge_token env = sample_token_api"
    using assms by (simp_all add: sample_like_def)
  have route: "match_route sample_routes (rq_path sample_request)
      (request_protocol ref_api (rq_version sample_request) (rq_headers sample_request)) = Some (last sample_routes)"
    by code_simp
  have auth: "authenticate ref_api sample_token_api default_security_config (rq_headers sample_request) = Inr sample_identity"
    "authorize default_security_config (auth_context_of sample_identity (r_name (last sample_routes)))"
    by code_simp+
  have admission: "admission app env sample_request =
      seq (limiter_call (ge_ovf env) (gc_rate_limit (app_config app))
         (limiter_context (last sample_routes) sample_request sample_identity) (ge_now env))
       (\<lambda>ok. if \<not> ok then seq (bump Rate_Limited) (\<lambda>_. return (Simple 429 ''rate limit exceeded''))
         else go (last sample_routes))"
    by (simp add: admission_def Let_def like route auth del: limiter_call_simps)
  have fault: "fault_stage env sample_request (last sample_routes) n = go ()" for n
    by (simp add: fault_stage_def maybe_apply_fault_injection_def sample_routes_def default_fault_injection_def)
  have name: "select_upstream_name ref_api hash (last sample_routes) headers key n = ''svc-b''" for hash headers key n
    by (simp add: select_upstream_name_def sample_routes_def default_traffic_split_def)
  have find: "find (\<lambda>u. u_name u = ''svc-b'') (gc_upstreams sample_config) = Some sample_upstream"
    and addr: "app_runtime app (u_name sample_upstream) = Some 1"
    by (simp_all add: like sample_config_def sample_upstream_def)
  show ?thesis
    by (simp add: proxy_body_def admission fault name find addr like Let_def if_distrib
        [of "\<lambda>m. seq m f" for f] del: limiter_check_simps limiter_call_simps One_nat_def cong: if_cong)
qed

lemma sample_app_like: "sample_like sample_app sample_gateway_env"
  by (simp add: sample_like_def sample_env_simps sample_config_def) (simp add: sample_app_def initial_app_def
      sample_config_def sample_upstream_def build_runtime_registry_def)

lemma sample_body:
  "proxy_body sample_app sample_gateway_env sample_request =
   seq (limiter_call False (gc_rate_limit sample_config)
       (limiter_context (last sample_routes) sample_request sample_identity) 0)
     (\<lambda>ok. if \<not> ok then seq (bump Rate_Limited) (\<lambda>_. return (Simple 429 ''rate limit exceeded''))
       else seq load_counter (\<lambda>_. forward sample_app sample_gateway_env sample_request (last sample_routes) sample_upstream 1))"
  using sample_like_body [OF sample_app_like] by (simp only: sample_env_simps)

lemma sample_respond:
  "respond sample_app sample_gateway_env sample_request (last sample_routes) sample_response = sample_answer"
  by code_simp

lemma sample_request_sent:
  "upstream_request sample_gateway_env sample_request (last sample_routes) sample_upstream
     ''/api/v1/users?page=2'' [] (hd sample_targets) = sample_sent"
  by code_simp

lemma sample_send:
  "send_attempt sample_app sample_gateway_env sample_request (last sample_routes) sample_upstream 1
     ''/api/v1/users?page=2'' [] m k lst (hd sample_targets) =
   seq (send sample_sent) (\<lambda>_. seq (note_outcome 1 (RecordSuccess ''svc-b:a'')) (\<lambda>_. return sample_answer))"
  by (simp add: send_attempt_def Let_def sample_env_simps should_retry_status_def sample_respond sample_request_sent
      sample_sent_def ref_status.server_error)

lemma sample_forward:
  "forward sample_app sample_gateway_env sample_request (last sample_routes) sample_upstream 1 =
   seq fetch_add_counter (\<lambda>n. seq (seq (pick_target_task False (\<lambda>_. 0) sample_upstream 1 (\<lambda>i. i)
       (client_key (last sample_routes) sample_request) n)
     (\<lambda>picked. case picked of
        None \<Rightarrow> seq (bump Errors) (\<lambda>_. return (Simple 502 ''no healthy upstream target available''))
      | Some target \<Rightarrow> send_attempt sample_app sample_gateway_env sample_request (last sample_routes) sample_upstream 1
          ''/api/v1/users?page=2'' [] 3 1 None target))
     (\<lambda>lst. seq (attempt_loop sample_app sample_gateway_env sample_request (last sample_routes) sample_upstream 1
         ''/api/v1/users?page=2'' [] 3 [2, 3] lst)
       (\<lambda>last_status. case last_status of
          Some s \<Rightarrow> return (Simple s ''upstream retries exhausted'')
        | None \<Rightarrow> return (Simple 502 ''upstream retries exhausted''))))"
proof -
  have body: "read_body sample_app sample_gateway_env = go []"
    by (simp add: read_body_def sample_gateway_env_def)
  have path: "rewrite_path_and_query (last sample_routes) (rq_path sample_request)
      (original_path_and_query sample_request) = Ret ''/api/v1/users?page=2''"
    by code_simp
  have attempts: "max_attempts_for (pr_retries (sv_proxy (gc_server sample_config))) (rq_method sample_request) = 3"
    by (simp add: max_attempts_for_def sample_config_def default_server_config_def
        default_proxy_runtime_config_def default_retry_config_def sample_request_def should_retry_method_def
        max_def word_le_nat_alt)
  have upt: "[1..<Suc 3] = [1, 2, 3]" by (simp add: upt_rec)
  have timeout: "\<not> from_millis (pr_request_timeout_ms (sv_proxy (gc_server sample_config))) \<le> 0"
    by (simp add: sample_config_def default_server_config_def default_proxy_runtime_config_def from_millis_def)
  show ?thesis
    unfolding forward_def Let_def sample_env_simps attempts upt body path attempt_loop.simps(2) [of _ _ _ _ _ _ _ _ _ 1]
      attempt_once_def [of _ _ _ _ _ _ _ _ _ 1] if_not_P [OF timeout]
    by (simp add: fetch_add_counter_def del: attempt_loop.simps One_nat_def)
qed

lemma sample_pick:
  assumes "sh_registries sh 1 = upstream_registry sample_upstream"
  shows "alone_result (pick_target_task False hash sample_upstream 1 (\<lambda>i. i) key 0) sh = Go (Some (hd sample_targets))"
    and "events (alone_history (pick_target_task False hash sample_upstream 1 (\<lambda>i. i) key 0) sh)
      = [Asked 1 ''svc-b:a'' 0 True, Asked 1 ''svc-b:b'' 1 True]"
proof -
  note defs = sample_upstream_def sample_targets_def upstream_registry_def is_available_def admit_def
    default_target_runtime_def target_key_def
  show "alone_result (pick_target_task False hash sample_upstream 1 (\<lambda>i. i) key 0) sh = Go (Some (hd sample_targets))"
    using assms by (simp add: alone_pick_target fst_pick_target defs select_target_def pick_weighted_target_def)
  show "events (alone_history (pick_target_task False hash sample_upstream 1 (\<lambda>i. i) key 0) sh)
      = [Asked 1 ''svc-b:a'' 0 True, Asked 1 ''svc-b:b'' 1 True]"
    using assms by (simp add: pick_target_task_def alone_seq ask_available_def on_registry_def defs)
qed

lemma sample_body_alone:
  assumes "sh_request_counter sh = 0" and "sh_limiter sh = Map.empty"
    and "sh_registries sh 1 = upstream_registry sample_upstream"
  shows "alone_result (proxy_body sample_app sample_gateway_env sample_request) sh = Return sample_answer"
    and "events (alone_history (proxy_body sample_app sample_gateway_env sample_request) sh) = sample_events"
proof -
  note run = sample_body sample_forward sample_check sample_limiter_enabled Let_def alone_seq sample_send
    operation_defs sample_pick sample_events_def assms
  show "alone_result (proxy_body sample_app sample_gateway_env sample_request) sh = Return sample_answer"
    by (simp add: run del: One_nat_def)
  show "events (alone_history (proxy_body sample_app sample_gateway_env sample_request) sh) = sample_events"
    by (simp add: run del: One_nat_def)
qed

lemma sample_handler_alone:
  assumes "\<not> sh_draining sh" and "sh_request_counter sh = 0" and "sh_limiter sh = Map.empty"
    and "sh_registries sh 1 = upstream_registry sample_upstream"
  shows "alone_result sample_handler sh = Return sample_answer"
    and "events (alone_history sample_handler sh)
      = [Bumped Requests, Saw_Draining False, Entered] @ sample_events @ [Exited]"
  using assms sample_body_alone [of "sh\<lparr>sh_metrics := inc_request (sh_metrics sh), sh_in_flight := sh_in_flight sh + 1\<rparr>"]
  by (simp_all add: sample_handler_def proxy_handler_def guarded_alt bump_def load_draining_def)

lemma sample_initial:
  "\<not> sh_draining (initial_shared sample_config)" "sh_request_counter (initial_shared sample_config) = 0"
  "sh_limiter (initial_shared sample_config) = Map.empty"
  "sh_registries (initial_shared sample_config) 1 = upstream_registry sample_upstream"
  by (simp_all add: initial_shared_def build_runtime_registry_def sample_config_def)

lemma sample_run:
  "run sample_handler (alone_history sample_handler (initial_shared sample_config)) (Done (Return sample_answer))"
  using run_alone [of sample_handler "initial_shared sample_config"] by (simp add: sample_handler_alone [OF sample_initial])

section \<open>Properties\<close>

lemma wp_handler: "wp (send_guarantee app env req) (proxy_handler app env req) (\<lambda>_ _. True) []"
proof -
  have "wp (send_guarantee app env req) (guarded (proxy_body app env req)) (\<lambda>_ _. True) [Bumped Requests, Saw_Draining False]"
    unfolding wp_guarded by (auto intro!: wp_mono [OF wp_proxy_body])
  then show ?thesis by (simp add: proxy_handler_def bump_def load_draining_def)
qed

lemma handler_send:
  assumes "run (proxy_handler app env req) h q" and "events h = before @ Sent x # after"
  shows "justified_send app env req before x \<and> length (sent_requests before)
    < max_attempts_for (pr_retries (sv_proxy (gc_server (app_config app)))) (rq_method req)"
proof -
  from assms(2) obtain h1 s s' h2 where h: "h = h1 @ (s, Sent x, s') # h2" and before: "events h1 = before"
    by (auto simp: events_def map_eq_append_conv map_eq_Cons_conv)
  from wp_guarantee [OF assms(1) [unfolded h] wp_handler]
  show ?thesis by (simp add: send_guarantee_def before)
qed

lemma last_sent:
  "sent_requests es \<noteq> [] \<Longrightarrow>
   \<exists>before x after. es = before @ Sent x # after \<and> length (sent_requests es) = Suc (length (sent_requests before))"
proof (induction es rule: rev_induct)
  case (snoc e es)
  show ?case
  proof (cases "\<exists>x. e = Sent x")
    case True
    then show ?thesis by fastforce
  next
    case False
    with snoc have "sent_requests es \<noteq> []" by auto
    with snoc.IH obtain before x after where "es = before @ Sent x # after"
      "length (sent_requests es) = Suc (length (sent_requests before))" by blast
    with False show ?thesis by (intro exI [of _ before] exI [of _ x] exI [of _ "after @ [e]"]) auto
  qed
qed simp

lemma max_attempts_alt:
  "max_attempts_for cfg m = (if should_retry_method m (rc_idempotent_only cfg) (rc_retry_unsafe_methods cfg)
     then max 1 (unat (rc_max_attempts cfg)) else 1)"
  by (auto simp: max_attempts_for_def max_def word_le_nat_alt)

text \<open>
  C1. Nothing reaches an upstream unless the request was admitted, and retries are bounded.  In every
  history of the handler, complete or not (a client may go away at any moment), with any
  operations of other tasks before each of its own: it sends at most \<open>max_attempts\<close> requests (at least
  one allowed), and at most one if the method may not be retried.  Before each of them it saw the
  gateway not draining; the router matched a route, every access plugin passed, authentication gave
  an identity that is authorized for the route, and the limiter accepted; and just before it, a
  number was drawn and the registry was asked about each target of the upstream that the traffic
  split selected.  The request goes to the target of positive weight that the balancer selects with
  that number among those that were answered yes, with the method of the client, the rewritten
  path, the transformed headers, and the body of the client or its configured replacement.
\<close>

theorem nothing_sent_unadmitted:
  assumes "run (proxy_handler app env req) h q"
  shows "length (sent_requests (events h)) \<le> (let cfg = pr_retries (sv_proxy (gc_server (app_config app)))
      in if should_retry_method (rq_method req) (rc_idempotent_only cfg) (rc_retry_unsafe_methods cfg)
         then max 1 (unat (rc_max_attempts cfg)) else 1) \<and>
    (\<forall>before x after. events h = before @ Sent x # after \<longrightarrow>
      (\<exists>r identity c up addr pq body earlier n clock oks target.
        before = earlier @ Took_Number n # asked addr (u_name up) clock 0 (u_targets up) oks \<and>
        Saw_Draining False \<in> set earlier \<and>
        match_route (gc_routes (app_config app)) (rq_path req)
          (request_protocol (ge_http env) (rq_version req) (rq_headers req)) = Some r \<and>
        pr_allowed (run_phase (app_plugins app) Access \<lparr>px_route = r_name r, px_path = rq_path req\<rparr>) \<and>
        authenticate (ge_http env) (ge_token env) (gc_security (app_config app)) (rq_headers req) = Inr identity \<and>
        authorize (gc_security (app_config app)) (auth_context_of identity (r_name r)) \<and>
        Checked (limiter_context r req identity) (ge_now env) (Ret True) \<in> set earlier \<and>
        Loaded_Counter c \<in> set earlier \<and>
        find (\<lambda>u. u_name u = select_upstream_name (ge_http env) (ge_hash env) r (rq_headers req)
          (client_key r req) c) (gc_upstreams (app_config app)) = Some up \<and>
        app_runtime app (u_name up) = Some addr \<and>
        length oks = length (u_targets up) \<and>
        select_target (ge_ovf env) (ge_hash env) (u_strategy up) (answered (u_targets up) oks)
          (Some (client_key r req)) n = Ret (Some target) \<and>
        target \<in> set (answered (u_targets up) oks) \<and> 0 < ut_weight target \<and>
        rewrite_path_and_query r (rq_path req) (original_path_and_query req) = Ret pq \<and>
        ge_body env (sv_max_request_body_bytes (gc_server (app_config app))) = Inr body \<and>
        x = upstream_request env req r up pq body target))"
proof (intro conjI allI impI)
  show "length (sent_requests (events h)) \<le> (let cfg = pr_retries (sv_proxy (gc_server (app_config app)))
      in if should_retry_method (rq_method req) (rc_idempotent_only cfg) (rc_retry_unsafe_methods cfg)
         then max 1 (unat (rc_max_attempts cfg)) else 1)"
    unfolding Let_def max_attempts_alt [symmetric]
    using last_sent [of "events h"] handler_send [OF assms] by (cases "sent_requests (events h) = []") fastforce+
next
  fix before x after
  assume "events h = before @ Sent x # after"
  with handler_send [OF assms] have "justified_send app env req before x" by blast
  then obtain r identity up addr pq body earlier n clock oks target where
    passed: "stage_passed app env req r identity up addr earlier"
    and select: "select_target (ge_ovf env) (ge_hash env) (u_strategy up) (answered (u_targets up) oks)
          (Some (client_key r req)) n = Ret (Some target)"
    and rest: "rewrite_path_and_query r (rq_path req) (original_path_and_query req) = Ret pq"
      "ge_body env (sv_max_request_body_bytes (gc_server (app_config app))) = Inr body"
      "before = earlier @ Took_Number n # asked addr (u_name up) clock 0 (u_targets up) oks"
      "length oks = length (u_targets up)" "x = upstream_request env req r up pq body target"
    unfolding justified_send_def by blast
  from passed obtain c where "Loaded_Counter c \<in> set earlier"
    "find (\<lambda>u. u_name u = select_upstream_name (ge_http env) (ge_hash env) r (rq_headers req)
          (client_key r req) c) (gc_upstreams (app_config app)) = Some up"
    unfolding stage_passed_def by blast
  with passed rest select select_target_sound [OF select] show "\<exists>r identity c up addr pq body earlier n clock oks target.
        before = earlier @ Took_Number n # asked addr (u_name up) clock 0 (u_targets up) oks \<and>
        Saw_Draining False \<in> set earlier \<and>
        match_route (gc_routes (app_config app)) (rq_path req)
          (request_protocol (ge_http env) (rq_version req) (rq_headers req)) = Some r \<and>
        pr_allowed (run_phase (app_plugins app) Access \<lparr>px_route = r_name r, px_path = rq_path req\<rparr>) \<and>
        authenticate (ge_http env) (ge_token env) (gc_security (app_config app)) (rq_headers req) = Inr identity \<and>
        authorize (gc_security (app_config app)) (auth_context_of identity (r_name r)) \<and>
        Checked (limiter_context r req identity) (ge_now env) (Ret True) \<in> set earlier \<and>
        Loaded_Counter c \<in> set earlier \<and>
        find (\<lambda>u. u_name u = select_upstream_name (ge_http env) (ge_hash env) r (rq_headers req)
          (client_key r req) c) (gc_upstreams (app_config app)) = Some up \<and>
        app_runtime app (u_name up) = Some addr \<and>
        length oks = length (u_targets up) \<and>
        select_target (ge_ovf env) (ge_hash env) (u_strategy up) (answered (u_targets up) oks)
          (Some (client_key r req)) n = Ret (Some target) \<and>
        target \<in> set (answered (u_targets up) oks) \<and> 0 < ut_weight target \<and>
        rewrite_path_and_query r (rq_path req) (original_path_and_query req) = Ret pq \<and>
        ge_body env (sv_max_request_body_bytes (gc_server (app_config app))) = Inr body \<and>
        x = upstream_request env req r up pq body target"
    by (intro exI [of _ r] exI [of _ identity] exI [of _ c] exI [of _ up] exI [of _ addr] exI [of _ pq]
        exI [of _ body] exI [of _ earlier] exI [of _ n] exI [of _ clock] exI [of _ oks] exI [of _ target])
      (simp add: stage_passed_def admitted_as_def plugin_context_of_def)
qed

theorem nothing_sent_unadmitted_witness:
  "length (sent_requests (events (alone_history sample_handler (initial_shared sample_config)))) \<le> 3 \<and>
   (\<exists>identity. authenticate ref_api sample_token_api (gc_security sample_config) (rq_headers sample_request) = Inr identity)"
proof -
  have h: "events (alone_history sample_handler (initial_shared sample_config))
      = ([Bumped Requests, Saw_Draining False, Entered] @ take 6 sample_events)
        @ Sent sample_sent # [Noted 1 (RecordSuccess ''svc-b:a''), Exited]"
    by (simp add: sample_handler_alone [OF sample_initial] sample_events_def)
  have m: "rc_max_attempts (pr_retries (sv_proxy (gc_server sample_config))) = 3"
    by (simp add: sample_config_def default_server_config_def default_proxy_runtime_config_def default_retry_config_def)
  note sent = nothing_sent_unadmitted [OF sample_run [unfolded sample_handler_def], folded sample_handler_def]
  from conjunct2 [OF sent] h have "\<exists>identity. authenticate ref_api sample_token_api (gc_security sample_config)
      (rq_headers sample_request) = Inr identity"
    unfolding sample_env_simps by blast
  moreover from conjunct1 [OF sent] have "length (sent_requests (events (alone_history sample_handler
      (initial_shared sample_config)))) \<le> 3"
    by (auto simp: Let_def sample_env_simps m split: if_splits)
  ultimately show ?thesis by blast
qed

text \<open>
  C7. Every request gets an answer, within a number of operations that the configuration bounds.  In a
  build without overflow checks, if no route has the jitter \<open>u64::MAX\<close>, and the path-and-query of the
  request is ASCII and starts with its path, then whatever the configuration, the plugins, the
  upstreams and the other tasks do: the handler performs at most \<open>max_attempts * (t + 4) + 8\<close>
  operations, where no upstream has more than \<open>t\<close> targets; if it has finished it has returned a
  response, never a panic; and from every point it can finish with one.
\<close>

theorem handler_always_answers:
  assumes "\<not> ge_ovf env"
    and "\<forall>r\<in>set (gc_routes (app_config app)). fi_jitter_ms (r_fault_injection r) \<noteq> - 1"
    and "prefix (rq_path req) (original_path_and_query req)" and "ascii (original_path_and_query req)"
    and "\<forall>u\<in>set (gc_upstreams (app_config app)). length (u_targets u) \<le> t"
    and "run (proxy_handler app env req) h q"
  shows "length h \<le> max_attempts_for (pr_retries (sv_proxy (gc_server (app_config app)))) (rq_method req) * (t + 4) + 8 \<and>
    (\<forall>result. q = Done result \<longrightarrow> (\<exists>response. result = Return response)) \<and>
    (\<exists>h' response. run q h' (Done (Return response)))"
proof -
  have answers: "results (proxy_handler app env req) \<subseteq> range Return"
    using answers_proxy_body [OF assms(1,3,4,2)]
    by (auto simp: proxy_handler_def bump_def load_draining_def results_guarded split: if_splits)
  have q: "results q \<subseteq> range Return" using run_results [OF assms(6)] answers by blast
  obtain h' result where "run q h' (Done result)" using run_completes [of q] by blast
  moreover from this q have "result \<in> range Return" using results_iff [of result q] by blast
  ultimately show ?thesis using q run_within [OF assms(6) ops_handler [OF assms(5)]] by auto
qed

theorem handler_always_answers_witness:
  "length (alone_history sample_handler (initial_shared sample_config)) \<le> 3 * (2 + 4) + 8"
proof -
  have "\<not> ge_ovf sample_gateway_env" by (simp add: sample_gateway_env_def)
  moreover have "\<forall>r\<in>set (gc_routes (app_config sample_app)). fi_jitter_ms (r_fault_injection r) \<noteq> - 1"
    by (simp add: sample_env_simps sample_config_def sample_routes_def default_fault_injection_def)
  moreover have "prefix (rq_path sample_request) (original_path_and_query sample_request)"
    and "ascii (original_path_and_query sample_request)" by code_simp+
  moreover have "\<forall>u\<in>set (gc_upstreams (app_config sample_app)). length (u_targets u) \<le> 2"
    by (simp add: sample_env_simps sample_config_def sample_upstream_def sample_targets_def)
  moreover have "max_attempts_for (pr_retries (sv_proxy (gc_server (app_config sample_app)))) (rq_method sample_request) = 3"
    by (simp add: max_attempts_for_def sample_env_simps sample_config_def default_server_config_def
        default_proxy_runtime_config_def default_retry_config_def sample_request_def should_retry_method_def
        max_def word_le_nat_alt)
  ultimately show ?thesis
    using handler_always_answers [OF _ _ _ _ _ sample_run [unfolded sample_handler_def], folded sample_handler_def]
    by metis
qed

text \<open>Well-formed responses, and results that are such if they are responses at all.\<close>

fun response_ok :: "response \<Rightarrow> bool" where
  "response_ok (Simple s _) \<longleftrightarrow> 100 \<le> s \<and> s < 1000"
| "response_ok (Built s hdrs _) \<longleftrightarrow> 100 \<le> s \<and> s < 1000 \<and> list_all (\<lambda>(name, _). \<not> is_hop_by_hop_header name) hdrs"

definition sound :: "'a proc \<Rightarrow> bool" where
  "sound p \<longleftrightarrow> (\<forall>r. Return r \<in> results p \<longrightarrow> response_ok r)"

lemma sound_simps [simp]:
  "sound (go x)" "sound (of_rust q)" "sound (return r) \<longleftrightarrow> response_ok r" "sound (Done Panicked)"
  "sound (Op f k) \<longleftrightarrow> (\<forall>s. sound (k s))"
  by (auto simp: sound_def split: rust.split)

lemma sound_seq: "sound m \<Longrightarrow> (\<And>x. Go x \<in> results m \<Longrightarrow> sound (f x)) \<Longrightarrow> sound (seq m f)"
  by (auto simp: sound_def results_seq)

lemma sound_ask_targets: "sound (ask_targets addr u clock i ts)"
  using panic_ask_targets by (fastforce simp: sound_def)

lemma sound_pick: "sound (pick_target_task ovf hash up addr clock key n)"
  unfolding pick_target_task_def by (rule sound_seq [OF sound_ask_targets]) simp

lemma sound_respond:
  assumes "100 \<le> ur_status up" and "ur_status up < 1000"
  shows "response_ok (respond app env req r up)"
  using assms by (auto simp: respond_def run_response_plugin_phases_def response_headers_def Let_def list_all_iff
      split: option.split)

text \<open>The environment: valid status codes from the upstream and from the status-code library.\<close>

definition valid_statuses :: "('h, 'j) gateway_env \<Rightarrow> bool" where
  "valid_statuses env \<longleftrightarrow> (\<forall>n s. status_from_u16 (ge_http env) n = Some s \<longrightarrow> 100 \<le> s \<and> s < 1000) \<and>
     (\<forall>k x resp. at_result (ge_attempt env k) x = Inr resp \<longrightarrow> 100 \<le> ur_status resp \<and> ur_status resp < 1000)"

lemma sound_send_attempt:
  assumes "valid_statuses env"
  shows "sound (send_attempt app env req r up addr pq body m k lst target)"
proof -
  have "response_ok (respond app env req r resp)" if "at_result (ge_attempt env k) x = Inr resp" for resp x
    using that assms by (intro sound_respond) (auto simp: valid_statuses_def)
  then show ?thesis
    by (auto simp: send_attempt_def Let_def send_def note_outcome_def bump_def split: sum.split)
qed

lemma sound_attempt_once:
  assumes "valid_statuses env"
  shows "sound (attempt_once app env req r up addr pq body m k lst)"
  using sound_send_attempt [OF assms]
  by (auto simp: attempt_once_def bump_def fetch_add_counter_def intro!: sound_seq [OF sound_pick] split: option.split)

lemma sound_attempt_loop:
  assumes "valid_statuses env"
  shows "sound (attempt_loop app env req r up addr pq body m ks lst)"
  by (induction ks arbitrary: lst) (auto intro!: sound_seq sound_attempt_once [OF assms])

lemma sound_forward:
  assumes "valid_statuses env"
  shows "sound (forward app env req r up addr)"
proof -
  define m where "m = max_attempts_for (pr_retries (sv_proxy (gc_server (app_config app)))) (rq_method req)"
  have "1 \<le> m" by (simp add: m_def max_attempts_alt)
  then have upt: "[1..<Suc m] = [1..<m] @ [m]" by simp
  have "sound (seq (attempt_loop app env req r up addr pq body m [1..<Suc m] None) f)" for pq body and f :: "_ \<Rightarrow> unit proc"
    unfolding upt by (rule sound_seq [OF sound_attempt_loop [OF assms]]) (simp add: attempt_loop_decides)
  then show ?thesis
    unfolding forward_def Let_def m_def [symmetric]
    by (auto simp: read_body_def bump_def simp del: upt_Suc One_nat_def split: rust.split sum.split)
qed

lemma sound_fault:
  assumes "valid_statuses env" and "maybe_apply_fault_injection (ge_http env) ovf hash fault key n = Ret (delay, Some resp)"
  shows "response_ok resp"
proof (cases "fi_abort_status fault")
  case (Some st)
  then show ?thesis using assms
    by (cases "status_from_u16 (ge_http env) st")
      (auto simp: maybe_apply_fault_injection_def valid_statuses_def Let_def split: if_splits)
qed (use assms(2) in \<open>auto simp: maybe_apply_fault_injection_def Let_def split: if_splits\<close>)

lemma sound_proxy_body:
  assumes "valid_statuses env"
  shows "sound (proxy_body app env req)"
  using sound_forward [OF assms] sound_fault [OF assms]
  by (auto simp: proxy_body_def admission_def fault_stage_def bump_def load_counter_def Let_def
      split: option.split sum.split rust.split)

text \<open>
  C26. The responses are well formed.  If the status codes of the upstreams and those that the
  library accepts are three-digit ones, every response of the handler, whatever the other tasks do,
  has a three-digit status, and none of its headers is a hop-by-hop header.
\<close>

theorem responses_well_formed:
  assumes "\<forall>n s. status_from_u16 (ge_http env) n = Some s \<longrightarrow> 100 \<le> s \<and> s < 1000"
    and "\<forall>k x resp. at_result (ge_attempt env k) x = Inr resp \<longrightarrow> 100 \<le> ur_status resp \<and> ur_status resp < 1000"
    and "run (proxy_handler app env req) h (Done (Return response))"
  shows "case response of
      Simple s _ \<Rightarrow> 100 \<le> s \<and> s < 1000
    | Built s hdrs _ \<Rightarrow> 100 \<le> s \<and> s < 1000 \<and> list_all (\<lambda>(name, _). \<not> is_hop_by_hop_header name) hdrs"
proof -
  have "valid_statuses env" using assms(1,2) unfolding valid_statuses_def by blast
  from sound_proxy_body [OF this] have "sound (proxy_handler app env req)"
    by (auto simp: proxy_handler_def bump_def load_draining_def sound_def results_guarded split: if_splits)
  moreover have "Return response \<in> results (proxy_handler app env req)" using assms(3) results_iff [of "Return response" "proxy_handler app env req"] by blast
  ultimately have "response_ok response" by (simp add: sound_def)
  then show ?thesis by (cases response) simp_all
qed

theorem responses_well_formed_witness:
  "case sample_answer of
      Simple s _ \<Rightarrow> 100 \<le> s \<and> s < 1000
    | Built s hdrs _ \<Rightarrow> 100 \<le> s \<and> s < 1000 \<and> list_all (\<lambda>(name, _). \<not> is_hop_by_hop_header name) hdrs"
  by (rule responses_well_formed [OF _ _ sample_run [unfolded sample_handler_def]])
    (auto simp: sample_env_simps ref_status.from_u16 sample_gateway_env_def sample_attempt_def sample_response_def
      split: if_splits)

text \<open>
  The retry loop always decides.  With any number of attempts the loop over \<open>1..=max_attempts\<close>
  ends in a response or a panic, never by running out of attempts: the answers for exhausted retries
  after the loop are unreachable.
\<close>

lemma retry_loop_decides:
  "Go last_status \<notin> results (attempt_loop app env req r up addr pq body (Suc n) [1..<Suc (Suc n)] lst)"
proof -
  have "[1..<Suc (Suc n)] = [1..<Suc n] @ [Suc n]" by simp
  then show ?thesis by (simp only: attempt_loop_decides not_False_eq_True)
qed

text \<open>A scrape of the metrics that nothing interrupts renders them as they are.\<close>

lemma metrics_alone:
  "alone_result metrics_handler sh = Return (Built 200 [(''content-type'', ''text/plain; version=0.0.4; charset=utf-8'')]
     (Replaced (render_prometheus (sh_metrics sh))))"
  by (simp add: metrics_handler_def read_metric_def render_prometheus_def)

section \<open>Registries by name\<close>

lemma map_of_rev_zip:
  "map_of (rev (zip xs [0..<length xs])) x =
   (if x \<in> set xs then Some (GREATEST j. j < length xs \<and> xs ! j = x) else None)"
proof (induction xs rule: rev_induct)
  case (snoc y ys)
  show ?case
  proof (cases "x = y")
    case True
    have "(GREATEST j. j < length (ys @ [y]) \<and> (ys @ [y]) ! j = x) = length ys"
      by (rule Greatest_equality) (auto simp: True)
    then show ?thesis by (simp add: True)
  next
    case False
    then have "(\<lambda>j. j < length (ys @ [y]) \<and> (ys @ [y]) ! j = x) = (\<lambda>j. j < length ys \<and> ys ! j = x)"
      by (auto simp: fun_eq_iff nth_append less_Suc_eq)
    then show ?thesis using snoc False by simp
  qed
qed simp

lemma map_of_rev_zip_last:
  assumes "x \<in> set xs"
  shows "\<exists>j<length xs. map_of (rev (zip xs [0..<length xs])) x = Some j \<and> xs ! j = x \<and>
    (\<forall>k. j < k \<longrightarrow> k < length xs \<longrightarrow> xs ! k \<noteq> x)"
proof -
  let ?P = "\<lambda>j. j < length xs \<and> xs ! j = x"
  obtain i where "?P i" using assms by (auto simp: in_set_conv_nth)
  then have "?P (Greatest ?P)" by (rule GreatestI_nat [where b = "length xs"]) auto
  moreover have "k \<le> Greatest ?P" if "?P k" for k
    using that by (rule Greatest_le_nat [where b = "length xs"]) auto
  ultimately show ?thesis using assms by (auto simp: map_of_rev_zip not_le [symmetric])
qed

lemma find_first:
  assumes "find P xs = Some x"
  shows "\<exists>i<length xs. xs ! i = x \<and> P x \<and> (\<forall>k<i. \<not> P (xs ! k))"
  using assms by (auto simp: find_Some_iff)

section \<open>The lookup of the upstream\<close>

text \<open>
  For a route that the router returned, the upstream the traffic split selects is found, and its
  registry too: the first upstream configured with that name, and the registry of the last one.
\<close>

lemma upstream_lookup:
  assumes "validate cfg = Inr ()" and "match_route (gc_routes cfg) path protocol = Some r"
  shows "\<exists>i j. i \<le> j \<and> j < length (gc_upstreams cfg) \<and>
    (let name = select_upstream_name api hash r headers key n; us = gc_upstreams cfg in
      find (\<lambda>u. u_name u = name) us = Some (us ! i) \<and> u_name (us ! i) = name \<and>
      app_runtime (initial_app cfg plugins) name = Some j \<and> u_name (us ! j) = name \<and>
      (\<forall>k<i. u_name (us ! k) \<noteq> name) \<and> (\<forall>k. j < k \<longrightarrow> k < length us \<longrightarrow> u_name (us ! k) \<noteq> name) \<and>
      sh_registries (initial_shared cfg) j =
        registry_new (hc_passive (u_health_checks (us ! j))) (u_circuit_breaker (us ! j)))"
proof -
  let ?us = "gc_upstreams cfg" and ?name = "select_upstream_name api hash r headers key n"
  have "valid_route cfg r" using assms match_route_Some(1) by (auto simp: validate_ok)
  then have name: "?name \<in> set (map u_name ?us)"
    by (auto simp: canary_selection valid_route_def split: option.splits)
  then obtain u where "find (\<lambda>u. u_name u = ?name) ?us = Some u"
    by (cases "find (\<lambda>u. u_name u = ?name) ?us") (auto simp: find_None_iff)
  with find_first [OF this] obtain i where i: "i < length ?us" "u_name (?us ! i) = ?name"
    "\<forall>k<i. u_name (?us ! k) \<noteq> ?name" "find (\<lambda>u. u_name u = ?name) ?us = Some (?us ! i)" by auto
  from map_of_rev_zip_last [OF name] obtain j where j: "j < length ?us"
    "map_of (rev (zip (map u_name ?us) [0..<length ?us])) ?name = Some j" "u_name (?us ! j) = ?name"
    "\<forall>k. j < k \<longrightarrow> k < length ?us \<longrightarrow> u_name (?us ! k) \<noteq> ?name" by auto
  have "i \<le> j" using i(1,2) j(4) by (meson linorder_not_less)
  with i j show ?thesis
    by (intro exI [of _ i] exI [of _ j])
      (simp add: Let_def initial_app_def initial_shared_def build_runtime_registry_def upstream_registry_def)
qed

end
