(* ===== verification/Retry_Spec.thy ===== *)
theory Retry_Spec
  imports Gateway
begin

text \<open>
  A specification of the forwarding of an admitted request: the loop of \<open>proxy_handler\<close> over the
  attempts, as a machine whose steps are whole attempts.

  \<^item> The machine is trying its \<open>k\<close>-th attempt, or has replied, or has crashed.  A step is labelled with the
    events of the attempt.  The code keeps a \<open>last_status\<close> and has a reply after the loop; the machine
    has neither.
  \<^item> The complete traces of the code are shown to be exactly those of the machine, under any
    interference.  So the code after the loop is never reached.
  \<^item> What holds of the steps is lifted to the handler: what is recorded after each send, which sends
    are repeated, and how the last one determines the answer.
\<close>

section \<open>The machine\<close>

datatype phase = Trying nat | Replied response | Crashed

text \<open>A failed send, or an answer with a status that is retried.\<close>

definition transient :: "('h, 'j) gateway_env \<Rightarrow> nat \<Rightarrow> sent \<Rightarrow> bool" where
  "transient env k x = (case at_result (ge_attempt env k) x of Inl _ \<Rightarrow> True | Inr up \<Rightarrow> should_retry_status (ur_status up))"

text \<open>The outcome that is recorded for the target, the events after a send, and what comes next.\<close>

definition outcome :: "('h, 'j) gateway_env \<Rightarrow> nat \<Rightarrow> nat \<Rightarrow> sent \<Rightarrow> registry_event" where
  "outcome env m k x =
     (if transient env k x \<and> k < m \<or>
         (case at_result (ge_attempt env k) x of Inl _ \<Rightarrow> True | Inr up \<Rightarrow> is_server_error (ge_http env) (ur_status up))
      then RecordFailure (se_target x) (at_failed_at (ge_attempt env k)) else RecordSuccess (se_target x))"

definition outcome_events :: "('h, 'j) gateway_env \<Rightarrow> nat \<Rightarrow> nat \<Rightarrow> nat \<Rightarrow> sent \<Rightarrow> event list" where
  "outcome_events env addr m k x = Noted addr (outcome env m k x) #
     (case at_result (ge_attempt env k) x of Inl _ \<Rightarrow> [Bumped Upstream_Failures] | Inr _ \<Rightarrow> [])"

definition next_phase :: "app \<Rightarrow> ('h, 'j) gateway_env \<Rightarrow> 'h request \<Rightarrow> route \<Rightarrow> nat \<Rightarrow> nat \<Rightarrow> sent \<Rightarrow> phase" where
  "next_phase app env req r m k x =
     (if transient env k x \<and> k < m then Trying (Suc k)
      else case at_result (ge_attempt env k) x of
        Inl _ \<Rightarrow> Replied (Simple 502 ''upstream request failed'')
      | Inr up \<Rightarrow> Replied (respond app env req r up))"

text \<open>The target for a number and the answers of the registry.\<close>

definition selected ::
    "('h, 'j) gateway_env \<Rightarrow> upstream_config \<Rightarrow> string \<Rightarrow> bool list \<Rightarrow> usize \<Rightarrow> upstream_target option rust" where
  "selected env up key oks n =
     (if answered (u_targets up) oks = [] then Ret None
      else select_target (ge_ovf env) (ge_hash env) (u_strategy up) (answered (u_targets up) oks) (Some key) n)"

definition timed_out :: "app \<Rightarrow> ('h, 'j) gateway_env \<Rightarrow> nat \<Rightarrow> bool" where
  "timed_out app env k \<longleftrightarrow> from_millis (pr_request_timeout_ms (sv_proxy (gc_server (app_config app))))
     \<le> at_elapsed (ge_attempt env k)"

definition drawn :: "('h, 'j) gateway_env \<Rightarrow> upstream_config \<Rightarrow> nat \<Rightarrow> nat \<Rightarrow> usize \<Rightarrow> bool list \<Rightarrow> event list" where
  "drawn env up addr k n oks =
     Took_Number n # asked addr (u_name up) (at_clock (ge_attempt env k)) 0 (u_targets up) oks"

inductive attempt :: "app \<Rightarrow> ('h, 'j) gateway_env \<Rightarrow> 'h request \<Rightarrow> route \<Rightarrow> upstream_config \<Rightarrow> nat \<Rightarrow> string \<Rightarrow> string \<Rightarrow> nat \<Rightarrow>
    nat \<Rightarrow> event list \<Rightarrow> phase \<Rightarrow> bool" for app env req r up addr pq body m k where
  timeout: "timed_out app env k \<Longrightarrow>
    attempt app env req r up addr pq body m k [Bumped Upstream_Failures] (Replied (Simple 504 ''upstream request timed out''))"
| crash: "\<not> timed_out app env k \<Longrightarrow> length oks = length (u_targets up) \<Longrightarrow> selected env up (client_key r req) oks n = Panic \<Longrightarrow>
    attempt app env req r up addr pq body m k (drawn env up addr k n oks) Crashed"
| no_target: "\<not> timed_out app env k \<Longrightarrow> length oks = length (u_targets up) \<Longrightarrow> selected env up (client_key r req) oks n = Ret None \<Longrightarrow>
    attempt app env req r up addr pq body m k (drawn env up addr k n oks @ [Bumped Errors])
      (Replied (Simple 502 ''no healthy upstream target available''))"
| sends: "\<not> timed_out app env k \<Longrightarrow> length oks = length (u_targets up) \<Longrightarrow>
    selected env up (client_key r req) oks n = Ret (Some target) \<Longrightarrow> x = upstream_request env req r up pq body target \<Longrightarrow>
    attempt app env req r up addr pq body m k (drawn env up addr k n oks @ Sent x # outcome_events env addr m k x)
      (next_phase app env req r m k x)"

inductive_cases attempt_cases: "attempt app env req r up addr pq body m k es ph"

inductive attempts :: "app \<Rightarrow> ('h, 'j) gateway_env \<Rightarrow> 'h request \<Rightarrow> route \<Rightarrow> upstream_config \<Rightarrow> nat \<Rightarrow> string \<Rightarrow> string \<Rightarrow> nat \<Rightarrow>
    nat \<Rightarrow> event list \<Rightarrow> phase \<Rightarrow> bool" for app env req r up addr pq body m where
  last: "attempt app env req r up addr pq body m k es ph \<Longrightarrow> (\<And>k'. ph \<noteq> Trying k') \<Longrightarrow>
    attempts app env req r up addr pq body m k es ph"
| again: "attempt app env req r up addr pq body m k es (Trying k') \<Longrightarrow> attempts app env req r up addr pq body m k' es' ph \<Longrightarrow>
    attempts app env req r up addr pq body m k (es @ es') ph"

fun phase_flow :: "phase \<Rightarrow> 'a flow \<Rightarrow> bool" where
  "phase_flow (Trying k) fl \<longleftrightarrow> False"
| "phase_flow (Replied resp) fl \<longleftrightarrow> fl = Return resp"
| "phase_flow Crashed fl \<longleftrightarrow> fl = Panicked"

section \<open>Complete traces of the operations\<close>

lemma does_proc [simp]:
  "does (go x) es fl \<longleftrightarrow> es = [] \<and> fl = Go x" "does (return resp) es fl' \<longleftrightarrow> es = [] \<and> fl' = Return resp"
  "does (of_rust q) es fr \<longleftrightarrow> es = [] \<and> fr = (case q of Panic \<Rightarrow> Panicked | Ret y \<Rightarrow> Go y)"
  by (simp_all add: go_def return_def of_rust_def)

lemma does_seq:
  "does (seq m f) es fl \<longleftrightarrow>
     does m es Panicked \<and> fl = Panicked \<or> (\<exists>resp. does m es (Return resp) \<and> fl = Return resp) \<or>
     (\<exists>es1 es2 x. es = es1 @ es2 \<and> does m es1 (Go x) \<and> does (f x) es2 fl)"
  (is "_ \<longleftrightarrow> ?R")
proof -
  have "does (seq m f) es fl \<longleftrightarrow> (\<exists>es1 es2 a. es = es1 @ es2 \<and> does m es1 a \<and>
      does (case a of Panicked \<Rightarrow> Done Panicked | Return resp \<Rightarrow> Done (Return resp) | Go x \<Rightarrow> f x) es2 fl)"
    by (simp add: seq_def does_andthen)
  also have "\<dots> \<longleftrightarrow> ?R" by (auto split: flow.splits) (metis append_Nil2 flow.exhaust)+
  finally show ?thesis .
qed

lemma does_seq_Go:
  assumes "\<And>es fl. does m es fl \<longleftrightarrow> (\<exists>y. P es y \<and> fl = Go (v y))"
  shows "does (seq m f) es fl \<longleftrightarrow> (\<exists>es1 es2 y. es = es1 @ es2 \<and> P es1 y \<and> does (f (v y)) es2 fl)"
  unfolding does_seq assms by auto

lemma does_query:
  assumes "\<And>v. \<exists>sh. ans sh = v"
  shows "does (seq (query ans ev g) f) es fl \<longleftrightarrow> (\<exists>v es'. es = ev v # es' \<and> does (f v) es' fl)"
proof -
  have "does (seq (query ans ev g) f) es fl \<longleftrightarrow> (\<exists>sh es'. es = ev (ans sh) # es' \<and> does (f (ans sh)) es' fl)" by simp
  also have "\<dots> \<longleftrightarrow> (\<exists>v es'. es = ev v # es' \<and> does (f v) es' fl)" using assms by metis
  finally show ?thesis .
qed

lemma does_act: "does (seq (act e g) f) es fl \<longleftrightarrow> (\<exists>es'. es = e # es' \<and> does (f ()) es' fl)"
  by simp

text \<open>The registry can give any answer and the counter any number: other tasks may have left them so.\<close>

lemma some_answer: "\<exists>sh. fst (is_available (sh_registries sh addr) key now) = ok"
proof -
  let ?reg = "set_active_health (registry_new undefined undefined) key ok"
  have "fst (is_available ?reg key now) = ok"
    by (simp add: is_available_def admit_def set_active_health_def registry_new_def put_runtime_def runtime_of_def
        default_target_runtime_def)
  then show ?thesis by (intro exI [of _ "undefined\<lparr>sh_registries := (\<lambda>_. ?reg)\<rparr>"]) simp
qed

lemma some_number: "\<exists>sh. sh_request_counter sh = n"
  by (intro exI [of _ "undefined\<lparr>sh_request_counter := n\<rparr>"]) simp

lemma ex_list_Suc: "(\<exists>xs. length xs = Suc n \<and> Q xs) \<longleftrightarrow> (\<exists>x xs. length xs = n \<and> Q (x # xs))"
  by (auto simp: length_Suc_conv)

lemma does_ask_targets:
  "does (ask_targets addr u clock i ts) es fl \<longleftrightarrow>
   (\<exists>oks. (length oks = length ts \<and> es = asked addr u clock i ts oks) \<and> fl = Go (answered ts oks))"
proof (induction ts arbitrary: i es fl)
  case (Cons t ts)
  let ?e = "Asked addr (target_key u (ut_id t)) (clock i)"
  have "does (ask_targets addr u clock i (t # ts)) es fl \<longleftrightarrow> (\<exists>ok es'. es = ?e ok # es' \<and>
       does (seq (ask_targets addr u clock (Suc i) ts) (\<lambda>rest. go (if ok then t # rest else rest))) es' fl)"
    unfolding ask_targets.simps ask_available_def by (rule does_query) (rule some_answer)
  also have "\<dots> \<longleftrightarrow> (\<exists>ok oks. length oks = length ts \<and> es = asked addr u clock i (t # ts) (ok # oks) \<and>
      fl = Go (answered (t # ts) (ok # oks)))"
    unfolding does_seq_Go [of _ "\<lambda>es oks. length oks = length ts \<and> es = asked addr u clock (Suc i) ts oks" "answered ts", OF Cons.IH]
    by (intro ex_cong1) (simp, blast)
  also have "\<dots> \<longleftrightarrow> (\<exists>oks. (length oks = length (t # ts) \<and> es = asked addr u clock i (t # ts) oks) \<and>
      fl = Go (answered (t # ts) oks))"
    unfolding length_Cons conj_assoc ex_list_Suc ..
  finally show ?case .
qed simp

lemma does_pick:
  "does (pick_target_task (ge_ovf env) (ge_hash env) up addr clock key n) es fl \<longleftrightarrow>
   (\<exists>oks. length oks = length (u_targets up) \<and> es = asked addr (u_name up) clock 0 (u_targets up) oks \<and>
      fl = (case selected env up key oks n of Panic \<Rightarrow> Panicked | Ret t \<Rightarrow> Go t))"
proof -
  have "does (if answered (u_targets up) oks = [] then go None
      else of_rust (select_target (ge_ovf env) (ge_hash env) (u_strategy up) (answered (u_targets up) oks) (Some key) n)) es2 fl
    \<longleftrightarrow> es2 = [] \<and> fl = (case selected env up key oks n of Panic \<Rightarrow> Panicked | Ret t \<Rightarrow> Go t)" for oks es2
    by (simp add: selected_def)
  then show ?thesis
    unfolding pick_target_task_def does_seq_Go [of _ "\<lambda>es oks. length oks = length (u_targets up) \<and>
      es = asked addr (u_name up) clock 0 (u_targets up) oks" "answered (u_targets up)", OF does_ask_targets]
    by auto
qed

lemma does_seq_pick:
  "does (seq (pick_target_task (ge_ovf env) (ge_hash env) up addr clock key n) f) es fl \<longleftrightarrow>
   (\<exists>oks es2. length oks = length (u_targets up) \<and> es = asked addr (u_name up) clock 0 (u_targets up) oks @ es2 \<and>
      (case selected env up key oks n of Panic \<Rightarrow> es2 = [] \<and> fl = Panicked | Ret t \<Rightarrow> does (f t) es2 fl))"
  (is "_ \<longleftrightarrow> ?R")
proof -
  have flow: "Return resp = (case q of Panic \<Rightarrow> Panicked | Ret t \<Rightarrow> Go t) \<longleftrightarrow> False"
    "Panicked = (case q of Panic \<Rightarrow> Panicked | Ret t \<Rightarrow> Go t) \<longleftrightarrow> q = Panic"
    "Go x = (case q of Panic \<Rightarrow> Panicked | Ret t \<Rightarrow> Go t) \<longleftrightarrow> q = Ret x" for resp x q
    by (auto split: rust.splits)
  have "does (seq (pick_target_task (ge_ovf env) (ge_hash env) up addr clock key n) f) es fl \<longleftrightarrow>
     (\<exists>oks. length oks = length (u_targets up) \<and> es = asked addr (u_name up) clock 0 (u_targets up) oks \<and>
        selected env up key oks n = Panic \<and> fl = Panicked) \<or>
     (\<exists>oks es2 t. length oks = length (u_targets up) \<and> es = asked addr (u_name up) clock 0 (u_targets up) oks @ es2 \<and>
        selected env up key oks n = Ret t \<and> does (f t) es2 fl)"
    unfolding does_seq does_pick flow by blast
  also have "\<dots> \<longleftrightarrow> ?R"
  proof -
    have "(case q of Panic \<Rightarrow> A | Ret t \<Rightarrow> B t) \<longleftrightarrow> q = Panic \<and> A \<or> (\<exists>t. q = Ret t \<and> B t)"
      for q :: "upstream_target option rust" and A B by (cases q) simp_all
    then show ?thesis by auto
  qed
  finally show ?thesis .
qed

text \<open>After a target has been picked, and one whole attempt.\<close>

fun flow_phase :: "nat \<Rightarrow> 'a flow \<Rightarrow> phase" where
  "flow_phase k Panicked = Crashed"
| "flow_phase k (Return resp) = Replied resp"
| "flow_phase k (Go x) = Trying (Suc k)"

lemma does_send_attempt:
  "let x = upstream_request env req r up pq body target in
   does (send_attempt app env req r up addr pq body m k lst target) es fl \<longrightarrow>
     es = Sent x # outcome_events env addr m k x \<and> flow_phase k fl = next_phase app env req r m k x"
  by (auto simp: send_attempt_def Let_def send_def note_outcome_def bump_def outcome_events_def outcome_def transient_def
      next_phase_def split: sum.splits if_splits)

lemma send_attempt_does:
  "let x = upstream_request env req r up pq body target in
   \<exists>fl. does (send_attempt app env req r up addr pq body m k lst target) (Sent x # outcome_events env addr m k x) fl \<and>
     flow_phase k fl = next_phase app env req r m k x"
  by (auto simp: send_attempt_def Let_def send_def note_outcome_def bump_def outcome_events_def outcome_def transient_def
      next_phase_def split: sum.splits)

lemma does_attempt_once:
  assumes "does (attempt_once app env req r up addr pq body m k lst) es fl"
  shows "attempt app env req r up addr pq body m k es (flow_phase k fl)"
proof (cases "timed_out app env k")
  case True
  with assms have "es = [Bumped Upstream_Failures]" "fl = Return (Simple 504 ''upstream request timed out'')"
    by (simp_all add: attempt_once_def timed_out_def bump_def)
  with True show ?thesis by (simp add: attempt.timeout)
next
  case False
  let ?rest = "\<lambda>picked. case picked of
      None \<Rightarrow> seq (bump Errors) (\<lambda>_. return (Simple 502 ''no healthy upstream target available''))
    | Some target \<Rightarrow> send_attempt app env req r up addr pq body m k lst target"
  from False assms obtain n es' where es: "es = Took_Number n # es'"
    and pick: "does (seq (pick_target_task (ge_ovf env) (ge_hash env) up addr (at_clock (ge_attempt env k)) (client_key r req) n) ?rest) es' fl"
    by (auto simp: attempt_once_def timed_out_def fetch_add_counter_def)
  from pick obtain oks es2 where oks: "length oks = length (u_targets up)"
    and es': "es' = asked addr (u_name up) (at_clock (ge_attempt env k)) 0 (u_targets up) oks @ es2"
    and rest: "case selected env up (client_key r req) oks n of Panic \<Rightarrow> es2 = [] \<and> fl = Panicked | Ret t \<Rightarrow> does (?rest t) es2 fl"
    unfolding does_seq_pick by blast
  show ?thesis
  proof (cases "selected env up (client_key r req) oks n")
    case Panic
    with rest attempt.crash [OF False oks Panic] show ?thesis by (simp add: es es' drawn_def)
  next
    case (Ret t)
    show ?thesis
    proof (cases t)
      case None
      with rest Ret attempt.no_target [OF False oks, of r req n] show ?thesis by (auto simp: es es' drawn_def bump_def)
    next
      case (Some target)
      let ?x = "upstream_request env req r up pq body target"
      have "attempt app env req r up addr pq body m k (drawn env up addr k n oks @ Sent ?x # outcome_events env addr m k ?x)
          (next_phase app env req r m k ?x)"
        by (rule attempt.sends [OF False oks _ refl]) (simp add: Ret Some)
      with rest Ret Some does_send_attempt [of env req r up pq body target app addr m k lst es2 fl]
      show ?thesis by (simp add: es es' drawn_def Let_def)
    qed
  qed
qed

lemma attempt_once_does:
  assumes "attempt app env req r up addr pq body m k es ph"
  shows "\<exists>fl. does (attempt_once app env req r up addr pq body m k lst) es fl \<and> flow_phase k fl = ph"
proof -
  let ?rest = "\<lambda>picked. case picked of
      None \<Rightarrow> seq (bump Errors) (\<lambda>_. return (Simple 502 ''no healthy upstream target available''))
    | Some target \<Rightarrow> send_attempt app env req r up addr pq body m k lst target"
  have once: "does (attempt_once app env req r up addr pq body m k lst) (drawn env up addr k n oks @ ds) fl"
    if "\<not> timed_out app env k" and "length oks = length (u_targets up)"
      and "case selected env up (client_key r req) oks n of Panic \<Rightarrow> ds = [] \<and> fl = Panicked | Ret t \<Rightarrow> does (?rest t) ds fl"
    for oks n ds fl
  proof -
    have "does (seq fetch_add_counter (\<lambda>n. seq (pick_target_task (ge_ovf env) (ge_hash env) up addr
        (at_clock (ge_attempt env k)) (client_key r req) n) ?rest)) (drawn env up addr k n oks @ ds) fl"
      unfolding fetch_add_counter_def does_query [of sh_request_counter, OF some_number] does_seq_pick drawn_def
      using that(2,3) by auto
    with that(1) show ?thesis by (simp add: attempt_once_def timed_out_def)
  qed
  from assms show ?thesis
  proof (cases rule: attempt.cases)
    case timeout
    then show ?thesis by (auto simp: attempt_once_def timed_out_def bump_def)
  next
    case (crash oks n)
    with once [where oks = oks and n = n and ds = "[]" and fl = Panicked] show ?thesis by auto
  next
    case (no_target oks n)
    with once [where oks = oks and n = n and ds = "[Bumped Errors]" and fl = "Return (Simple 502 ''no healthy upstream target available'')"]
    show ?thesis by (auto simp: bump_def)
  next
    case (sends oks n target x)
    from send_attempt_does [of env req r up pq body target app addr m k lst] obtain fl where
      "does (?rest (Some target)) (Sent x # outcome_events env addr m k x) fl" "flow_phase k fl = next_phase app env req r m k x"
      using sends by (auto simp: Let_def)
    with sends once [where oks = oks and n = n and ds = "Sent x # outcome_events env addr m k x" and fl = fl] show ?thesis by auto
  qed
qed

text \<open>The whole loop.  The last attempt never goes on, so it never falls out at its end.\<close>

lemma next_phase_last: "attempt app env req r up addr pq body m k es (Trying k') \<Longrightarrow> k < m \<and> k' = Suc k"
  by (auto elim!: attempt.cases simp: next_phase_def split: if_splits sum.splits)

lemma loop_upt: "k \<le> m \<Longrightarrow> [k..<Suc m] = k # [Suc k..<Suc m]"
  by (simp add: upt_rec)

lemma does_loop:
  assumes "1 \<le> k" and "k \<le> m" and "does (attempt_loop app env req r up addr pq body m [k..<Suc m] lst) es fl"
  shows "\<exists>ph. attempts app env req r up addr pq body m k es ph \<and> phase_flow ph fl"
  using assms
proof (induction "m - k" arbitrary: k es lst)
  case 0
  then have k: "k = m" by simp
  with 0 consider (panic) "does (attempt_once app env req r up addr pq body m k lst) es Panicked" "fl = Panicked"
    | (reply) resp where "does (attempt_once app env req r up addr pq body m k lst) es (Return resp)" "fl = Return resp"
    | (on) x where "does (attempt_once app env req r up addr pq body m k lst) es (Go x)"
    unfolding loop_upt [OF 0(3)] attempt_loop.simps does_seq by auto
  then show ?case
  proof cases
    case on
    from does_attempt_once [OF this] next_phase_last k show ?thesis by fastforce
  qed (auto dest!: does_attempt_once intro!: attempts.last exI)
next
  case (Suc d)
  then have k: "k < m" by simp
  from Suc.prems(3) consider (panic) "does (attempt_once app env req r up addr pq body m k lst) es Panicked" "fl = Panicked"
    | (reply) resp where "does (attempt_once app env req r up addr pq body m k lst) es (Return resp)" "fl = Return resp"
    | (on) es1 es2 x where "es = es1 @ es2" "does (attempt_once app env req r up addr pq body m k lst) es1 (Go x)"
      "does (attempt_loop app env req r up addr pq body m [Suc k..<Suc m] x) es2 fl"
    unfolding loop_upt [OF Suc.prems(2)] attempt_loop.simps does_seq by auto
  then show ?case
  proof cases
    case on
    have "\<exists>ph. attempts app env req r up addr pq body m (Suc k) es2 ph \<and> phase_flow ph fl"
      by (rule Suc.hyps(1)) (use Suc k on in auto)
    with does_attempt_once [OF on(2)] on(1) show ?thesis by (auto intro: attempts.again)
  qed (auto dest!: does_attempt_once intro!: attempts.last exI)
qed

lemma loop_does:
  assumes "attempts app env req r up addr pq body m k es ph" and "k \<le> m"
  shows "\<exists>fl. does (attempt_loop app env req r up addr pq body m [k..<Suc m] lst) es fl \<and> phase_flow ph fl"
  using assms
proof (induction arbitrary: lst rule: attempts.induct)
  case (last k es ph)
  from attempt_once_does [OF last.hyps(1)] obtain fl where
    fl: "does (attempt_once app env req r up addr pq body m k lst) es fl" "flow_phase k fl = ph" by blast
  show ?case
  proof (cases fl)
    case (Go x)
    with fl last.hyps(2) show ?thesis by auto
  qed (use fl in \<open>unfold loop_upt [OF last.prems] attempt_loop.simps does_seq, auto\<close>)
next
  case (again k es k' es' ph)
  from attempt_once_does [OF again.hyps(1)] obtain fl where
    fl: "does (attempt_once app env req r up addr pq body m k lst) es fl" "flow_phase k fl = Trying k'" by blast
  then obtain x where x: "fl = Go x" "k' = Suc k" by (cases fl) auto
  have "k' \<le> m" using next_phase_last [OF again.hyps(1)] by simp
  from again.IH [OF this, of x] obtain fl' where
    "does (attempt_loop app env req r up addr pq body m [Suc k..<Suc m] x) es' fl'" "phase_flow ph fl'" by (auto simp: x)
  with fl x show ?case unfolding loop_upt [OF again.prems] attempt_loop.simps does_seq by blast
qed

abbreviation attempts_allowed :: "app \<Rightarrow> 'h request \<Rightarrow> nat" where
  "attempts_allowed app req \<equiv> max_attempts_for (pr_retries (sv_proxy (gc_server (app_config app)))) (rq_method req)"

lemma attempts_allowed_pos: "1 \<le> attempts_allowed app req"
  by (simp add: max_attempts_alt)

lemma does_forward:
  assumes "rewrite_path_and_query r (rq_path req) (original_path_and_query req) = Ret pq"
    and "ge_body env (sv_max_request_body_bytes (gc_server (app_config app))) = Inr body"
  shows "does (forward app env req r up addr) es fl \<longleftrightarrow>
    (\<exists>ph. attempts app env req r up addr pq body (attempts_allowed app req) 1 es ph \<and> phase_flow ph fl)"
proof -
  let ?loop = "attempt_loop app env req r up addr pq body (attempts_allowed app req) [1..<Suc (attempts_allowed app req)] None"
  have fwd: "forward app env req r up addr = seq ?loop (\<lambda>last_status. case last_status of
      Some s \<Rightarrow> return (Simple s ''upstream retries exhausted'') | None \<Rightarrow> return (Simple 502 ''upstream retries exhausted''))"
    by (simp add: forward_def Let_def read_body_def assms del: upt_Suc One_nat_def)
  note sound = does_loop [OF order_refl attempts_allowed_pos, of app env req r up addr pq body app req None]
  note complete = loop_does [OF _ attempts_allowed_pos, of app env req r up addr pq body app req _ _ None]
  show ?thesis
  proof
    assume "does (forward app env req r up addr) es fl"
    then consider "does ?loop es Panicked" "fl = Panicked" | resp where "does ?loop es (Return resp)" "fl = Return resp"
      | es1 x where "does ?loop es1 (Go x)" unfolding fwd does_seq by blast
    then show "\<exists>ph. attempts app env req r up addr pq body (attempts_allowed app req) 1 es ph \<and> phase_flow ph fl"
    proof cases
      case 3
      from sound [OF this] show ?thesis by (auto elim: phase_flow.elims)
    qed (use sound in \<open>fastforce elim: phase_flow.elims\<close>)+
  next
    assume "\<exists>ph. attempts app env req r up addr pq body (attempts_allowed app req) 1 es ph \<and> phase_flow ph fl"
    then obtain ph fl' where "phase_flow ph fl" "does ?loop es fl'" "phase_flow ph fl'" using complete by blast
    then show "does (forward app env req r up addr) es fl" unfolding fwd does_seq by (cases ph) auto
  qed
qed

section \<open>Consequences of the machine\<close>

text \<open>Every send is followed at once by the record of its outcome, and nothing else is recorded.\<close>

fun recorded :: "('h, 'j) gateway_env \<Rightarrow> nat \<Rightarrow> nat \<Rightarrow> nat \<Rightarrow> event list \<Rightarrow> bool" where
  "recorded env addr m k [] \<longleftrightarrow> True"
| "recorded env addr m k (e # es) \<longleftrightarrow> (case e of
     Sent x \<Rightarrow> (case es of Noted a ev # es' \<Rightarrow> a = addr \<and> ev = outcome env m k x \<and> recorded env addr m (Suc k) es' | _ \<Rightarrow> False)
   | Noted a ev \<Rightarrow> False
   | _ \<Rightarrow> recorded env addr m k es)"

definition unsent :: "event \<Rightarrow> bool" where
  "unsent e \<longleftrightarrow> (\<forall>x. e \<noteq> Sent x) \<and> (\<forall>a ev. e \<noteq> Noted a ev)"

lemma unsent_events:
  "list_all unsent es \<Longrightarrow> sent_requests es = []" "list_all unsent es \<Longrightarrow> recorded env addr m k es"
  "list_all unsent es \<Longrightarrow> recorded env addr m k (es @ es') \<longleftrightarrow> recorded env addr m k es'"
  by (induction es) (auto simp: unsent_def split: event.splits)

lemma recorded_append:
  "recorded env addr m k es \<Longrightarrow> recorded env addr m k (es @ es') \<longleftrightarrow> recorded env addr m (k + length (sent_requests es)) es'"
proof (induction env addr m k es rule: recorded.induct)
  case (2 env addr m k e es)
  show ?case
  proof (cases e)
    case (Sent x)
    with 2 obtain es1 where es: "es = Noted addr (outcome env m k x) # es1" "recorded env addr m (Suc k) es1"
      by (auto split: list.splits event.splits)
    with 2 show ?thesis by (simp add: Sent)
  qed (use 2 in auto)
qed simp

lemma unsent_drawn: "list_all unsent (drawn env up addr k n oks)"
proof -
  have "list_all unsent (asked a u clock i ts oks)" for a u clock i ts
    by (induction a u clock i ts oks rule: asked.induct) (simp_all add: unsent_def)
  then show ?thesis by (simp add: drawn_def unsent_def)
qed

lemma outcome_events_simps:
  "sent_requests (outcome_events env addr m k x) = []"
  "recorded env addr m k (Sent x # outcome_events env addr m k x)"
  by (simp_all add: outcome_events_def split: sum.split)

text \<open>An attempt that sends nothing ends the loop.\<close>

abbreviation given_up :: "phase set" where
  "given_up \<equiv> {Replied (Simple 504 ''upstream request timed out''), Replied (Simple 502 ''no healthy upstream target available''), Crashed}"

lemma attempt_shape:
  assumes "attempt app env req r up addr pq body m k es ph"
  shows "list_all unsent es \<and> ph \<in> given_up \<or>
    (\<exists>pre target. list_all unsent pre \<and> target \<in> set (u_targets up) \<and>
      (let x = upstream_request env req r up pq body target in
        es = pre @ Sent x # outcome_events env addr m k x \<and> ph = next_phase app env req r m k x))"
  using assms
proof (cases rule: attempt.cases)
  case (sends oks n target x)
  then have "target \<in> set (u_targets up)"
    using answered_subset select_target_sound by (fastforce simp: selected_def split: if_splits)
  with sends show ?thesis
    by (intro disjI2 exI [of _ "drawn env up addr k n oks"] exI [of _ target]) (simp add: Let_def unsent_drawn)
qed (simp_all add: unsent_drawn, simp_all add: unsent_def)

lemma attempts_recorded: "attempts app env req r up addr pq body m k es ph \<Longrightarrow> recorded env addr m k es"
proof (induction rule: attempts.induct)
  case (last k es ph)
  from attempt_shape [OF last.hyps(1)] show ?case
    by (auto simp: Let_def unsent_events outcome_events_simps simp del: recorded.simps)
next
  case (again k es k' es' ph)
  from attempt_shape [OF again.hyps(1)] obtain pre x where pre: "list_all unsent pre"
    and es: "es = pre @ Sent x # outcome_events env addr m k x" by (auto simp: Let_def)
  have "recorded env addr m k es" "length (sent_requests es) = 1"
    using pre by (simp_all add: es unsent_events outcome_events_simps del: recorded.simps)
  moreover have "k' = Suc k" using next_phase_last [OF again.hyps(1)] by simp
  ultimately show ?case using again.IH by (simp add: recorded_append)
qed

lemma attempts_answer:
  "attempts app env req r up addr pq body m k es ph \<Longrightarrow> k \<le> m \<Longrightarrow>
   (let xs = sent_requests es; j = k + length xs - 1 in
     set xs \<subseteq> upstream_request env req r up pq body ` set (u_targets up) \<and>
     (\<forall>i. Suc i < length xs \<longrightarrow> transient env (k + i) (xs ! i)) \<and>
     (if xs = [] \<or> transient env j (last xs) \<and> j < m then ph \<in> given_up
      else ph = next_phase app env req r m j (last xs)))"
proof (induction rule: attempts.induct)
  case (last k es ph)
  from attempt_shape [OF last.hyps(1)] last.hyps(2) show ?case
    by (auto simp: Let_def unsent_events outcome_events_simps next_phase_def split: if_splits)
next
  case (again k es k' es' ph)
  from attempt_shape [OF again.hyps(1)] obtain pre target where pre: "list_all unsent pre" "target \<in> set (u_targets up)"
    and es: "es = pre @ Sent (upstream_request env req r up pq body target)
        # outcome_events env addr m k (upstream_request env req r up pq body target)"
    and ph: "Trying k' = next_phase app env req r m k (upstream_request env req r up pq body target)" by (auto simp: Let_def)
  let ?x = "upstream_request env req r up pq body target"
  have k': "k' = Suc k" "k' \<le> m" using next_phase_last [OF again.hyps(1)] by simp_all
  have x: "transient env k ?x" using ph by (auto simp: next_phase_def split: if_splits sum.splits)
  have sent: "sent_requests (es @ es') = ?x # sent_requests es'"
    using pre by (simp add: es unsent_events outcome_events_simps)
  have "transient env (k + i) ((?x # sent_requests es') ! i)" if "Suc i < length (?x # sent_requests es')" for i
    using that again.IH [OF k'(2)] x by (cases i) (auto simp: Let_def k'(1))
  then show ?case using again.IH [OF k'(2)] k' pre(2) x unfolding sent by (auto simp: Let_def)
qed

section \<open>The handler\<close>

text \<open>Outside the loop the handler neither sends nor records nor draws a number.\<close>

definition idle :: "event \<Rightarrow> bool" where
  "idle e \<longleftrightarrow> unsent e \<and> (\<forall>n. e \<noteq> Took_Number n)"

lemma idle_unsent: "list_all idle es \<Longrightarrow> list_all unsent es"
  by (auto simp: list_all_iff idle_def)

lemmas idle_events = unsent_events [OF idle_unsent]

lemma does_results: "does p es a \<Longrightarrow> a \<in> results p"
  by (auto simp: does_def results_iff)

lemma does_always: "does p es a \<Longrightarrow> always (\<lambda>_ e _. E e) p \<Longrightarrow> list_all E es"
  by (auto simp: does_def dest: always_events)

lemma always_idle:
  "always (\<lambda>_ e _. idle e) (admission app env req)" "always (\<lambda>_ e _. idle e) load_counter"
  "always (\<lambda>_ e _. idle e) (fault_stage env req r c)" "always (\<lambda>_ e _. idle e) (read_body app env)"
  by (auto simp: admission_def Let_def load_counter_def fault_stage_def read_body_def bump_def idle_def unsent_def
      split: option.split sum.split rust.split)

text \<open>A complete trace of the handler sends nothing, or it is one of the machine within the guard.\<close>

definition forwards ::
    "app \<Rightarrow> ('h, 'j) gateway_env \<Rightarrow> 'h request \<Rightarrow> event list \<Rightarrow> route \<Rightarrow> upstream_config \<Rightarrow> nat \<Rightarrow> string \<Rightarrow> string \<Rightarrow> phase \<Rightarrow> bool" where
  "forwards app env req es r up addr pq body ph \<longleftrightarrow>
     (\<exists>identity. admitted_as app env req r identity) \<and>
     (\<exists>c. find (\<lambda>u. u_name u = select_upstream_name (ge_http env) (ge_hash env) r (rq_headers req) (client_key r req) c)
        (gc_upstreams (app_config app)) = Some up) \<and>
     app_runtime app (u_name up) = Some addr \<and>
     (\<exists>pre es' post. es = pre @ es' @ post \<and> list_all idle pre \<and> list_all idle post \<and>
        attempts app env req r up addr pq body (attempts_allowed app req) 1 es' ph)"

lemma does_forward_cases:
  assumes "does (forward app env req r up addr) es fl"
  shows "list_all idle es \<or> (\<exists>pq body ph. attempts app env req r up addr pq body (attempts_allowed app req) 1 es ph \<and> phase_flow ph fl)"
proof (cases "rewrite_path_and_query r (rq_path req) (original_path_and_query req)")
  case Panic
  with assms show ?thesis by (simp add: forward_def Let_def)
next
  case (Ret pq)
  show ?thesis
  proof (cases "ge_body env (sv_max_request_body_bytes (gc_server (app_config app)))")
    case (Inl err)
    with Ret assms show ?thesis by (auto simp: forward_def Let_def read_body_def bump_def idle_def unsent_def split: if_splits)
  next
    case (Inr body)
    from does_forward [OF Ret Inr] assms show ?thesis by blast
  qed
qed

lemma does_seq_idle:
  assumes "does (seq m f) es fl" and "always (\<lambda>_ e _. idle e) m" and "\<not> list_all idle es"
  obtains es1 es2 x where "es = es1 @ es2" "list_all idle es1" "\<not> list_all idle es2" "does m es1 (Go x)" "does (f x) es2 fl"
  using assms(1,3) does_always [OF _ assms(2)] that unfolding does_seq by (metis list_all_append)

lemma does_body:
  assumes "does (proxy_body app env req) es fl"
  shows "list_all idle es \<or> (\<exists>r up addr pq body ph. forwards app env req es r up addr pq body ph \<and> phase_flow ph fl)"
proof (cases "list_all idle es")
  case False
  let ?up = "\<lambda>r c. find (\<lambda>u. u_name u = select_upstream_name (ge_http env) (ge_hash env) r (rq_headers req) (client_key r req) c)
    (gc_upstreams (app_config app))"
  from does_seq_idle [OF assms [unfolded proxy_body_def Let_def] always_idle(1) False]
  obtain e1 e2 r where e1: "es = e1 @ e2" "list_all idle e1" "\<not> list_all idle e2" "does (admission app env req) e1 (Go r)"
    and e2: "does (seq load_counter (\<lambda>c. seq (fault_stage env req r c) (\<lambda>_.
       case ?up r c of None \<Rightarrow> seq (bump Errors) (\<lambda>_. return (Simple 502 ''upstream config not found''))
       | Some up \<Rightarrow> (case app_runtime app (u_name up) of
           None \<Rightarrow> seq (bump Errors) (\<lambda>_. return (Simple 502 ''runtime state unavailable''))
         | Some addr \<Rightarrow> forward app env req r up addr)))) e2 fl" .
  from does_seq_idle [OF e2 always_idle(2) e1(3)] obtain e3 e4 c where e3: "e2 = e3 @ e4" "list_all idle e3" "\<not> list_all idle e4"
    and e4: "does (seq (fault_stage env req r c) (\<lambda>_.
       case ?up r c of None \<Rightarrow> seq (bump Errors) (\<lambda>_. return (Simple 502 ''upstream config not found''))
       | Some up \<Rightarrow> (case app_runtime app (u_name up) of
           None \<Rightarrow> seq (bump Errors) (\<lambda>_. return (Simple 502 ''runtime state unavailable''))
         | Some addr \<Rightarrow> forward app env req r up addr))) e4 fl" .
  from does_seq_idle [OF e4 always_idle(3) e3(3)] obtain e5 e6 where e5: "e4 = e5 @ e6" "list_all idle e5" "\<not> list_all idle e6"
    and e6: "does (case ?up r c of None \<Rightarrow> seq (bump Errors) (\<lambda>_. return (Simple 502 ''upstream config not found''))
       | Some up \<Rightarrow> (case app_runtime app (u_name up) of
           None \<Rightarrow> seq (bump Errors) (\<lambda>_. return (Simple 502 ''runtime state unavailable''))
         | Some addr \<Rightarrow> forward app env req r up addr)) e6 fl" .
  from e6 e5(3) obtain up addr where up: "?up r c = Some up" "app_runtime app (u_name up) = Some addr"
    and fwd: "does (forward app env req r up addr) e6 fl"
    by (auto simp: bump_def idle_def unsent_def split: option.splits)
  from does_forward_cases [OF fwd] e5(3) obtain pq body ph where
    ph: "attempts app env req r up addr pq body (attempts_allowed app req) 1 e6 ph" "phase_flow ph fl" by blast
  have "\<exists>identity. admitted_as app env req r identity" using admission_Go does_results [OF e1(4)] by blast
  then have "forwards app env req es r up addr pq body ph"
    unfolding forwards_def using up ph(1) e1 e3 e5
    by (intro conjI exI [of _ c] exI [of _ "e1 @ e3 @ e5"] exI [of _ e6] exI [of _ "[]"]) auto
  with ph(2) show ?thesis by blast
qed simp

lemma does_handler:
  assumes "does (proxy_handler app env req) es fl"
  shows "list_all idle es \<or> (\<exists>r up addr pq body ph. forwards app env req es r up addr pq body ph \<and> phase_flow ph fl)"
proof -
  from assms consider "list_all idle es"
    | es' where "es = [Bumped Requests, Saw_Draining False, Entered] @ es' @ [Exited]" "does (proxy_body app env req) es' fl"
    by (auto simp: proxy_handler_def bump_def load_draining_def guarded_alt does_andthen idle_def unsent_def split: if_splits)
  then show ?thesis
  proof cases
    case 2
    have other: "list_all idle [Bumped Requests, Saw_Draining False, Entered]" "list_all idle [Exited]"
      by (simp_all add: idle_def unsent_def)
    from does_body [OF 2(2)] show ?thesis
    proof
      assume "\<exists>r up addr pq body ph. forwards app env req es' r up addr pq body ph \<and> phase_flow ph fl"
      then obtain r up addr pq body ph pre mid post where f: "forwards app env req es' r up addr pq body ph" "phase_flow ph fl"
        and es': "es' = pre @ mid @ post" "list_all idle pre" "list_all idle post"
          "attempts app env req r up addr pq body (attempts_allowed app req) 1 mid ph"
        unfolding forwards_def by blast
      have "\<exists>pre' mid' post'. es = pre' @ mid' @ post' \<and> list_all idle pre' \<and> list_all idle post' \<and>
        attempts app env req r up addr pq body (attempts_allowed app req) 1 mid' ph"
        using es' other 2(1)
        by (intro exI [of _ "[Bumped Requests, Saw_Draining False, Entered] @ pre"] exI [of _ mid] exI [of _ "post @ [Exited]"]) simp
      with f show ?thesis unfolding forwards_def by blast
    qed (use 2(1) other in simp)
  qed simp
qed

section \<open>Properties\<close>

lemma handler_recorded:
  assumes "does (proxy_handler app env req) es fl"
  shows "\<exists>addr. recorded env addr (attempts_allowed app req) 1 es \<and> (sent_requests es \<noteq> [] \<longrightarrow>
    (\<exists>up\<in>set (gc_upstreams (app_config app)). app_runtime app (u_name up) = Some addr \<and>
      (\<forall>x\<in>set (sent_requests es). \<exists>t\<in>set (u_targets up). se_target x = target_key (u_name up) (ut_id t))))"
  using does_handler [OF assms]
proof (elim disjE exE conjE)
  assume "list_all idle es"
  then show ?thesis by (intro exI) (simp add: idle_events)
next
  fix r up addr pq body ph
  assume "forwards app env req es r up addr pq body ph"
  then obtain c pre mid post where up: "app_runtime app (u_name up) = Some addr" "up \<in> set (gc_upstreams (app_config app))"
    and es: "es = pre @ mid @ post" "list_all idle pre" "list_all idle post"
    and mid: "attempts app env req r up addr pq body (attempts_allowed app req) 1 mid ph"
    unfolding forwards_def by (auto simp: find_Some_iff)
  have "recorded env addr (attempts_allowed app req) 1 es"
    using attempts_recorded [OF mid] es by (simp add: idle_events recorded_append)
  moreover have "sent_requests es = sent_requests mid" using es by (simp add: idle_events)
  moreover have "set (sent_requests mid) \<subseteq> upstream_request env req r up pq body ` set (u_targets up)"
    using attempts_answer [OF mid attempts_allowed_pos] by (simp add: Let_def)
  ultimately show ?thesis using up by (intro exI [of _ addr]) (fastforce simp: upstream_request_def)
qed

text \<open>
  C14. The loop over the attempts does exactly what the machine does.  For an admitted request whose path
  can be rewritten and whose body can be read, and for every result: the sequences of operations with
  which the code can finish with this result, under any interference, are exactly those of the
  machine.  As the machine always replies or crashes, so does the loop: the code after it is not
  reached.
\<close>

theorem forward_traces_exact:
  assumes "rewrite_path_and_query r (rq_path req) (original_path_and_query req) = Ret pq"
    and "ge_body env (sv_max_request_body_bytes (gc_server (app_config app))) = Inr body"
  shows "(\<exists>h. run (forward app env req r up addr) h (Done result) \<and> events h = es) \<longleftrightarrow>
    (\<exists>ph. attempts app env req r up addr pq body (attempts_allowed app req) 1 es ph \<and> phase_flow ph result)"
  using does_forward [OF assms] by (simp add: does_def)

lemma sample_machine:
  "attempts sample_app sample_gateway_env sample_request (last sample_routes) sample_upstream 1 ''/api/v1/users?page=2'' []
     (attempts_allowed sample_app sample_request) 1 (drop 3 sample_events) (Replied sample_answer)"
proof -
  let ?pick = "drawn sample_gateway_env sample_upstream 1 1 0 [True, True]"
  have select: "selected sample_gateway_env sample_upstream (client_key (last sample_routes) sample_request) [True, True] 0
      = Ret (Some (hd sample_targets))" by code_simp
  have late: "\<not> timed_out sample_app sample_gateway_env 1"
    by (simp add: timed_out_def sample_env_simps sample_config_def default_server_config_def default_proxy_runtime_config_def
        from_millis_def)
  have ok: "\<not> transient sample_gateway_env 1 sample_sent" "\<not> is_server_error (ge_http sample_gateway_env) 200"
    by (simp_all add: transient_def sample_env_simps should_retry_status_def ref_status.server_error)
  have length: "length [True, True] = length (u_targets sample_upstream)"
    by (simp add: sample_upstream_def sample_targets_def)
  have "attempt sample_app sample_gateway_env sample_request (last sample_routes) sample_upstream 1 ''/api/v1/users?page=2'' []
      (attempts_allowed sample_app sample_request) 1
      (?pick @ Sent sample_sent # outcome_events sample_gateway_env 1 (attempts_allowed sample_app sample_request) 1 sample_sent)
      (next_phase sample_app sample_gateway_env sample_request (last sample_routes) (attempts_allowed sample_app sample_request) 1 sample_sent)"
    by (rule attempt.sends [OF late length select]) (simp add: sample_request_sent)
  moreover have "?pick @ Sent sample_sent # outcome_events sample_gateway_env 1 (attempts_allowed sample_app sample_request) 1 sample_sent
      = drop 3 sample_events"
    using ok by (simp add: drawn_def sample_events_def sample_upstream_def sample_targets_def sample_env_simps target_key_def
        outcome_events_def outcome_def sample_sent_def del: One_nat_def)
  moreover have "next_phase sample_app sample_gateway_env sample_request (last sample_routes)
      (attempts_allowed sample_app sample_request) 1 sample_sent = Replied sample_answer"
    using ok by (simp add: next_phase_def sample_env_simps sample_respond)
  ultimately show ?thesis by (intro attempts.last) simp_all
qed

theorem forward_traces_exact_witness:
  "\<exists>h. run (forward sample_app sample_gateway_env sample_request (last sample_routes) sample_upstream 1) h
      (Done (Return sample_answer)) \<and> events h = drop 3 sample_events"
proof -
  have path: "rewrite_path_and_query (last sample_routes) (rq_path sample_request)
      (original_path_and_query sample_request) = Ret ''/api/v1/users?page=2''"
    by code_simp
  have body: "ge_body sample_gateway_env (sv_max_request_body_bytes (gc_server (app_config sample_app))) = Inr []"
    by (simp add: sample_gateway_env_def)
  show ?thesis
    unfolding forward_traces_exact [OF path body] using sample_machine by (intro exI [of _ "Replied sample_answer"]) simp
qed

text \<open>
  C12. The health of the targets follows what was sent.  In every history of the handler, under any
  interference, the operation after each send is the record of its outcome in the registry of
  the upstream, for the target it was sent to, and the handler records nothing else; only a
  request that is abandoned right after a send leaves it unrecorded.  The outcome of the \<open>k\<close>-th send is
  a failure if the send failed, if the status is one of a server error, or if it is retried.
\<close>

theorem every_send_recorded:
  assumes "run (proxy_handler app env req) h q"
  shows "\<exists>addr later. recorded env addr (attempts_allowed app req) 1 (events h @ later) \<and>
    (\<forall>result. q = Done result \<longrightarrow> later = []) \<and>
    (sent_requests (events h) \<noteq> [] \<longrightarrow> (\<exists>up\<in>set (gc_upstreams (app_config app)). app_runtime app (u_name up) = Some addr \<and>
      (\<forall>x\<in>set (sent_requests (events h)). \<exists>t\<in>set (u_targets up). se_target x = target_key (u_name up) (ut_id t))))"
proof -
  obtain h' result where h': "run q h' (Done result)" using run_completes [of q] by blast
  with run_append [OF assms] have "does (proxy_handler app env req) (events h @ events h') result"
    unfolding does_def by fastforce
  from handler_recorded [OF this] obtain addr where
    rec: "recorded env addr (attempts_allowed app req) 1 (events h @ events h')" and up: "sent_requests (events h @ events h') \<noteq> [] \<longrightarrow>
    (\<exists>up\<in>set (gc_upstreams (app_config app)). app_runtime app (u_name up) = Some addr \<and>
      (\<forall>x\<in>set (sent_requests (events h @ events h')). \<exists>t\<in>set (u_targets up). se_target x = target_key (u_name up) (ut_id t)))"
    by blast
  have "\<forall>result. q = Done result \<longrightarrow> events h' = []" using h' by auto
  with rec up show ?thesis by (intro exI [of _ addr] exI [of _ "events h'"]) auto
qed

lemma sample_history:
  "events (alone_history sample_handler (initial_shared sample_config)) =
     [Bumped Requests, Saw_Draining False, Entered] @ sample_events @ [Exited]"
  "sent_requests (events (alone_history sample_handler (initial_shared sample_config))) = [sample_sent]"
  by (simp_all add: sample_handler_alone [OF sample_initial] sample_events_def)

lemma sample_attempts: "attempts_allowed sample_app sample_request = 3"
  by (simp add: max_attempts_alt sample_env_simps sample_config_def default_server_config_def default_proxy_runtime_config_def default_retry_config_def sample_request_def
      should_retry_method_def)

theorem every_send_recorded_witness:
  "\<exists>addr. recorded sample_gateway_env addr 3 1
     ([Bumped Requests, Saw_Draining False, Entered] @ sample_events @ [Exited])"
  using every_send_recorded [OF sample_run [unfolded sample_handler_def], folded sample_handler_def]
  unfolding sample_history sample_attempts by fastforce

text \<open>
  C10. The answer is determined by the last send.  For every complete history of the handler that sent
  something, under any interference: every send but the last failed or was answered with a status
  that is retried, 429 or 5xx.  If attempts were left after such an outcome of the last one, the
  answer is that the deadline passed or that no target was available; otherwise it is built from the
  response of the upstream, or it is a 502 if that send itself failed.
\<close>

theorem answer_follows_last_send:
  assumes "run (proxy_handler app env req) h (Done (Return response))" and "sent_requests (events h) \<noteq> []"
  shows "let xs = sent_requests (events h); k = length xs; m = attempts_allowed app req in
    k \<le> m \<and> (\<forall>i. Suc i < k \<longrightarrow> transient env (Suc i) (xs ! i)) \<and>
    (\<exists>r. match_route (gc_routes (app_config app)) (rq_path req)
        (request_protocol (ge_http env) (rq_version req) (rq_headers req)) = Some r \<and>
      (if transient env k (last xs) \<and> k < m
       then response = Simple 504 ''upstream request timed out'' \<or> response = Simple 502 ''no healthy upstream target available''
       else response = (case at_result (ge_attempt env k) (last xs) of
           Inl err \<Rightarrow> Simple 502 ''upstream request failed''
         | Inr up \<Rightarrow> respond app env req r up)))"
proof -
  have does: "does (proxy_handler app env req) (events h) (Return response)" using assms(1) by (auto simp: does_def)
  from does_handler [OF this] assms(2) obtain r up addr pq body ph where
    f: "forwards app env req (events h) r up addr pq body ph" "phase_flow ph (Return response :: unit flow)"
    by (auto simp: idle_events)
  then have ph: "ph = Replied response" by (auto elim: phase_flow.elims)
  from f(1) obtain pre mid post where es: "events h = pre @ mid @ post" "list_all idle pre" "list_all idle post"
    and mid: "attempts app env req r up addr pq body (attempts_allowed app req) 1 mid ph"
    and r: "match_route (gc_routes (app_config app)) (rq_path req)
        (request_protocol (ge_http env) (rq_version req) (rq_headers req)) = Some r"
    unfolding forwards_def admitted_as_def by blast
  have sent: "sent_requests (events h) = sent_requests mid" using es by (simp add: idle_events)
  have "length (sent_requests (events h)) \<le> attempts_allowed app req"
    using last_sent [OF assms(2)] handler_send [OF assms(1)] by fastforce
  moreover have "next_phase app env req r m k x = ph \<longrightarrow>
      response = (case at_result (ge_attempt env k) x of Inl err \<Rightarrow> Simple 502 ''upstream request failed'' | Inr up \<Rightarrow> respond app env req r up)"
    for m k x by (auto simp: next_phase_def ph split: sum.splits if_splits)
  ultimately show ?thesis
    using attempts_answer [OF mid attempts_allowed_pos] assms(2) r unfolding sent Let_def ph
    by (intro conjI exI [of _ r]) (auto split: if_splits)
qed

theorem answer_follows_last_send_witness:
  "\<exists>r. match_route (gc_routes sample_config) (rq_path sample_request)
      (request_protocol ref_api (rq_version sample_request) (rq_headers sample_request)) = Some r \<and>
    sample_answer = respond sample_app sample_gateway_env sample_request r sample_response"
proof -
  have "\<not> transient sample_gateway_env k x" for k x
    by (simp add: transient_def sample_env_simps should_retry_status_def)
  then show ?thesis
    using answer_follows_last_send [OF sample_run [unfolded sample_handler_def], folded sample_handler_def]
    unfolding sample_history(2) sample_attempts Let_def by (simp add: sample_env_simps)
qed

text \<open>A status 429 counts as a failure of the target while attempts are left, and as a success on the last.\<close>

lemma too_many_requests_outcome:
  assumes "at_result (ge_attempt env k) x = Inr up" and "ur_status up = 429" and "\<not> is_server_error (ge_http env) 429"
  shows "outcome env m k x = (if k < m then RecordFailure (se_target x) (at_failed_at (ge_attempt env k))
    else RecordSuccess (se_target x))"
  using assms by (simp add: outcome_def transient_def should_retry_status_def)

end
