(* ===== verification/Server.thy ===== *)
theory Server
  imports Gateway
begin

text \<open>
  The process around the handlers, from \<open>main\<close>: the start, the tasks of the active health checks, and
  the shutdown.  The two kinds of task are loops in the sense of \<open>Task\<close>: the program of each round is
  given, and between any two operations the other tasks may run.  How all tasks run together is in
  the theory \<open>Process\<close>.
\<close>

section \<open>Start\<close>

text \<open>What the start reads: the environment variable, the file system, and the two parsers.\<close>

record startup_env =
  su_gateway_config :: "string option"
  su_read_to_string :: "string \<Rightarrow> string res"
  su_json_from_str :: "string \<Rightarrow> gateway_config res"
  su_yaml_from_str :: "string \<Rightarrow> gateway_config res"
  su_plugin_env :: plugin_env

definition config_path :: "startup_env \<Rightarrow> string" where
  "config_path env = (case su_gateway_config env of Some path \<Rightarrow> path | None \<Rightarrow> ''examples/config.yaml'')"

text \<open>The state the server is started with; an error is the exit of the process with code 1.\<close>

definition startup :: "startup_env \<Rightarrow> (app \<times> shared) res" where
  "startup env =
     bind_res (load_from_path (su_read_to_string env) (su_json_from_str env) (su_yaml_from_str env)
         (config_path env))
       (\<lambda>config. case from_config (su_plugin_env env) (gc_plugins config) of
          (Inl err, _) \<Rightarrow> Inl err
        | (Inr _, manager) \<Rightarrow> Inr (initial_app config (pm_plugins manager), initial_shared config))"

text \<open>
  The rest of the start: the HTTP client with the settings of the configuration, the parsing of the
  listening address and the binding of the listener.  Their failures are panics of \<open>expect\<close>.  What
  the libraries do of it is given by the environment.
\<close>

record client_settings =
  cl_pool_max_idle_per_host :: usize
  cl_pool_idle_timeout :: duration
  cl_connect_timeout :: duration
  cl_timeout :: duration

definition client_settings_of :: "proxy_runtime_config \<Rightarrow> client_settings" where
  "client_settings_of cfg =
     \<lparr>cl_pool_max_idle_per_host = pr_max_idle_per_host cfg,
      cl_pool_idle_timeout = from_secs (pr_idle_timeout_secs cfg),
      cl_connect_timeout = from_millis (pr_connect_timeout_ms cfg),
      cl_timeout = from_millis (pr_read_timeout_ms cfg)\<rparr>"

record 'addr listen_env =
  le_build_client :: "client_settings \<Rightarrow> bool"
  le_parse_addr :: "string \<Rightarrow> 'addr option"
  le_bind :: "'addr \<Rightarrow> bool"

datatype 'addr started = Exit string | Crash string | Serving app shared 'addr

definition main_start :: "startup_env \<Rightarrow> 'addr listen_env \<Rightarrow> 'addr started" where
  "main_start env le =
     (case startup env of
        Inl err \<Rightarrow> Exit err
      | Inr (app, sh) \<Rightarrow>
          (let server = gc_server (app_config app)
           in if \<not> le_build_client le (client_settings_of (sv_proxy server))
              then Crash ''reqwest client creation should succeed''
              else case le_parse_addr le (sv_listen_addr server) of
                  None \<Rightarrow> Crash ''listen_addr should be a valid socket address''
                | Some addr \<Rightarrow>
                    if le_bind le addr then Serving app sh addr else Crash ''failed to bind listener''))"

section \<open>Active health checks\<close>

text \<open>
  The answer to a probe, by round and position of the target: the status, or nothing when the request
  fails.
\<close>

record check_env =
  ce_probe :: "nat \<Rightarrow> nat \<Rightarrow> string \<Rightarrow> duration \<Rightarrow> status option"

text \<open>The upstreams that get a task, with the address of the registry the task works on.\<close>

definition spawn_active_health_checks :: "app \<Rightarrow> (upstream_config \<times> nat) list" where
  "spawn_active_health_checks app =
     List.map_filter (\<lambda>upstream.
       if \<not> ah_enabled (hc_active (u_health_checks upstream)) then None
       else map_option (Pair upstream) (app_runtime app (u_name upstream)))
     (gc_upstreams (app_config app))"

definition probe_healthy ::
    "'h http_api \<Rightarrow> check_env \<Rightarrow> upstream_config \<Rightarrow> nat \<Rightarrow> nat \<Rightarrow> upstream_target \<Rightarrow> bool" where
  "probe_healthy api env upstream tick j target =
     (let active_cfg = hc_active (u_health_checks upstream);
          url = ''http://'' @ ut_address target @ ah_path active_cfg
      in case ce_probe env tick j url (from_millis (ah_timeout_ms active_cfg)) of
           Some s \<Rightarrow> is_success api s
         | None \<Rightarrow> False)"

fun probe_targets ::
    "'h http_api \<Rightarrow> check_env \<Rightarrow> upstream_config \<Rightarrow> nat \<Rightarrow> nat \<Rightarrow> nat \<Rightarrow> upstream_target list \<Rightarrow>
     (shared, event, bool) task" where
  "probe_targets api env upstream addr tick j [] = Done False"
| "probe_targets api env upstream addr tick j (target # targets) =
     (let e = SetActiveHealth (target_key (u_name upstream) (ut_id target)) (probe_healthy api env upstream tick j target)
      in Op (\<lambda>sh. (Noted addr e, on_registry addr e sh))
           (\<lambda>_. probe_targets api env upstream addr tick (Suc j) targets))"

definition check_round ::
    "'h http_api \<Rightarrow> check_env \<Rightarrow> upstream_config \<Rightarrow> nat \<Rightarrow> nat \<Rightarrow> (shared, event, bool) task" where
  "check_round api env upstream addr tick =
     Op (\<lambda>sh. (Saw_Draining (sh_draining sh), sh))
        (\<lambda>sh. if sh_draining sh then Done True
              else probe_targets api env upstream addr tick 0 (u_targets upstream))"

text \<open>\<open>tokio::time::interval\<close> panics for a period of zero, which ends the task before its first round.\<close>

definition health_check_task ::
    "'h http_api \<Rightarrow> check_env \<Rightarrow> upstream_config \<Rightarrow> nat \<Rightarrow> (shared, event) rounds" where
  "health_check_task api env upstream addr =
     (if ah_interval_ms (hc_active (u_health_checks upstream)) = 0 then (\<lambda>_. Done True)
      else check_round api env upstream addr)"

section \<open>Shutdown\<close>

text \<open>
  \<open>now\<close> is the instant at which the deadline is computed, \<open>clock k\<close> the one read at the \<open>k\<close>-th test of the
  drain loop; the sleeps of the loop are between the rounds.
\<close>

definition drain_test :: "instant \<Rightarrow> (nat \<Rightarrow> instant) \<Rightarrow> nat \<Rightarrow> (shared, event, bool) task" where
  "drain_test deadline clock k =
     Op (\<lambda>sh. (Saw_In_Flight (sh_in_flight sh), sh))
        (\<lambda>sh. Done (\<not> (sh_in_flight sh > 0 \<and> clock k < deadline)))"

definition graceful_shutdown_signal ::
    "shutdown_config \<Rightarrow> unit res \<Rightarrow> instant \<Rightarrow> (nat \<Rightarrow> instant) \<Rightarrow> (shared, event) rounds" where
  "graceful_shutdown_signal cfg ctrl_c now clock k =
     (case ctrl_c of
        Inl err \<Rightarrow> Done True
      | Inr _ \<Rightarrow>
          (let deadline = now + from_millis (sd_drain_timeout_ms cfg);
               test = drain_test deadline clock k
           in if k = 0 then Op (\<lambda>sh. (Set_Draining, sh\<lparr>sh_draining := True\<rparr>)) (\<lambda>_. test) else test))"

section \<open>All operations are steps\<close>

lemma always_probe_targets: "always (shared_step ovf app) (probe_targets api env up addr tick j targets)"
  by (induction targets arbitrary: j) (auto simp: Let_def intro: shared_step.noted)

lemma always_health_check: "always (shared_step ovf app) (health_check_task api env up addr k)"
  by (auto simp: health_check_task_def check_round_def always_probe_targets intro: shared_step.saw_draining)

lemma always_shutdown: "always (shared_step ovf app) (graceful_shutdown_signal cfg ctrl_c now clock k)"
  by (auto simp: graceful_shutdown_signal_def drain_test_def Let_def split: sum.split
      intro: shared_step.saw_in_flight shared_step.set_draining)

lemma always_handlers:
  "always (shared_step (ge_ovf env) app) (proxy_handler app env req)"
  "always (shared_step ovf app) healthz_handler" "always (shared_step ovf app) metrics_handler"
proof -
  have "always (shared_step (ge_ovf env) app) (proxy_body app env req)"
    by (rule always_mono [OF always_proxy_body]) (simp add: body_step_def)
  then have "always (shared_step (ge_ovf env) app) (guarded (proxy_body app env req))"
    by (auto simp: guarded_alt intro!: always_andthen shared_step.entered shared_step.left)
  then show "always (shared_step (ge_ovf env) app) (proxy_handler app env req)"
    by (auto simp: proxy_handler_def bump_def load_draining_def simp del: inc_metric.simps
        intro: shared_step.bumped shared_step.saw_draining)
  show "always (shared_step ovf app) healthz_handler" by (simp add: healthz_handler_def)
  show "always (shared_step ovf app) metrics_handler"
    by (auto simp: metrics_handler_def read_metric_def simp del: load_metric.simps intro: shared_step.read)
qed

section \<open>The start\<close>

lemma startup_iff:
  "startup env = Inr (app, sh) \<longleftrightarrow>
   (\<exists>config manager. load_from_path (su_read_to_string env) (su_json_from_str env) (su_yaml_from_str env)
        (config_path env) = Inr config \<and>
      from_config (su_plugin_env env) (gc_plugins config) = (Inr (), manager) \<and>
      app = initial_app config (pm_plugins manager) \<and> sh = initial_shared config)"
proof -
  have "(case from_config (su_plugin_env env) (gc_plugins config) of
        (Inl err, _) \<Rightarrow> Inl err
      | (Inr _, manager) \<Rightarrow> Inr (initial_app config (pm_plugins manager), initial_shared config)) = Inr (app, sh) \<longleftrightarrow>
      (\<exists>manager. from_config (su_plugin_env env) (gc_plugins config) = (Inr (), manager) \<and>
        app = initial_app config (pm_plugins manager) \<and> sh = initial_shared config)" for config
    by (cases "from_config (su_plugin_env env) (gc_plugins config)"; cases "fst (from_config (su_plugin_env env) (gc_plugins config))")
      auto
  then show ?thesis by (auto simp: startup_def)
qed

lemma startup_state:
  assumes "startup env = Inr (app, sh)"
  shows "\<exists>plugins. validate (app_config app) = Inr () \<and> app = initial_app (app_config app) plugins \<and>
    sh = initial_shared (app_config app)"
proof -
  from assms obtain config and manager :: plugin_manager where load: "load_from_path (su_read_to_string env) (su_json_from_str env)
      (su_yaml_from_str env) (config_path env) = Inr config"
    and app: "app = initial_app config (pm_plugins manager)" "sh = initial_shared config"
    unfolding startup_iff by blast
  have "validate config = Inr ()" using load by (auto simp: load_from_path_def)
  moreover have "app_config app = config" by (simp add: app initial_app_def)
  ultimately show ?thesis using app by auto
qed

lemma clock_progress:
  fixes clock :: "nat \<Rightarrow> nat"
  shows "now \<le> clock 0 \<Longrightarrow> \<forall>k. clock k + p \<le> clock (Suc k) \<Longrightarrow> now + k * p \<le> clock k"
proof (induction k)
  case (Suc k)
  then have "now + k * p \<le> clock k" and "clock k + p \<le> clock (Suc k)" by auto
  then show ?case by simp
qed simp

section \<open>A sample process\<close>

definition sample_startup :: startup_env where
  "sample_startup =
     \<lparr>su_gateway_config = Some ''gateway.json'', su_read_to_string = (\<lambda>_. Inr []),
      su_json_from_str = (\<lambda>_. Inr sample_config), su_yaml_from_str = (\<lambda>_. Inl ''yaml''),
      su_plugin_env = sample_env\<rparr>"

lemma sample_startup_ok:
  "startup sample_startup = Inr (initial_app sample_config [], initial_shared sample_config)"
proof -
  have "load_from_path (\<lambda>_. Inr []) (\<lambda>_. Inr sample_config) (\<lambda>_. Inl ''yaml'') ''gateway.json''
      = Inr sample_config" by code_simp
  moreover have "gc_plugins sample_config = []" by (simp add: sample_config_def)
  ultimately show ?thesis
    by (simp add: startup_def config_path_def sample_startup_def from_config_def plugin_manager_new_def)
qed

section \<open>The loops\<close>

text \<open>The configurations of a health check: a round at its start, within its probes, or over.\<close>

definition check_config :: "'h http_api \<Rightarrow> check_env \<Rightarrow> upstream_config \<Rightarrow> nat \<Rightarrow> nat \<times> (shared, event, bool) task \<Rightarrow> bool" where
  "check_config api env up addr c \<longleftrightarrow>
     snd c = check_round api env up addr (fst c) \<or> snd c = Done True \<or>
     (\<exists>j ts. snd c = probe_targets api env up addr (fst c) j ts \<and> length ts \<le> length (u_targets up))"

lemma probe_targets_Op:
  "Op f k = probe_targets api env up addr n j ts \<Longrightarrow>
   \<exists>t ts' e. ts = t # ts' \<and> (\<forall>s. f s = (Noted addr e, on_registry addr e s)) \<and>
     k = (\<lambda>_. probe_targets api env up addr n (Suc j) ts')"
  by (cases ts) (auto simp: Let_def)

lemma probe_targets_Done [simp]: "probe_targets api env up addr n j ts \<noteq> Done True"
  "Done False = probe_targets api env up addr n j ts \<longleftrightarrow> ts = []"
  by (cases ts; simp add: Let_def)+

lemma check_config_start: "check_config api env up addr (k, health_check_task api env up addr k)"
  by (simp add: check_config_def health_check_task_def)

lemma check_config_op:
  assumes "check_config api env up addr (n, Op f k)"
  shows "check_config api env up addr (n, k s)"
proof -
  from assms consider "Op f k = check_round api env up addr n"
    | j ts where "Op f k = probe_targets api env up addr n j ts" "length ts \<le> length (u_targets up)"
    by (auto simp: check_config_def)
  then show ?thesis
  proof cases
    case 1
    then show ?thesis by (auto simp: check_config_def check_round_def)
  next
    case 2
    from probe_targets_Op [OF 2(1)] 2(2) show ?thesis by (fastforce simp: check_config_def)
  qed
qed

lemma check_config_run:
  assumes "loop_run (health_check_task api env up addr) c h c'" and "check_config api env up addr c"
  shows "check_config api env up addr c'"
  using assms by (rule loop_run_invariant) (auto intro: check_config_op check_config_start)

text \<open>What is left once every operation finds the gateway draining.\<close>

lemma probes_then_stop:
  "loop_run (health_check_task api env up addr) c h c' \<Longrightarrow> (\<forall>(s, e, s')\<in>set h. sh_draining s) \<Longrightarrow>
   (snd c = check_round api env up addr (fst c) \<longrightarrow> length h \<le> 1) \<and> (snd c = Done True \<longrightarrow> h = []) \<and>
   (\<forall>j ts. snd c = probe_targets api env up addr (fst c) j ts \<longrightarrow> length h \<le> length ts + 1)"
proof (induction rule: loop_run.induct)
  case (operate n k s h c f)
  have probe: "length h \<le> length ts" if "Op f k = probe_targets api env up addr n j ts" for j ts
    using probe_targets_Op [OF that] operate by auto
  have "length h = 0" if "Op f k = check_round api env up addr n"
    using that operate by (auto simp: check_round_def)
  with probe show ?case by fastforce
next
  case (again n h c)
  then show ?case by (auto simp: check_round_def health_check_task_def split: if_splits)
qed auto

lemma stop_event:
  "loop_run (health_check_task api env up addr) c h c' \<Longrightarrow> check_config api env up addr c \<Longrightarrow>
   ah_interval_ms (hc_active (u_health_checks up)) \<noteq> 0 \<Longrightarrow> snd c \<noteq> Done True \<Longrightarrow>
   snd c' = Done True \<longleftrightarrow> Saw_Draining True \<in> set (events h)"
proof (induction rule: loop_run.induct)
  case (operate n k s h c f)
  have ok: "check_config api env up addr (n, k s)" using operate.prems(1) by (rule check_config_op)
  from operate.prems(1) consider "Op f k = check_round api env up addr n"
    | j ts where "Op f k = probe_targets api env up addr n j ts"
    by (auto simp: check_config_def)
  then have e: "fst (f s) = Saw_Draining True \<longleftrightarrow> k s = Done True"
  proof cases
    case 1
    then show ?thesis by (auto simp: check_round_def)
  next
    case 2
    from probe_targets_Op [OF this] show ?thesis by auto
  qed
  show ?case
  proof (cases "k s = Done True")
    case True
    then have "c = (n, Done True)" using operate.hyps loop_run_over by metis
    with e True show ?thesis by simp
  next
    case False
    with e operate.IH [OF ok operate.prems(2)] show ?thesis by auto
  qed
next
  case (again n h c)
  have "check_config api env up addr (Suc n, health_check_task api env up addr (Suc n))" by (rule check_config_start)
  with again show ?case by (simp add: health_check_task_def check_round_def)
qed simp

lemma sample_rounds:
  "loop_run (health_check_task ref_api env sample_upstream 0) (0, health_check_task ref_api env sample_upstream 0 0)
     [(sh, Saw_Draining (sh_draining sh), sh)] (0, if sh_draining sh then Done True
       else probe_targets ref_api env sample_upstream 0 0 0 (u_targets sample_upstream))"
proof -
  have "run (check_round ref_api env sample_upstream 0 0) [(sh, Saw_Draining (sh_draining sh), sh)]
      (if sh_draining sh then Done True else probe_targets ref_api env sample_upstream 0 0 0 (u_targets sample_upstream))"
    by (simp add: check_round_def run_Op)
  then show ?thesis
    by (intro run_loop) (simp add: health_check_task_def sample_upstream_def default_health_check_config_def
      default_active_health_check_def)
qed

text \<open>The shutdown: the flag first, then the tests, all of which but the last go on.\<close>

definition drain_config :: "instant \<Rightarrow> (nat \<Rightarrow> instant) \<Rightarrow> nat \<times> (shared, event, bool) task \<Rightarrow> event list \<Rightarrow> bool" where
  "drain_config deadline clock c es \<longleftrightarrow>
     (\<exists>ns. es = Set_Draining # map Saw_In_Flight ns \<and>
        (\<forall>j<fst c. 0 < ns ! j \<and> clock j < deadline) \<and>
        (length ns = fst c \<and> snd c = drain_test deadline clock (fst c) \<or>
         length ns = Suc (fst c) \<and> snd c = Done (\<not> (0 < ns ! fst c \<and> clock (fst c) < deadline)))) \<or>
     fst c = 0 \<and> es = [] \<and> snd c = Op (\<lambda>sh. (Set_Draining, sh\<lparr>sh_draining := True\<rparr>)) (\<lambda>_. drain_test deadline clock 0)"

lemma drain_config_op:
  assumes "drain_config deadline clock (n, Op f k) es"
  shows "drain_config deadline clock (n, k s) (es @ [fst (f s)])"
proof -
  from assms consider (start) "n = 0" "es = []" "f = (\<lambda>sh. (Set_Draining, sh\<lparr>sh_draining := True\<rparr>))"
      "k = (\<lambda>_. drain_test deadline clock 0)"
    | (test) ns where "es = Set_Draining # map Saw_In_Flight ns" "\<forall>j<n. 0 < ns ! j \<and> clock j < deadline"
      "length ns = n" "Op f k = drain_test deadline clock n"
    by (auto simp: drain_config_def)
  then show ?thesis
  proof cases
    case start
    then show ?thesis by (auto simp: drain_config_def)
  next
    case test
    then have "f s = (Saw_In_Flight (sh_in_flight s), s)" "k s = Done (\<not> (0 < sh_in_flight s \<and> clock n < deadline))"
      by (auto simp: drain_test_def)
    with test show ?thesis
      by (auto simp: drain_config_def nth_append intro!: exI [of _ "ns @ [sh_in_flight s]"])
  qed
qed

lemma drain_config_again:
  assumes "drain_config (now + from_millis (sd_drain_timeout_ms cfg)) clock (n, Done False) es"
  shows "drain_config (now + from_millis (sd_drain_timeout_ms cfg)) clock
    (Suc n, graceful_shutdown_signal cfg (Inr ()) now clock (Suc n)) es"
  using assms by (auto simp: drain_config_def drain_test_def graceful_shutdown_signal_def Let_def less_Suc_eq)

lemma drain_config_run:
  assumes "loop_run (graceful_shutdown_signal cfg (Inr ()) now clock)
    (0, graceful_shutdown_signal cfg (Inr ()) now clock 0) h c"
  shows "drain_config (now + from_millis (sd_drain_timeout_ms cfg)) clock c (events h)"
proof -
  have "drain_config (now + from_millis (sd_drain_timeout_ms cfg)) clock c ([] @ events h)"
    using assms
  proof (rule loop_run_events)
    show "drain_config (now + from_millis (sd_drain_timeout_ms cfg)) clock
        (0, graceful_shutdown_signal cfg (Inr ()) now clock 0) []"
      by (simp add: drain_config_def graceful_shutdown_signal_def Let_def)
  qed (auto intro: drain_config_op drain_config_again)
  then show ?thesis by simp
qed

text \<open>The probes of a round, and that nothing else touches the active health.\<close>

lemma run_probe_targets:
  "run (probe_targets api env up addr n j ts) h (Done b) \<Longrightarrow>
   events h = map (\<lambda>(i, t). Noted addr (SetActiveHealth (target_key (u_name up) (ut_id t))
     (probe_healthy api env up n i t))) (enumerate j ts)"
proof (induction ts arbitrary: j h)
  case (Cons t ts)
  then show ?case by (auto simp: Let_def run_Op)
qed simp

lemma active_health_kept:
  "(\<forall>b. SetActiveHealth key b \<notin> set es) \<Longrightarrow>
   tr_active_healthy (runtime_of (fold apply_event es reg) key) = tr_active_healthy (runtime_of reg key)"
proof (induction es arbitrary: reg)
  case (Cons e es)
  have other: "e \<noteq> SetActiveHealth key b" for b using Cons.prems by auto
  have "tr_active_healthy (runtime_of (apply_event e reg) key) = tr_active_healthy (runtime_of reg key)"
    unfolding runtime_of_apply_event
    by (cases e) (use other in \<open>auto simp: admit_def note_success_def note_failure_def Let_def
        split: circuit_state.split\<close>)
  with Cons show ?case by simp
qed simp

section \<open>Properties\<close>

text \<open>
  C33. A started gateway never misses an upstream or its runtime state.  For a route that the router
  returned, the upstream the traffic split selects is found, and its registry too.  The upstream is
  the first one configured with that name and the registry that of the last one; so if two
  upstreams share a name, the targets of the first are driven with the health and breaker settings
  of the last.
\<close>

theorem upstream_lookup_succeeds:
  assumes "startup env = Inr (app, sh)" and "match_route (gc_routes (app_config app)) path protocol = Some r"
  shows "\<exists>i j. i \<le> j \<and> j < length (gc_upstreams (app_config app)) \<and>
    (let name = select_upstream_name api hash r headers key n; us = gc_upstreams (app_config app) in
      find (\<lambda>u. u_name u = name) us = Some (us ! i) \<and> u_name (us ! i) = name \<and>
      app_runtime app name = Some j \<and> u_name (us ! j) = name \<and>
      (\<forall>k<i. u_name (us ! k) \<noteq> name) \<and> (\<forall>k. j < k \<longrightarrow> k < length us \<longrightarrow> u_name (us ! k) \<noteq> name) \<and>
      sh_registries sh j = registry_new (hc_passive (u_health_checks (us ! j))) (u_circuit_breaker (us ! j)))"
proof -
  from startup_state [OF assms(1)] obtain plugins where valid: "validate (app_config app) = Inr ()"
    and start: "app = initial_app (app_config app) plugins" "sh = initial_shared (app_config app)" by blast
  from upstream_lookup [OF valid assms(2), of api hash headers key n plugins] show ?thesis
    unfolding start [symmetric] .
qed

theorem upstream_lookup_succeeds_witness:
  "\<exists>i j. i \<le> j \<and> j < 2 \<and>
    app_runtime (initial_app sample_config [])
      (select_upstream_name ref_api (\<lambda>_. 0) (sample_routes ! 1) [] ''k'' 0) = Some j"
proof -
  have "match_route (gc_routes (app_config (initial_app sample_config []))) ''/api/v1/users'' Http1
      = Some (sample_routes ! 1)" by code_simp
  from upstream_lookup_succeeds [OF sample_startup_ok this, of ref_api "\<lambda>_. 0" "[]" "''k''" 0]
  show ?thesis by (simp add: Let_def) (fastforce simp: sample_config_def initial_app_def)
qed

text \<open>
  One probe decides the active health.  In a complete round of an upstream's health check, the
  target at position \<open>j\<close> is set actively healthy exactly if its one probe of this round got a success
  status, and until the next probe of that target no operation of any task changes it.  The
  configured \<open>healthy_threshold\<close> and \<open>unhealthy_threshold\<close> have no effect.
\<close>

lemma one_probe_decides:
  assumes "run (check_round api env up addr tick) h (Done False)" and "j < length (u_targets up)"
  shows "let key = target_key (u_name up) (ut_id (u_targets up ! j));
      ok = (\<exists>s. ce_probe env tick j
        (''http://'' @ ut_address (u_targets up ! j) @ ah_path (hc_active (u_health_checks up)))
        (from_millis (ah_timeout_ms (hc_active (u_health_checks up)))) = Some s \<and> is_success api s)
    in events h ! Suc j = Noted addr (SetActiveHealth key ok) \<and>
      (\<forall>reg es. (\<forall>b. SetActiveHealth key b \<notin> set es) \<longrightarrow>
        tr_active_healthy (runtime_of (fold apply_event es (apply_event (SetActiveHealth key ok) reg)) key) = ok)"
proof -
  from assms(1) obtain s h' where h: "h = (s, Saw_Draining False, s) # h'"
    and probes: "run (probe_targets api env up addr tick 0 (u_targets up)) h' (Done False)"
    by (auto simp: check_round_def run_Op split: if_splits)
  have "events h ! Suc j = events h' ! j" by (simp add: h)
  also have "\<dots> = Noted addr (SetActiveHealth (target_key (u_name up) (ut_id (u_targets up ! j)))
      (probe_healthy api env up tick j (u_targets up ! j)))"
    using assms(2) by (simp add: run_probe_targets [OF probes] nth_enumerate_eq)
  finally show ?thesis
    using active_health_kept by (auto simp: Let_def probe_healthy_def set_active_health_def split: option.splits)
qed

definition sample_check :: check_env where
  "sample_check = \<lparr>ce_probe = (\<lambda>_ _ _ _. Some 503)\<rparr>"

text \<open>
  C34. The health checks end with the shutdown.  In every history of the task of a health check, from
  the first operation on that finds the gateway draining, at most one round of probes and one
  test of the flag follow; the task is over exactly if one of its tests has found the gateway
  draining.  With an interval of zero it is over at once, before the first probe.
\<close>

theorem health_task_stops:
  assumes "loop_run (health_check_task api env up addr) (0, health_check_task api env up addr 0) h (k, q)"
    and "i \<le> length h" and "\<forall>j. i \<le> j \<longrightarrow> j < length h \<longrightarrow> sh_draining (fst (h ! j))"
  shows "if ah_interval_ms (hc_active (u_health_checks up)) = 0 then h = [] \<and> q = Done True
    else length h \<le> i + length (u_targets up) + 1 \<and> (q = Done True \<longleftrightarrow> Saw_Draining True \<in> set (events h))"
proof (cases "ah_interval_ms (hc_active (u_health_checks up)) = 0")
  case True
  then show ?thesis using loop_run_over assms(1) by (fastforce simp: health_check_task_def)
next
  case False
  let ?R = "health_check_task api env up addr"
  have "loop_run ?R (0, ?R 0) (take i h @ drop i h) (k, q)" using assms(1) by simp
  from loop_run_split [OF this] obtain c where
    c: "loop_run ?R (0, ?R 0) (take i h) c" "loop_run ?R c (drop i h) (k, q)" by blast
  have "sh_draining s" if "(s, e, s') \<in> set (drop i h)" for s e s'
    using assms(2,3) that by (auto simp: in_set_conv_nth) (metis add.commute fst_conv le_add1 less_diff_conv)
  then have "\<forall>(s, e, s')\<in>set (drop i h). sh_draining s" by blast
  moreover have "check_config api env up addr c"
    using check_config_run [OF c(1) check_config_start] .
  ultimately have "length (drop i h) \<le> length (u_targets up) + 1"
    using probes_then_stop [OF c(2)] by (fastforce simp: check_config_def)
  moreover have "q = Done True \<longleftrightarrow> Saw_Draining True \<in> set (events h)"
    using stop_event [OF assms(1) check_config_start False] False
    by (simp add: health_check_task_def check_round_def)
  ultimately show ?thesis using False by simp
qed

theorem health_task_stops_witness:
  "\<exists>h q. length h \<le> 3 \<and> Saw_Draining True \<in> set (events h) \<and> q = Done True \<and>
     loop_run (health_check_task ref_api sample_check sample_upstream 0)
       (0, health_check_task ref_api sample_check sample_upstream 0 0) h (0, q)"
proof -
  let ?sh = "(initial_shared sample_config)\<lparr>sh_draining := True\<rparr>"
  have run: "loop_run (health_check_task ref_api sample_check sample_upstream 0)
      (0, health_check_task ref_api sample_check sample_upstream 0 0)
      [(?sh, Saw_Draining True, ?sh)] (0, Done True)"
    using sample_rounds [of sample_check ?sh] by simp
  with health_task_stops [OF run, of 0] show ?thesis
    by (intro exI [of _ "[(?sh, Saw_Draining True, ?sh)]"] exI [of _ "Done True"])
      (simp add: sample_upstream_def sample_targets_def default_health_check_config_def default_active_health_check_def)
qed

text \<open>
  C17. The shutdown waits for the requests in flight, and not for ever.  After the signal it sets the
  flag and tests; it goes on after a test exactly if requests are in flight and the deadline has
  not passed.  If the clock does not run backwards and each sleep lasts at least the configured
  positive poll interval, there are at most \<open>drain_timeout_ms div drain_poll_ms + 2\<close> tests.
\<close>

theorem shutdown_drains:
  assumes "loop_run (graceful_shutdown_signal cfg (Inr ()) now clock)
      (0, graceful_shutdown_signal cfg (Inr ()) now clock 0) h (k, q)"
    and "now \<le> clock 0" and "0 < sd_drain_poll_ms cfg"
    and "\<forall>k. clock k + from_millis (sd_drain_poll_ms cfg) \<le> clock (Suc k)"
  shows "k \<le> unat (sd_drain_timeout_ms cfg) div unat (sd_drain_poll_ms cfg) + 1 \<and>
    (h = [] \<or> (\<exists>ns. events h = Set_Draining # map Saw_In_Flight ns \<and> length ns \<le> Suc k \<and>
       (\<forall>j<k. 0 < ns ! j \<and> clock j < now + from_millis (sd_drain_timeout_ms cfg)) \<and>
       (q = Done True \<longleftrightarrow> length ns = Suc k \<and>
          (ns ! k = 0 \<or> now + from_millis (sd_drain_timeout_ms cfg) \<le> clock k))))"
proof
  let ?t = "unat (sd_drain_timeout_ms cfg)" and ?p = "unat (sd_drain_poll_ms cfg)"
  let ?deadline = "now + from_millis (sd_drain_timeout_ms cfg)"
  note config = drain_config_run [OF assms(1)]
  have p: "0 < ?p" using assms(3) by (simp add: word_less_nat_alt)
  have late: "?deadline \<le> clock (?t div ?p + 1)"
  proof -
    have "?t \<le> (?t div ?p + 1) * ?p" using dividend_less_div_times [OF p, of ?t] by simp
    then have "from_millis (sd_drain_timeout_ms cfg) \<le> (?t div ?p + 1) * from_millis (sd_drain_poll_ms cfg)"
      by (simp add: from_millis_def)
    with clock_progress [OF assms(2,4), of "?t div ?p + 1"] show ?thesis by linarith
  qed
  show "k \<le> ?t div ?p + 1"
  proof (rule ccontr)
    assume "\<not> k \<le> ?t div ?p + 1"
    with config have "clock (?t div ?p + 1) < ?deadline" by (auto simp: drain_config_def)
    with late show False by simp
  qed
  show "h = [] \<or> (\<exists>ns. events h = Set_Draining # map Saw_In_Flight ns \<and> length ns \<le> Suc k \<and>
       (\<forall>j<k. 0 < ns ! j \<and> clock j < ?deadline) \<and>
       (q = Done True \<longleftrightarrow> length ns = Suc k \<and> (ns ! k = 0 \<or> ?deadline \<le> clock k)))"
    using config by (auto simp: drain_config_def drain_test_def events_def word_gt_0 not_less)
qed

theorem shutdown_drains_witness:
  "\<exists>h ns. loop_run (graceful_shutdown_signal default_shutdown_config (Inr ()) 0 (\<lambda>k. k * 50000000))
      (0, graceful_shutdown_signal default_shutdown_config (Inr ()) 0 (\<lambda>k. k * 50000000) 0) h (0, Done True) \<and>
    events h = Set_Draining # map Saw_In_Flight ns \<and> length ns = 1"
proof -
  let ?R = "graceful_shutdown_signal default_shutdown_config (Inr ()) 0 (\<lambda>k. k * 50000000)"
  let ?sh = "initial_shared sample_config" let ?sh' = "?sh\<lparr>sh_draining := True\<rparr>"
  let ?h = "[(?sh, Set_Draining, ?sh'), (?sh', Saw_In_Flight 0, ?sh')]"
  have "run (?R 0) ?h (Done True)"
    by (simp add: graceful_shutdown_signal_def drain_test_def Let_def run_Op initial_shared_def)
  then have run: "loop_run ?R (0, ?R 0) ?h (0, Done True)" by (rule run_loop)
  have "\<forall>k. k * 50000000 + from_millis (sd_drain_poll_ms default_shutdown_config) \<le> Suc k * 50000000"
    by (simp add: default_shutdown_config_def from_millis_def)
  moreover have "0 < sd_drain_poll_ms default_shutdown_config" by (simp add: default_shutdown_config_def)
  ultimately have "?h = [] \<or> (\<exists>ns. events ?h = Set_Draining # map Saw_In_Flight ns \<and> length ns \<le> Suc 0 \<and>
      (\<forall>j<0. 0 < ns ! j \<and> j * 50000000 < 0 + from_millis (sd_drain_timeout_ms default_shutdown_config)) \<and>
      (Done True = (Done True :: (shared, event, bool) task) \<longleftrightarrow> length ns = Suc 0 \<and>
        (ns ! 0 = 0 \<or> 0 + from_millis (sd_drain_timeout_ms default_shutdown_config) \<le> 0 * 50000000)))"
    using shutdown_drains [OF run, THEN conjunct2] by simp
  then have "\<exists>ns. events ?h = Set_Draining # map Saw_In_Flight ns \<and> length ns = Suc 0" by blast
  with run show ?thesis unfolding One_nat_def by blast
qed

text \<open>
  A process that serves has started, so what is shown of a successful start holds of it; and it
  listens on the address its configuration names.
\<close>

lemma main_serving_started:
  "main_start env le = Serving app sh addr \<Longrightarrow>
   startup env = Inr (app, sh) \<and> le_parse_addr le (sv_listen_addr (gc_server (app_config app))) = Some addr"
  by (auto simp: main_start_def Let_def split: sum.splits prod.splits option.splits if_splits)

end
