(* ===== verification/Process.thy ===== *)
theory Process
  imports Server
begin

text \<open>
  The whole process: the shutdown, the health checks and any number of requests over one shared
  state, interleaved in every way.

  \<^item> A step of the process is one operation of one task, the arrival of a request, the next round of
    a loop, or the end of a request whose client went away (its future is dropped, and with it the
    guard).  On a real server a future is only dropped at an await; here it may be at any moment.
  \<^item> An execution records its steps as labels.  What each task did is a projection of them, and it is
    shown to be a history of the task in the sense of \<open>Task\<close>; so what was shown of the histories of
    the handlers holds in the process.
  \<^item> The state of the gateway is a function of the labels: every component is where the sequence of its
    own operations in the execution leads.
\<close>

section \<open>Model\<close>

record activity =
  ac_rounds :: "(shared, event) rounds"
  ac_index :: nat
  ac_now :: "(shared, event, bool) task"
  ac_request :: bool
  ac_guard :: bool
  ac_dropped :: bool

record process =
  ps_shared :: shared
  ps_tasks :: "activity list"

datatype label = Arrives nat | Does nat event | Repeats nat | Drops nat bool

definition spawned :: "(shared, event) rounds \<Rightarrow> activity" where
  "spawned rounds = \<lparr>ac_rounds = rounds, ac_index = 0, ac_now = rounds 0, ac_request = False, ac_guard = False,
     ac_dropped = False\<rparr>"

definition request_activity :: "unit proc \<Rightarrow> activity" where
  "request_activity p = (spawned (\<lambda>_. andthen p (\<lambda>_. Done True)))\<lparr>ac_request := True\<rparr>"

text \<open>The handlers that a request may be given to; the libraries are the same for all requests.\<close>

definition same_platform :: "('h, 'j) gateway_env \<Rightarrow> ('h, 'j) gateway_env \<Rightarrow> bool" where
  "same_platform base env \<longleftrightarrow> ge_http env = ge_http base \<and> ge_hash env = ge_hash base \<and> ge_ovf env = ge_ovf base"

inductive handler_of :: "('h, 'j) gateway_env \<Rightarrow> app \<Rightarrow> unit proc \<Rightarrow> bool" for base app where
  proxy: "same_platform base env \<Longrightarrow> handler_of base app (proxy_handler app env req)"
| healthz: "handler_of base app healthz_handler"
| metrics: "handler_of base app metrics_handler"

text \<open>Whether the guard of a task is alive after an event.\<close>

definition guard_after :: "event \<Rightarrow> bool \<Rightarrow> bool" where
  "guard_after e g = (e = Entered \<or> g \<and> e \<noteq> Exited)"

definition operated :: "activity \<Rightarrow> (shared \<Rightarrow> event \<times> shared) \<Rightarrow> (shared \<Rightarrow> (shared, event, bool) task) \<Rightarrow> shared \<Rightarrow> activity" where
  "operated a f k sh = a\<lparr>ac_now := k sh, ac_guard := guard_after (fst (f sh)) (ac_guard a)\<rparr>"

definition repeated :: "activity \<Rightarrow> activity" where
  "repeated a = a\<lparr>ac_index := Suc (ac_index a), ac_now := ac_rounds a (Suc (ac_index a))\<rparr>"

definition dropped :: "activity \<Rightarrow> activity" where
  "dropped a = a\<lparr>ac_now := Done True, ac_guard := False, ac_dropped := True\<rparr>"

inductive process_step :: "('h, 'j) gateway_env \<Rightarrow> app \<Rightarrow> process \<Rightarrow> label \<Rightarrow> process \<Rightarrow> bool" for base app where
  arrive: "handler_of base app p \<Longrightarrow>
    process_step base app P (Arrives (length (ps_tasks P))) (P\<lparr>ps_tasks := ps_tasks P @ [request_activity p]\<rparr>)"
| operate: "i < length (ps_tasks P) \<Longrightarrow> ac_now (ps_tasks P ! i) = Op f k \<Longrightarrow>
    process_step base app P (Does i (fst (f (ps_shared P))))
      (P\<lparr>ps_shared := snd (f (ps_shared P)),
         ps_tasks := (ps_tasks P)[i := operated (ps_tasks P ! i) f k (ps_shared P)]\<rparr>)"
| again: "i < length (ps_tasks P) \<Longrightarrow> ac_now (ps_tasks P ! i) = Done False \<Longrightarrow>
    process_step base app P (Repeats i) (P\<lparr>ps_tasks := (ps_tasks P)[i := repeated (ps_tasks P ! i)]\<rparr>)"
| drop: "i < length (ps_tasks P) \<Longrightarrow> ac_request (ps_tasks P ! i) \<Longrightarrow> ac_now (ps_tasks P ! i) = Op f k \<Longrightarrow>
    process_step base app P (Drops i (ac_guard (ps_tasks P ! i)))
      (P\<lparr>ps_shared := (if ac_guard (ps_tasks P ! i)
           then (ps_shared P)\<lparr>sh_in_flight := sh_in_flight (ps_shared P) - 1\<rparr> else ps_shared P),
         ps_tasks := (ps_tasks P)[i := dropped (ps_tasks P ! i)]\<rparr>)"

inductive execution :: "('h, 'j) gateway_env \<Rightarrow> app \<Rightarrow> process \<Rightarrow> label list \<Rightarrow> process \<Rightarrow> bool" for base app P0 where
  init: "execution base app P0 [] P0"
| continue: "execution base app P0 tr P \<Longrightarrow> process_step base app P l P' \<Longrightarrow> execution base app P0 (tr @ [l]) P'"

text \<open>The process after a start: the shutdown waits for its signal, and the health checks are spawned.\<close>

definition booted ::
    "('h, 'j) gateway_env \<Rightarrow> app \<Rightarrow> shared \<Rightarrow> (nat \<Rightarrow> check_env) \<Rightarrow> unit res \<Rightarrow> instant \<Rightarrow> (nat \<Rightarrow> instant) \<Rightarrow> process" where
  "booted base app sh checks ctrl_c now clock =
     \<lparr>ps_shared = sh,
      ps_tasks = spawned (graceful_shutdown_signal (sv_shutdown (gc_server (app_config app))) ctrl_c now clock)
        # map (\<lambda>(i, upstream, addr). spawned (health_check_task (ge_http base) (checks i) upstream addr))
            (enumerate 0 (spawn_active_health_checks app))\<rparr>"

section \<open>Projections of an execution\<close>

definition own :: "nat \<Rightarrow> label list \<Rightarrow> event list" where
  "own i tr = List.map_filter (\<lambda>l. case l of Does j e \<Rightarrow> if j = i then Some e else None | _ \<Rightarrow> None) tr"

fun label_events :: "label \<Rightarrow> event list" where
  "label_events (Does i e) = [e]"
| "label_events (Drops i True) = [Exited]"
| "label_events _ = []"

definition shared_events :: "label list \<Rightarrow> event list" where
  "shared_events tr = concat (map label_events tr)"

lemma own_simps [simp]:
  "own i [] = []" "own i (tr @ tr') = own i tr @ own i tr'"
  "own i [Does j e] = (if j = i then [e] else [])" "own i [Arrives j] = []" "own i [Repeats j] = []" "own i [Drops j g] = []"
  by (simp_all add: own_def List.map_filter_def)

lemma own_iff: "e \<in> set (own i tr) \<longleftrightarrow> Does i e \<in> set tr"
  by (auto simp: own_def List.map_filter_def split: label.splits if_splits intro!: image_eqI [where x = "Does i e"])

lemma shared_events_simps [simp]:
  "shared_events [] = []" "shared_events (tr @ tr') = shared_events tr @ shared_events tr'"
  "shared_events [l] = label_events l"
  by (simp_all add: shared_events_def)

section \<open>Invariants of the tasks\<close>

text \<open>
  The contract of an invariant of every task and the events it has had: it holds of the tasks that
  requests bring, and every step of a task keeps it.
\<close>

locale activity_invariant =
  fixes base :: "('h, 'j) gateway_env" and app :: app and I :: "activity \<Rightarrow> event list \<Rightarrow> bool"
  assumes arrives: "handler_of base app p \<Longrightarrow> I (request_activity p) []"
    and operates: "I a es \<Longrightarrow> ac_now a = Op f k \<Longrightarrow> I (operated a f k sh) (es @ [fst (f sh)])"
    and repeats: "I a es \<Longrightarrow> ac_now a = Done False \<Longrightarrow> I (repeated a) es"
    and drops: "I a es \<Longrightarrow> ac_request a \<Longrightarrow> I (dropped a) es"
begin

lemma step:
  assumes "process_step base app P l P'"
    and "\<forall>i<length (ps_tasks P). I (ps_tasks P ! i) (own i tr)" and "\<forall>i\<ge>length (ps_tasks P). own i tr = []"
  shows "(\<forall>i<length (ps_tasks P'). I (ps_tasks P' ! i) (own i (tr @ [l]))) \<and>
    (\<forall>i\<ge>length (ps_tasks P'). own i (tr @ [l]) = [])"
  using assms
proof (cases rule: process_step.cases)
  case (arrive p)
  then show ?thesis using assms(2,3) arrives by (auto simp: nth_append less_Suc_eq)
next
  case (operate i f k)
  then show ?thesis using assms(2,3) operates by (auto simp: nth_list_update)
next
  case (again i)
  then show ?thesis using assms(2,3) repeats by (auto simp: nth_list_update)
next
  case (drop i f k)
  then show ?thesis using assms(2,3) drops by (auto simp: nth_list_update)
qed

lemma always_holds:
  assumes "execution base app P0 tr P" and "\<forall>a\<in>set (ps_tasks P0). I a []"
  shows "(\<forall>i<length (ps_tasks P). I (ps_tasks P ! i) (own i tr)) \<and> (\<forall>i\<ge>length (ps_tasks P). own i tr = [])"
  using assms by (induction rule: execution.induct) (use step in \<open>auto simp del: own_simps simp: own_simps(1)\<close>)

end

text \<open>Every operation is a step of the shared state.\<close>

definition legal :: "bool \<Rightarrow> app \<Rightarrow> activity \<Rightarrow> event list \<Rightarrow> bool" where
  "legal ovf app a es \<longleftrightarrow> always (shared_step ovf app) (ac_now a) \<and> (\<forall>n. always (shared_step ovf app) (ac_rounds a n))"

lemma handler_of_always: "handler_of base app p \<Longrightarrow> always (shared_step (ge_ovf base) app) p"
proof (induction rule: handler_of.induct)
  case (proxy env req)
  then show ?case using always_handlers(1) [of env app req] by (simp add: same_platform_def)
qed (rule always_handlers)+

interpretation steps: activity_invariant base app "legal (ge_ovf base) app" for base app
proof unfold_locales
  fix p assume "handler_of base app p"
  then show "legal (ge_ovf base) app (request_activity p) []"
    by (auto simp: legal_def request_activity_def spawned_def handler_of_always intro!: always_andthen)
qed (auto simp: legal_def operated_def repeated_def dropped_def)

text \<open>What a request has done is a history of its handler.\<close>

definition handled :: "('h, 'j) gateway_env \<Rightarrow> app \<Rightarrow> activity \<Rightarrow> event list \<Rightarrow> bool" where
  "handled base app a es \<longleftrightarrow> (ac_request a \<longrightarrow>
     (\<exists>p h q. handler_of base app p \<and> run p h q \<and> events h = es \<and>
        (ac_now a = andthen q (\<lambda>_. Done True) \<or> ac_now a = Done True)))"

lemma andthen_stop_Op:
  "Op f k = andthen q (\<lambda>_. Done True) \<Longrightarrow> \<exists>k'. q = Op f k' \<and> (\<forall>s. k s = andthen (k' s) (\<lambda>_. Done True))"
  by (cases q) auto

lemma andthen_stop_Done: "andthen q (\<lambda>_. Done True) \<noteq> Done False"
  by (cases q) auto

interpretation histories: activity_invariant base app "handled base app" for base app
proof unfold_locales
  fix a es f k sh
  assume a: "handled base app a es" and op: "ac_now a = Op f k"
  show "handled base app (operated a f k sh) (es @ [fst (f sh)])"
    unfolding handled_def
  proof
    assume "ac_request (operated a f k sh)"
    with a op obtain p h q where h: "handler_of base app p" "run p h q" "events h = es"
      and q: "Op f k = andthen q (\<lambda>_. Done True)" by (auto simp: handled_def operated_def)
    from andthen_stop_Op [OF q] obtain k' where k': "q = Op f k'" "k sh = andthen (k' sh) (\<lambda>_. Done True)" by blast
    with h run_snoc [of p h f k' sh] have "run p (h @ [(sh, f sh)]) (k' sh)" by simp
    with h k' show "\<exists>p h q. handler_of base app p \<and> run p h q \<and> events h = es @ [fst (f sh)] \<and>
        (ac_now (operated a f k sh) = andthen q (\<lambda>_. Done True) \<or> ac_now (operated a f k sh) = Done True)"
      by (intro exI [of _ p] exI [of _ "h @ [(sh, f sh)]"] exI [of _ "k' sh"]) (simp add: operated_def)
  qed
next
  fix p assume "handler_of base app p"
  then show "handled base app (request_activity p) []"
    by (auto simp: handled_def request_activity_def spawned_def intro!: exI [of _ p] exI [of _ "[]"])
next
  fix a es assume "handled base app a es" and "ac_now a = Done False"
  then have "\<not> ac_request a" using andthen_stop_Done [symmetric] by (auto simp: handled_def)
  then show "handled base app (repeated a) es" by (simp add: handled_def repeated_def)
qed (auto simp: handled_def dropped_def)

text \<open>The guard of a task is alive exactly between its constructor and its drop.\<close>

definition quiet_event :: "event \<Rightarrow> bool" where
  "quiet_event e \<longleftrightarrow> e \<noteq> Entered \<and> e \<noteq> Exited \<and> (\<forall>x. e \<noteq> Sent x)"

definition quiet :: "(shared, event, bool) task \<Rightarrow> bool" where
  "quiet p \<longleftrightarrow> always (\<lambda>_ e _. quiet_event e) p"

definition bracketed :: "activity \<Rightarrow> event list \<Rightarrow> bool" where
  "bracketed a es \<longleftrightarrow>
     (if ac_dropped a then ac_request a \<and> \<not> ac_guard a \<and> ac_now a = Done True
      else wp guard_guarantee (ac_now a) balanced es \<and>
        (ac_guard a \<longleftrightarrow> Entered \<in> set es \<and> Exited \<notin> set es) \<and> (Exited \<in> set es \<longrightarrow> Entered \<in> set es) \<and>
        (if ac_request a then False \<notin> results (ac_now a)
         else quiet (ac_now a) \<and> (\<forall>n. quiet (ac_rounds a n)) \<and> list_all quiet_event es))"

lemma quiet_events:
  "list_all quiet_event es \<Longrightarrow> Entered \<notin> set es \<and> Exited \<notin> set es \<and> (\<forall>x. Sent x \<notin> set es)"
  by (auto simp: list_all_iff quiet_event_def)

lemma quiet_wp: "quiet p \<Longrightarrow> list_all quiet_event es \<Longrightarrow> wp guard_guarantee p balanced es"
  unfolding quiet_def
proof (induction p arbitrary: es)
  case (Op f k)
  have other: "quiet_event (fst (f s))" for s using Op.prems(1) by simp
  have "wp guard_guarantee (k s) balanced (es @ [fst (f s)])" for s
    using Op.prems other by (intro Op.IH) auto
  moreover have "guard_guarantee es s (fst (f s)) (snd (f s))" for s
    using other [of s] by (simp add: guard_guarantee_def quiet_event_def)
  ultimately show ?case by simp
qed (auto dest: quiet_events)

lemma handler_of_guard: "handler_of base app p \<Longrightarrow> wp guard_guarantee p balanced []"
proof (induction rule: handler_of.induct)
  case (proxy env req)
  show ?case by (rule wp_guard_handler)
qed (simp_all add: healthz_handler_def metrics_handler_def read_metric_def guard_guarantee_def)

interpretation guards: activity_invariant base app bracketed for base app
proof unfold_locales
  fix p assume "handler_of base app p"
  then have "wp guard_guarantee (andthen p (\<lambda>_. Done True)) balanced []"
    unfolding wp_andthen by (rule wp_mono [OF handler_of_guard]) auto
  then show "bracketed (request_activity p) []"
    by (auto simp: bracketed_def request_activity_def spawned_def simp del: wp_andthen)
next
  fix a es f k sh
  assume a: "bracketed a es" and op: "ac_now a = Op f k"
  then have live: "\<not> ac_dropped a" by (auto simp: bracketed_def)
  with a op have "guard_guarantee es sh (fst (f sh)) (snd (f sh))"
    "wp guard_guarantee (k sh) balanced (es @ [fst (f sh)])" by (simp_all add: bracketed_def)
  moreover have "\<not> ac_request a \<longrightarrow> quiet (k sh) \<and> quiet_event (fst (f sh))"
    using a op live by (auto simp: bracketed_def quiet_def)
  moreover have "ac_request a \<longrightarrow> False \<notin> results (k sh)"
    using a op live by (auto simp: bracketed_def)
  ultimately show "bracketed (operated a f k sh) (es @ [fst (f sh)])"
    using a live by (auto simp: bracketed_def operated_def guard_after_def guard_guarantee_def)
next
  fix a es assume "bracketed a es" and "ac_now a = Done False"
  then show "bracketed (repeated a) es" by (auto simp: bracketed_def repeated_def quiet_wp split: if_splits)
qed (simp add: bracketed_def dropped_def)

section \<open>The shared state\<close>

inductive shared_trace :: "bool \<Rightarrow> app \<Rightarrow> shared \<Rightarrow> event list \<Rightarrow> shared \<Rightarrow> bool" for ovf app sh0 where
  init: "shared_trace ovf app sh0 [] sh0"
| step: "shared_trace ovf app sh0 es sh \<Longrightarrow> shared_step ovf app sh e sh' \<Longrightarrow> shared_trace ovf app sh0 (es @ [e]) sh'"

lemma execution_trace:
  assumes "execution base app P0 tr P" and "\<forall>a\<in>set (ps_tasks P0). legal (ge_ovf base) app a []"
  shows "shared_trace (ge_ovf base) app (ps_shared P0) (shared_events tr) (ps_shared P)"
  using assms(1)
proof (induction rule: execution.induct)
  case init
  show ?case by (simp add: shared_trace.init)
next
  case (continue tr P l P')
  from continue.hyps(2) show ?case
  proof (cases rule: process_step.cases)
    case (operate i f k)
    have "legal (ge_ovf base) app (ps_tasks P ! i) (own i tr)"
      using steps.always_holds [OF continue.hyps(1) assms(2)] operate by blast
    with operate have "shared_step (ge_ovf base) app (ps_shared P) (fst (f (ps_shared P))) (snd (f (ps_shared P)))"
      by (simp add: legal_def)
    with operate continue.IH show ?thesis by (auto intro: shared_trace.step)
  next
    case (drop i f k)
    then show ?thesis
      using continue.IH shared_trace.step [OF continue.IH shared_step.left]
      by (cases "ac_guard (ps_tasks P ! i)") auto
  qed (use continue.IH in simp_all)
qed

text \<open>The operations of each component in a sequence of events.\<close>

definition registry_ops :: "nat \<Rightarrow> event list \<Rightarrow> registry_event list" where
  "registry_ops addr es = List.map_filter (\<lambda>e. case e of
      Asked a key now ok \<Rightarrow> if a = addr then Some (IsAvailable key now) else None
    | Noted a ev \<Rightarrow> if a = addr then Some ev else None
    | _ \<Rightarrow> None) es"

definition limiter_checks :: "event list \<Rightarrow> ((rate_limit_context \<times> instant) \<times> bool) list" where
  "limiter_checks es = List.map_filter (\<lambda>e. case e of Checked ctx now (Ret ok) \<Rightarrow> Some ((ctx, now), ok) | _ \<Rightarrow> None) es"

definition numbers_drawn :: "event list \<Rightarrow> usize list" where
  "numbers_drawn es = List.map_filter (\<lambda>e. case e of Took_Number n \<Rightarrow> Some n | _ \<Rightarrow> None) es"

lemma component_ops_append [simp]:
  "registry_ops addr (es @ es') = registry_ops addr es @ registry_ops addr es'"
  "limiter_checks (es @ es') = limiter_checks es @ limiter_checks es'"
  "numbers_drawn (es @ es') = numbers_drawn es @ numbers_drawn es'"
  by (simp_all add: registry_ops_def limiter_checks_def numbers_drawn_def List.map_filter_def)

lemmas component_ops = registry_ops_def limiter_checks_def numbers_drawn_def List.map_filter_def

lemma registries_replay:
  "shared_trace ovf app sh0 es sh \<Longrightarrow>
   sh_registries sh addr = fold apply_event (registry_ops addr es) (sh_registries sh0 addr)"
proof (induction rule: shared_trace.induct)
  case (step es sh e sh')
  from step.hyps(2) step.IH show ?case
    by (cases rule: shared_step.cases) (auto simp: component_ops on_registry_def after_check_def split: rust.split)
qed (simp add: component_ops)

lemma limiter_run_snoc:
  "limiter_run ovf cfg states reqs = Ret (oks, mid) \<Longrightarrow> check_with_context ovf cfg ctx now mid = Ret (ok, states') \<Longrightarrow>
   limiter_run ovf cfg states (reqs @ [(ctx, now)]) = Ret (oks @ [ok], states')"
proof (induction reqs arbitrary: states oks)
  case (Cons r reqs)
  obtain ctx' now' where r: "r = (ctx', now')" by (cases r)
  from Cons.prems(1) obtain ok1 oks1 states1 where
    "check_with_context ovf cfg ctx' now' states = Ret (ok1, states1)"
    "limiter_run ovf cfg states1 reqs = Ret (oks1, mid)" "oks = ok1 # oks1" by (auto simp: r)
  with Cons.IH [OF this(2) Cons.prems(2)] show ?case by (simp add: r)
qed auto

lemma limiter_replay:
  "shared_trace ovf app sh0 es sh \<Longrightarrow>
   limiter_run ovf (gc_rate_limit (app_config app)) (sh_limiter sh0) (map fst (limiter_checks es))
     = Ret (map snd (limiter_checks es), sh_limiter sh)"
proof (induction rule: shared_trace.induct)
  case (step es sh e sh')
  from step.hyps(2) step.IH show ?case
    by (cases rule: shared_step.cases)
      (auto simp: component_ops on_registry_def after_check_def verdict_def intro: limiter_run_snoc
        split: rust.splits prod.splits)
qed (simp add: component_ops)

lemma counters_replay:
  "shared_trace ovf app sh0 es sh \<Longrightarrow>
   (\<forall>m. load_metric m (sh_metrics sh) = load_metric m (sh_metrics sh0) + of_nat (count_list es (Bumped m))) \<and>
   (sh_draining sh \<longleftrightarrow> sh_draining sh0 \<or> Set_Draining \<in> set es) \<and>
   sh_request_counter sh = sh_request_counter sh0 + of_nat (length (numbers_drawn es)) \<and>
   (\<forall>i<length (numbers_drawn es). numbers_drawn es ! i = sh_request_counter sh0 + of_nat i)"
proof (induction rule: shared_trace.induct)
  case (step es sh e sh')
  from step.hyps(2) step.IH show ?case
    by (cases rule: shared_step.cases)
      (auto simp: component_ops on_registry_def after_check_def load_inc_metric nth_append less_Suc_eq
        simp del: load_metric.simps inc_metric.simps split: rust.split)
qed (simp add: component_ops)

section \<open>Requests in flight\<close>

lemma shared_step_in_flight:
  "shared_step ovf app sh e sh' \<Longrightarrow>
   sh_in_flight sh' = sh_in_flight sh + (if e = Entered then 1 else 0) - (if e = Exited then 1 else 0)"
  by (cases rule: shared_step.cases) (auto simp: on_registry_def after_check_def split: rust.split)

abbreviation guard_count :: "process \<Rightarrow> usize" where
  "guard_count P \<equiv> of_nat (length (filter ac_guard (ps_tasks P)))"

lemma guard_count_update:
  "i < length ts \<Longrightarrow> (of_nat (length (filter ac_guard (ts[i := a]))) :: usize) =
   of_nat (length (filter ac_guard ts)) - (if ac_guard (ts ! i) then 1 else 0) + (if ac_guard a then 1 else 0)"
proof (induction ts arbitrary: i)
  case (Cons t ts)
  then show ?case by (cases i) auto
qed simp

lemma in_flight_step:
  assumes "process_step base app P l P'" and "sh_in_flight (ps_shared P) = guard_count P"
    and "\<And>i. i < length (ps_tasks P) \<Longrightarrow> \<exists>es. legal (ge_ovf base) app (ps_tasks P ! i) es \<and> bracketed (ps_tasks P ! i) es"
  shows "sh_in_flight (ps_shared P') = guard_count P'"
  using assms(1)
proof (cases rule: process_step.cases)
  case (operate i f k)
  let ?a = "ps_tasks P ! i" and ?e = "fst (f (ps_shared P))" and ?sh = "snd (f (ps_shared P))"
  from assms(3) operate obtain es where a: "legal (ge_ovf base) app ?a es" "bracketed ?a es" by blast
  with operate have "shared_step (ge_ovf base) app (ps_shared P) ?e ?sh" by (simp add: legal_def)
  note flight = shared_step_in_flight [OF this]
  from a(2) operate have "\<not> ac_dropped ?a" by (auto simp: bracketed_def)
  with a(2) operate have "guard_guarantee es (ps_shared P) ?e ?sh" "ac_guard ?a \<longleftrightarrow> Entered \<in> set es \<and> Exited \<notin> set es"
    by (simp_all add: bracketed_def)
  then show ?thesis
    using operate flight assms(2)
    by (auto simp: guard_count_update operated_def guard_after_def guard_guarantee_def)
qed (use assms(2) in \<open>auto simp: request_activity_def spawned_def guard_count_update repeated_def dropped_def\<close>)

lemma in_flight_guards:
  assumes "execution base app P0 tr P" and "sh_in_flight (ps_shared P0) = guard_count P0"
    and "\<forall>a\<in>set (ps_tasks P0). legal (ge_ovf base) app a [] \<and> bracketed a []"
  shows "sh_in_flight (ps_shared P) = guard_count P"
  using assms(1)
proof (induction rule: execution.induct)
  case (continue tr P l P')
  have "\<exists>es. legal (ge_ovf base) app (ps_tasks P ! i) es \<and> bracketed (ps_tasks P ! i) es" if "i < length (ps_tasks P)" for i
    using that assms(3) steps.always_holds [OF continue.hyps(1)] guards.always_holds [OF continue.hyps(1)] by blast
  then show ?case by (rule in_flight_step [OF continue.hyps(2) continue.IH])
qed (rule assms(2))

lemma dropped_iff:
  assumes "execution base app P0 tr P" and "\<forall>a\<in>set (ps_tasks P0). \<not> ac_dropped a"
  shows "(\<forall>i<length (ps_tasks P). ac_dropped (ps_tasks P ! i) \<longleftrightarrow> (\<exists>g. Drops i g \<in> set tr)) \<and>
    (\<forall>i\<ge>length (ps_tasks P). \<forall>g. Drops i g \<notin> set tr)"
  using assms(1)
proof (induction rule: execution.induct)
  case (continue tr P l P')
  note IH = continue.IH [THEN conjunct1, rule_format] continue.IH [THEN conjunct2, rule_format]
  from continue.hyps(2) show ?case
  proof (cases rule: process_step.cases)
    case (arrive p)
    then show ?thesis using IH by (simp add: nth_append less_Suc_eq request_activity_def spawned_def)
  next
    case (operate i f k)
    then show ?thesis using IH by (simp add: nth_list_update operated_def)
  next
    case (again i)
    then show ?thesis using IH by (simp add: nth_list_update repeated_def)
  next
    case (drop i f k)
    then show ?thesis using IH by (auto simp: nth_list_update dropped_def)
  qed
qed (use assms(2) in auto)

section \<open>The booted process\<close>

lemma quiet_probe_targets: "quiet (probe_targets api env up addr tick j targets)"
  by (induction targets arbitrary: j) (auto simp: quiet_def quiet_event_def Let_def)

lemma quiet_tasks:
  "quiet (health_check_task api env up addr n)" "quiet (graceful_shutdown_signal cfg ctrl_c now clock n)"
  using quiet_probe_targets
  by (auto simp: quiet_def quiet_event_def health_check_task_def check_round_def graceful_shutdown_signal_def drain_test_def Let_def
      split: sum.split)

lemma spawned_invariants:
  assumes "\<And>n. always (shared_step ovf app) (R n)" and "\<And>n. quiet (R n)"
  shows "legal ovf app (spawned R) [] \<and> bracketed (spawned R) [] \<and> handled base app (spawned R) [] \<and> \<not> ac_dropped (spawned R)"
  using assms by (auto simp: legal_def bracketed_def handled_def spawned_def quiet_wp)

lemma booted_spawned:
  assumes "a \<in> set (ps_tasks (booted base app sh checks ctrl_c now clock))"
  shows "\<exists>R. a = spawned R \<and> (\<forall>n. always (shared_step ovf app) (R n)) \<and> (\<forall>n. quiet (R n))"
  using assms unfolding booted_def
  by (auto intro: exI [where x = "graceful_shutdown_signal _ _ _ _"] exI [where x = "health_check_task _ _ _ _"]
      always_health_check always_shutdown quiet_tasks)

lemma booted_invariants:
  "\<forall>a\<in>set (ps_tasks (booted base app sh checks ctrl_c now clock)).
     legal ovf app a [] \<and> bracketed a [] \<and> handled base app a [] \<and> \<not> ac_dropped a"
  using booted_spawned [of _ base app sh checks ctrl_c now clock ovf] spawned_invariants by blast

lemma booted_in_flight:
  "sh_in_flight (ps_shared (booted base app (initial_shared cfg) checks ctrl_c now clock))
   = guard_count (booted base app (initial_shared cfg) checks ctrl_c now clock)"
proof -
  have "\<not> ac_guard a" if "a \<in> set (ps_tasks (booted base app (initial_shared cfg) checks ctrl_c now clock))" for a
    using booted_spawned [OF that, of True] by (auto simp: spawned_def)
  then have "filter ac_guard (ps_tasks (booted base app (initial_shared cfg) checks ctrl_c now clock)) = []"
    by (simp add: filter_empty_conv)
  then show ?thesis by (simp add: booted_def initial_shared_def del: filter.simps)
qed

section \<open>Splitting and extending executions\<close>

lemma execution_append: "execution base app P0 (u @ v) P \<Longrightarrow> \<exists>Q. execution base app P0 u Q \<and> execution base app Q v P"
proof (induction "u @ v" P arbitrary: v rule: execution.induct)
  case init
  then show ?case by (auto intro: execution.init)
next
  case (continue tr P l P')
  show ?case
  proof (cases v rule: rev_cases)
    case Nil
    with continue show ?thesis using execution.continue [OF continue.hyps(1,3)] by (auto intro: execution.init)
  next
    case (snoc w l')
    with continue.hyps(4) have "tr = u @ w" "l' = l" by simp_all
    with continue.hyps(2,3) snoc show ?thesis by (blast intro: execution.continue)
  qed
qed

lemma execution_at:
  assumes "execution base app P0 (u @ l # v) P"
  shows "\<exists>Q Q'. execution base app P0 u Q \<and> process_step base app Q l Q' \<and> execution base app Q' v P"
proof -
  from execution_append [of base app P0 "u @ [l]" v P] assms obtain Q' where
    Q': "execution base app P0 (u @ [l]) Q'" "execution base app Q' v P" by auto
  from Q'(1) obtain Q where "execution base app P0 u Q" "process_step base app Q l Q'"
    by (cases rule: execution.cases) auto
  with Q'(2) show ?thesis by blast
qed

lemma arrival_index: "execution base app P0 tr P \<Longrightarrow> Arrives i \<in> set tr \<Longrightarrow> length (ps_tasks P0) \<le> i"
proof -
  assume "execution base app P0 tr P" and "Arrives i \<in> set tr"
  moreover have "length (ps_tasks P0) \<le> length (ps_tasks P)" if "execution base app P0 tr P" for tr P
    using that by (induction rule: execution.induct) (auto elim!: process_step.cases)
  ultimately show ?thesis
    by (induction rule: execution.induct) (auto elim!: process_step.cases)
qed

text \<open>One task runs on without interruption.\<close>

lemma execution_op:
  assumes "execution base app P0 tr P" and "i < length (ps_tasks P)" and "ac_now (ps_tasks P ! i) = Op f k"
  shows "execution base app P0 (tr @ [Does i (fst (f (ps_shared P)))])
    (P\<lparr>ps_shared := snd (f (ps_shared P)), ps_tasks := (ps_tasks P)[i := operated (ps_tasks P ! i) f k (ps_shared P)]\<rparr>)"
  using assms by (blast intro: execution.continue process_step.operate)

lemma execution_alone:
  assumes "execution base app P0 tr P" and "i < length (ps_tasks P)" and "ac_now (ps_tasks P ! i) = p"
  shows "\<exists>P'. execution base app P0 (tr @ map (Does i) (events (alone_history p (ps_shared P)))) P' \<and>
    ps_shared P' = alone_state p (ps_shared P) \<and> ac_now (ps_tasks P' ! i) = Done (alone_result p (ps_shared P)) \<and>
    length (ps_tasks P') = length (ps_tasks P) \<and> (\<forall>j. j \<noteq> i \<longrightarrow> ps_tasks P' ! j = ps_tasks P ! j)"
  using assms
proof (induction p arbitrary: tr P)
  case (Done a)
  then show ?case by auto
next
  case (Op f k)
  let ?P = "P\<lparr>ps_shared := snd (f (ps_shared P)), ps_tasks := (ps_tasks P)[i := operated (ps_tasks P ! i) f k (ps_shared P)]\<rparr>"
  have "execution base app P0 (tr @ [Does i (fst (f (ps_shared P)))]) ?P"
    using Op.prems by (rule execution_op)
  from Op.IH [OF _ this, of "k (ps_shared P)"] Op.prems(2) obtain P' where
    "execution base app P0 ((tr @ [Does i (fst (f (ps_shared P)))]) @
       map (Does i) (events (alone_history (k (ps_shared P)) (ps_shared ?P)))) P'"
    "ps_shared P' = alone_state (k (ps_shared P)) (ps_shared ?P)"
    "ac_now (ps_tasks P' ! i) = Done (alone_result (k (ps_shared P)) (ps_shared ?P))"
    "length (ps_tasks P') = length (ps_tasks ?P)" "\<forall>j. j \<noteq> i \<longrightarrow> ps_tasks P' ! j = ps_tasks ?P ! j"
    by (auto simp: operated_def)
  then show ?case by (intro exI [of _ P']) auto
qed

section \<open>A sample execution\<close>

definition sample_boot :: process where
  "sample_boot = booted sample_gateway_env sample_app (initial_shared sample_config) (\<lambda>_. sample_check)
     (Inr ()) 0 (\<lambda>k. k * 50000000)"

abbreviation sample_id :: nat where
  "sample_id \<equiv> length (ps_tasks sample_boot)"

abbreviation sample_execution :: "label list \<Rightarrow> process \<Rightarrow> bool" where
  "sample_execution \<equiv> execution sample_gateway_env sample_app sample_boot"

definition sample_labels :: "label list" where
  "sample_labels = Arrives sample_id # map (Does sample_id)
     ([Bumped Requests, Saw_Draining False, Entered] @ sample_events @ [Exited])"

lemma sample_arrival:
  "sample_execution [Arrives sample_id] (sample_boot\<lparr>ps_tasks := ps_tasks sample_boot @ [request_activity sample_handler]\<rparr>)"
proof -
  have "handler_of sample_gateway_env sample_app sample_handler"
    unfolding sample_handler_def by (rule handler_of.proxy) (simp add: same_platform_def)
  from execution.continue [OF execution.init process_step.arrive [OF this]] show ?thesis by simp
qed

lemma sample_boot_shared: "ps_shared sample_boot = initial_shared sample_config"
  by (simp add: sample_boot_def booted_def)

lemma sample_complete: "\<exists>P. sample_execution sample_labels P"
proof -
  let ?P = "sample_boot\<lparr>ps_tasks := ps_tasks sample_boot @ [request_activity sample_handler]\<rparr>"
  let ?p = "andthen sample_handler (\<lambda>_. Done True)"
  have "ac_now (ps_tasks ?P ! sample_id) = ?p" by (simp add: request_activity_def spawned_def)
  from execution_alone [OF sample_arrival _ this] show ?thesis
    by (auto simp: sample_labels_def sample_boot_shared sample_handler_alone [OF sample_initial])
qed

section \<open>Requests in the process\<close>

text \<open>Every request that sends is one of the proxy handler, and its sends are justified.\<close>

lemma other_handlers_send_nothing:
  "run healthz_handler h q \<Longrightarrow> Sent x \<notin> set (events h)" "run metrics_handler h q \<Longrightarrow> Sent x \<notin> set (events h)"
proof -
  have "always (\<lambda>_ e _. \<forall>x. e \<noteq> Sent x) healthz_handler" "always (\<lambda>_ e _. \<forall>x. e \<noteq> Sent x) metrics_handler"
    by (simp_all add: healthz_handler_def metrics_handler_def read_metric_def)
  then show "run healthz_handler h q \<Longrightarrow> Sent x \<notin> set (events h)" "run metrics_handler h q \<Longrightarrow> Sent x \<notin> set (events h)"
    by (fastforce simp: list_all_iff dest: always_events)+
qed

lemma own_history:
  assumes "execution base app (booted base app sh checks ctrl_c now clock) tr P" and "Does i (Sent x) \<in> set tr"
  shows "\<exists>env req h q. same_platform base env \<and> run (proxy_handler app env req) h q \<and> events h = own i tr"
proof -
  let ?P0 = "booted base app sh checks ctrl_c now clock"
  have mem: "Sent x \<in> set (own i tr)" using assms(2) by (simp add: own_iff)
  note init = booted_invariants [of base app sh checks ctrl_c now clock undefined]
  have all: "\<forall>i<length (ps_tasks P). bracketed (ps_tasks P ! i) (own i tr)"
    "\<forall>i<length (ps_tasks P). handled base app (ps_tasks P ! i) (own i tr)" "\<forall>i\<ge>length (ps_tasks P). own i tr = []"
    using guards.always_holds [OF assms(1)] histories.always_holds [OF assms(1)] init by blast+
  have i: "i < length (ps_tasks P)" using all(3) mem by (metis empty_iff leI list.set(1))
  with all(1) mem have "ac_request (ps_tasks P ! i)"
    by (auto simp: bracketed_def dest: quiet_events split: if_splits)
  with all(2) i obtain p h q where "handler_of base app p" "run p h q" "events h = own i tr"
    unfolding handled_def by blast
  then show ?thesis using mem other_handlers_send_nothing by (cases rule: handler_of.cases) metis+
qed

lemma own_send:
  fixes base :: "('h, 'j) gateway_env"
  assumes "execution base app (booted base app sh checks ctrl_c now clock) tr P" and "Does i (Sent x) \<in> set tr"
  shows "Does i (Saw_Draining False) \<in> set tr \<and> (\<exists>ctx now. Does i (Checked ctx now (Ret True)) \<in> set tr)"
proof -
  from own_history [OF assms] obtain env :: "('h, 'j) gateway_env" and req h q where
    run: "run (proxy_handler app env req) h q" and h: "events h = own i tr" by blast
  from assms(2) h obtain before after where split: "events h = before @ Sent x # after"
    by (metis own_iff split_list)
  from handler_send [OF run this] have "justified_send app env req before x" by blast
  then have "Saw_Draining False \<in> set before" "\<exists>ctx now. Checked ctx now (Ret True) \<in> set before"
    by (auto simp: justified_send_def stage_passed_def) blast
  then have "Saw_Draining False \<in> set (events h)" "\<exists>ctx now. Checked ctx now (Ret True) \<in> set (events h)"
    unfolding split by auto
  with h show ?thesis by (simp add: own_iff)
qed

text \<open>A draining test that finds the gateway not draining comes before the flag is set.\<close>

lemma saw_not_draining:
  assumes "execution base app (booted base app sh checks ctrl_c now clock) (u @ Does j (Saw_Draining False) # v) P"
  shows "Set_Draining \<notin> set (shared_events u)"
proof -
  let ?P0 = "booted base app sh checks ctrl_c now clock"
  from execution_at [OF assms] obtain Q Q' where Q: "execution base app ?P0 u Q"
    and step: "process_step base app Q (Does j (Saw_Draining False)) Q'" by blast
  have legal: "\<forall>a\<in>set (ps_tasks ?P0). legal (ge_ovf base) app a []" using booted_invariants by blast
  from step obtain f k where op: "j < length (ps_tasks Q)" "ac_now (ps_tasks Q ! j) = Op f k"
    and e: "fst (f (ps_shared Q)) = Saw_Draining False" by (auto elim: process_step.cases)
  have "always (shared_step (ge_ovf base) app) (Op f k)"
    using steps.always_holds [OF Q legal] op by (metis legal_def)
  then have "shared_step (ge_ovf base) app (ps_shared Q) (Saw_Draining False) (snd (f (ps_shared Q)))"
    using e by (metis always.simps(2))
  then have "\<not> sh_draining (ps_shared Q)" by (auto elim: shared_step.cases)
  then show ?thesis using counters_replay [OF execution_trace [OF Q legal]] by blast
qed

section \<open>Properties\<close>

text \<open>
  C3. The state of the gateway is exactly what the execution has made of it.  From a successful start,
  after any interleaving of any number of requests with the health checks and the shutdown: the
  registry of every upstream is the result of the registry operations of the execution, in their
  order, on a new registry with the settings of that upstream; the limiter is the result of its
  checks, with the verdicts they gave; each metric counts its increments; the request numbers were
  drawn one after the other from zero; and the gateway drains exactly if the shutdown has set the
  flag.  So what holds of every registry and of every run of the limiter holds at every moment.
\<close>

theorem gateway_invariant:
  assumes "startup env = Inr (app, sh0)"
    and "execution base app (booted base app sh0 checks ctrl_c now clock) tr P"
  shows "let es = shared_events tr; sh = ps_shared P; ups = gc_upstreams (app_config app) in
    (\<forall>i<length ups. sh_registries sh i = fold apply_event (registry_ops i es)
       (registry_new (hc_passive (u_health_checks (ups ! i))) (u_circuit_breaker (ups ! i)))) \<and>
    limiter_run (ge_ovf base) (gc_rate_limit (app_config app)) Map.empty (map fst (limiter_checks es))
      = Ret (map snd (limiter_checks es), sh_limiter sh) \<and>
    (\<forall>m. load_metric m (sh_metrics sh) = of_nat (count_list es (Bumped m))) \<and>
    numbers_drawn es = map of_nat [0..<length (numbers_drawn es)] \<and>
    (sh_draining sh \<longleftrightarrow> Set_Draining \<in> set es)"
proof -
  let ?P0 = "booted base app sh0 checks ctrl_c now clock"
  from startup_state [OF assms(1)] have sh0: "sh0 = initial_shared (app_config app)" by blast
  have "\<forall>a\<in>set (ps_tasks ?P0). legal (ge_ovf base) app a []" using booted_invariants by blast
  from execution_trace [OF assms(2) this]
  have tr: "shared_trace (ge_ovf base) app (initial_shared (app_config app)) (shared_events tr) (ps_shared P)"
    by (simp add: booted_def sh0)
  have zero: "load_metric m default_metrics = 0" for m by (cases m) (simp_all add: default_metrics_def)
  show ?thesis
    using registries_replay [OF tr] limiter_replay [OF tr] counters_replay [OF tr]
    by (auto simp: Let_def initial_shared_def build_runtime_registry_def upstream_registry_def zero
        intro!: nth_equalityI)
qed

theorem gateway_invariant_witness:
  "\<exists>P. sample_execution sample_labels P \<and> total_requests (sh_metrics (ps_shared P)) = 1 \<and>
     numbers_drawn (shared_events sample_labels) = [0] \<and> \<not> sh_draining (ps_shared P)"
proof -
  obtain P where P: "sample_execution sample_labels P" using sample_complete by blast
  have es: "shared_events sample_labels = [Bumped Requests, Saw_Draining False, Entered] @ sample_events @ [Exited]"
    by (simp add: sample_labels_def shared_events_def sample_events_def)
  have start: "startup sample_startup = Inr (sample_app, initial_shared sample_config)"
    unfolding sample_app_def by (rule sample_startup_ok)
  have "load_metric Requests (sh_metrics (ps_shared P)) = of_nat (count_list (shared_events sample_labels) (Bumped Requests))"
    "numbers_drawn (shared_events sample_labels) = map of_nat [0..<length (numbers_drawn (shared_events sample_labels))]"
    "sh_draining (ps_shared P) \<longleftrightarrow> Set_Draining \<in> set (shared_events sample_labels)"
    using gateway_invariant [OF start P [unfolded sample_boot_def]] unfolding Let_def by blast+
  moreover have "length (numbers_drawn (shared_events sample_labels)) = 1"
    by (simp add: es sample_events_def component_ops)
  ultimately show ?thesis using P by (auto simp: es sample_events_def)
qed

text \<open>
  C4. The count of requests in flight is right at every moment.  After any execution from a successful
  start it is the number of requests (modulo the width of the counter) that have passed the
  constructor of their guard and whose guard has not been dropped, neither on a way out of the
  handler, a panic included, nor with the request of a client that went away.
\<close>

theorem in_flight_counts_live:
  assumes "startup env = Inr (app, sh0)"
    and "execution base app (booted base app sh0 checks ctrl_c now clock) tr P"
  shows "sh_in_flight (ps_shared P) =
    of_nat (card {i. Does i Entered \<in> set tr \<and> Does i Exited \<notin> set tr \<and> (\<forall>g. Drops i g \<notin> set tr)})"
proof -
  let ?P0 = "booted base app sh0 checks ctrl_c now clock"
  from startup_state [OF assms(1)] have sh0: "sh0 = initial_shared (app_config app)" by blast
  note init = booted_invariants [of base app sh0 checks ctrl_c now clock "ge_ovf base"]
  have all: "\<forall>i<length (ps_tasks P). bracketed (ps_tasks P ! i) (own i tr)" "\<forall>i\<ge>length (ps_tasks P). own i tr = []"
    using guards.always_holds [OF assms(2)] init by blast+
  have drops: "\<forall>i<length (ps_tasks P). ac_dropped (ps_tasks P ! i) \<longleftrightarrow> (\<exists>g. Drops i g \<in> set tr)"
    using dropped_iff [OF assms(2)] init by blast
  have "{i. i < length (ps_tasks P) \<and> ac_guard (ps_tasks P ! i)} =
      {i. Does i Entered \<in> set tr \<and> Does i Exited \<notin> set tr \<and> (\<forall>g. Drops i g \<notin> set tr)}" (is "?L = ?R")
  proof (intro set_eqI)
    fix i
    show "i \<in> ?L \<longleftrightarrow> i \<in> ?R"
    proof (cases "i < length (ps_tasks P)")
      case True
      then show ?thesis using all(1) drops by (auto simp: bracketed_def own_iff split: if_splits)
    next
      case False
      then show ?thesis using all(2) own_iff [of Entered i tr] by (auto simp: not_less)
    qed
  qed
  moreover have "sh_in_flight (ps_shared P) = guard_count P"
    by (rule in_flight_guards [OF assms(2)]) (use init booted_in_flight sh0 in auto)
  ultimately show ?thesis by (simp add: length_filter_conv_card)
qed

theorem in_flight_counts_live_witness:
  "\<exists>P. sample_execution sample_labels P \<and> sh_in_flight (ps_shared P) = 0"
proof -
  obtain P where P: "sample_execution sample_labels P" using sample_complete by blast
  have start: "startup sample_startup = Inr (sample_app, initial_shared sample_config)"
    unfolding sample_app_def by (rule sample_startup_ok)
  have "{i. Does i Entered \<in> set sample_labels \<and> Does i Exited \<notin> set sample_labels \<and>
      (\<forall>g. Drops i g \<notin> set sample_labels)} = {}" by (auto simp: sample_labels_def sample_events_def)
  with in_flight_counts_live [OF start P [unfolded sample_boot_def]] P show ?thesis by auto
qed

text \<open>The requests that a check admitted at an instant in \<open>D\<close>, counted by tasks.\<close>

definition admits :: "limit_scope \<Rightarrow> string \<Rightarrow> instant set \<Rightarrow> event \<Rightarrow> bool" where
  "admits scope v D e = (case e of Checked ctx now (Ret True) \<Rightarrow> scope_value ctx scope = v \<and> now \<in> D | _ \<Rightarrow> False)"

fun admission_of :: "limit_scope \<Rightarrow> string \<Rightarrow> instant set \<Rightarrow> label \<Rightarrow> nat list" where
  "admission_of scope v D (Does i e) = (if admits scope v D e then [i] else [])"
| "admission_of scope v D _ = []"

lemma admits_iff: "admits scope v D e \<longleftrightarrow> (\<exists>ctx now. e = Checked ctx now (Ret True) \<and> scope_value ctx scope = v \<and> now \<in> D)"
  by (auto simp: admits_def split: event.splits rust.splits bool.splits)

lemma admissions_accepted:
  "length (concat (map (admission_of scope v D) tr)) = length (filter (\<lambda>a. a \<in> D)
     (accepted_times scope v (map fst (limiter_checks (shared_events tr))) (map snd (limiter_checks (shared_events tr)))))"
proof -
  let ?in = "\<lambda>c. snd c \<and> scope_value (fst (fst c)) scope = v \<and> snd (fst c) \<in> D"
  have one: "length (admission_of scope v D l) = length (filter ?in (limiter_checks (label_events l)))" for l
  proof (cases l rule: label_events.cases)
    case (1 i e)
    then show ?thesis by (cases e) (auto simp: admits_def component_ops split: rust.split bool.split)
  qed (simp_all add: component_ops)
  have "length (concat (map (admission_of scope v D) tr)) = length (filter ?in (limiter_checks (shared_events tr)))"
  proof (induction tr)
    case (Cons l tr)
    have "limiter_checks (shared_events (l # tr)) = limiter_checks (label_events l) @ limiter_checks (shared_events tr)"
      by (simp add: shared_events_def)
    with Cons one [of l] show ?case by simp
  qed (simp add: component_ops)
  then show ?thesis by (simp add: accepted_times_def zip_map_fst_snd filter_map o_def split_beta conj_assoc)
qed

lemma admission_ids:
  "{i. \<exists>ctx now. Does i (Checked ctx now (Ret True)) \<in> set tr \<and> scope_value ctx scope = v \<and> now \<in> D}
   = set (concat (map (admission_of scope v D) tr))"
proof -
  have "i \<in> set (admission_of scope v D l) \<longleftrightarrow> (\<exists>e. l = Does i e \<and> admits scope v D e)" for i l
    by (cases l) auto
  note one = this
  have "i \<in> set (concat (map (admission_of scope v D) tr)) \<longleftrightarrow> (\<exists>l\<in>set tr. i \<in> set (admission_of scope v D l))" for i
    by simp
  also have "\<dots> i \<longleftrightarrow> (\<exists>e. Does i e \<in> set tr \<and> admits scope v D e)" for i unfolding one by blast
  finally have "set (concat (map (admission_of scope v D) tr)) = {i. \<exists>e. Does i e \<in> set tr \<and> admits scope v D e}" by blast
  then show ?thesis unfolding admits_iff by blast
qed

text \<open>The requests that were admitted and sent are at most the checks that the limiter accepted.\<close>

lemma sent_le_accepted:
  "card {i. \<exists>x ctx now. Does i (Sent x) \<in> set tr \<and> Does i (Checked ctx now (Ret True)) \<in> set tr \<and>
     scope_value ctx scope = v \<and> now \<in> D} \<le> length (filter (\<lambda>a. a \<in> D)
       (accepted_times scope v (map fst (limiter_checks (shared_events tr))) (map snd (limiter_checks (shared_events tr)))))"
proof -
  let ?S = "{i. \<exists>ctx now. Does i (Checked ctx now (Ret True)) \<in> set tr \<and> scope_value ctx scope = v \<and> now \<in> D}"
  have "card {i. \<exists>x ctx now. Does i (Sent x) \<in> set tr \<and> Does i (Checked ctx now (Ret True)) \<in> set tr \<and>
      scope_value ctx scope = v \<and> now \<in> D} \<le> card ?S"
    by (rule card_mono [of ?S]) (simp only: admission_ids finite_set, blast)
  also have "\<dots> \<le> length (concat (map (admission_of scope v D) tr))"
    unfolding admission_ids by (rule card_length)
  finally show ?thesis unfolding admissions_accepted .
qed

text \<open>From a start the checks of an execution are a run of the limiter.\<close>

lemma booted_limiter_run:
  assumes "startup env = Inr (app, sh0)" and "execution base app (booted base app sh0 checks ctrl_c now clock) tr P"
  shows "limiter_run (ge_ovf base) (gc_rate_limit (app_config app)) Map.empty (map fst (limiter_checks (shared_events tr)))
    = Ret (map snd (limiter_checks (shared_events tr)), sh_limiter (ps_shared P))"
proof -
  from startup_state [OF assms(1)] have sh0: "sh0 = initial_shared (app_config app)" by blast
  have "\<forall>a\<in>set (ps_tasks (booted base app sh0 checks ctrl_c now clock)). legal (ge_ovf base) app a []"
    using booted_invariants by blast
  from limiter_replay [OF execution_trace [OF assms(2) this]] show ?thesis
    by (simp add: booted_def sh0 initial_shared_def)
qed

text \<open>
  C2. A quota bounds the requests that reach the upstreams.  In every execution, whatever the
  interleaving: every request that is sent upstream was accepted by the limiter, and the number of
  requests that were accepted for one value of a rule's scope and sent upstream, retries not counted,
  is at most the rule's quota.
\<close>

theorem quota_end_to_end:
  assumes "startup env = Inr (app, sh0)"
    and "execution base app (booted base app sh0 checks ctrl_c now clock) tr P"
    and "rl_enabled (gc_rate_limit (app_config app))"
    and "rule \<in> set (rl_scoped_limits (gc_rate_limit (app_config app)))" and "sl_quota rule = Some quota"
  shows "(\<forall>i x. Does i (Sent x) \<in> set tr \<longrightarrow> (\<exists>ctx now. Does i (Checked ctx now (Ret True)) \<in> set tr)) \<and>
    card {i. \<exists>x ctx now. Does i (Sent x) \<in> set tr \<and> Does i (Checked ctx now (Ret True)) \<in> set tr \<and>
      scope_value ctx (sl_scope rule) = v} \<le> unat quota"
proof
  show "\<forall>i x. Does i (Sent x) \<in> set tr \<longrightarrow> (\<exists>ctx now. Does i (Checked ctx now (Ret True)) \<in> set tr)"
    using own_send [OF assms(2)] by blast
  show "card {i. \<exists>x ctx now. Does i (Sent x) \<in> set tr \<and> Does i (Checked ctx now (Ret True)) \<in> set tr \<and>
      scope_value ctx (sl_scope rule) = v} \<le> unat quota"
    using sent_le_accepted [of tr "sl_scope rule" v UNIV] quota_run [OF assms(3-5) booted_limiter_run [OF assms(1,2)], of v]
    by (simp add: state_of_def default_limit_state_def)
qed

theorem quota_end_to_end_witness:
  "\<exists>P. sample_execution sample_labels P \<and> Does sample_id (Sent sample_sent) \<in> set sample_labels \<and>
    card {i. \<exists>x ctx now. Does i (Sent x) \<in> set sample_labels \<and> Does i (Checked ctx now (Ret True)) \<in> set sample_labels \<and>
      scope_value ctx Consumer = ''anonymous''} \<le> 2"
proof -
  obtain P where P: "sample_execution sample_labels P" using sample_complete by blast
  have start: "startup sample_startup = Inr (sample_app, initial_shared sample_config)"
    unfolding sample_app_def by (rule sample_startup_ok)
  have cfg: "gc_rate_limit (app_config sample_app) = sample_quota_config"
    by (simp add: sample_env_simps sample_config_def)
  note quota = quota_end_to_end [OF start P [unfolded sample_boot_def], THEN conjunct2, unfolded cfg,
      of "hd (rl_scoped_limits sample_quota_config)" 2 "''anonymous''"]
  have "card {i. \<exists>x ctx now. Does i (Sent x) \<in> set sample_labels \<and> Does i (Checked ctx now (Ret True)) \<in> set sample_labels \<and>
      scope_value ctx Consumer = ''anonymous''} \<le> 2"
    using quota by (simp add: sample_quota_config_def)
  with P show ?thesis by (auto simp: sample_labels_def sample_events_def)
qed

text \<open>
  C15. The sliding window bounds the requests that reach the upstreams.  In every execution in which
  the requests take the lock of the limiter in the order in which they have read the clock, for a
  scope with one rule, under the sliding-window policy, and for every interval of the rule's window
  length: at most the limit of the requests sent upstream were accepted in it for one scope value.
\<close>

theorem window_end_to_end:
  assumes "startup env = Inr (app, sh0)"
    and "execution base app (booted base app sh0 checks ctrl_c now clock) tr P"
    and "rl_enabled (gc_rate_limit (app_config app))"
    and "filter (\<lambda>r. sl_scope r = sl_scope rule) (rl_scoped_limits (gc_rate_limit (app_config app))) = [rule]"
    and "rule_policy (gc_rate_limit (app_config app)) rule = SlidingWindow"
    and "sorted (map (snd \<circ> fst) (limiter_checks (shared_events tr)))"
  shows "card {i. \<exists>x ctx now. Does i (Sent x) \<in> set tr \<and> Does i (Checked ctx now (Ret True)) \<in> set tr \<and>
      scope_value ctx (sl_scope rule) = v \<and> now \<le> t \<and> t < now + rule_window rule} \<le> unat (sl_limit rule)"
proof -
  have "windows_ok (rule_window rule) (unat (sl_limit rule)) (accepted_times (sl_scope rule) v
      (map fst (limiter_checks (shared_events tr))) (map snd (limiter_checks (shared_events tr))))"
    by (rule sliding.run_safe [OF assms(3-5) booted_limiter_run [OF assms(1,2)]]) (use assms(6) in simp)
  then show ?thesis
    using sent_le_accepted [of tr "sl_scope rule" v "{a. a \<le> t \<and> t < a + rule_window rule}"]
    by (auto simp: windows_ok_def intro: order_trans)
qed

theorem window_end_to_end_witness:
  "\<exists>P. sample_execution sample_labels P \<and> Does sample_id (Sent sample_sent) \<in> set sample_labels \<and>
    card {i. \<exists>x ctx now. Does i (Sent x) \<in> set sample_labels \<and> Does i (Checked ctx now (Ret True)) \<in> set sample_labels \<and>
      scope_value ctx Consumer = ''anonymous'' \<and> now \<le> 5 \<and> 5 < now + 60000000000} \<le> 10"
proof -
  obtain P where P: "sample_execution sample_labels P" using sample_complete by blast
  have start: "startup sample_startup = Inr (sample_app, initial_shared sample_config)"
    unfolding sample_app_def by (rule sample_startup_ok)
  have cfg: "gc_rate_limit (app_config sample_app) = sample_quota_config"
    by (simp add: sample_env_simps sample_config_def)
  have "limiter_checks (shared_events sample_labels) =
      [((limiter_context (last sample_routes) sample_request sample_identity, 0), True)]"
    by (auto simp: sample_labels_def shared_events_def sample_events_def component_ops)
  then have "sorted (map (snd \<circ> fst) (limiter_checks (shared_events sample_labels)))" by simp
  note window = window_end_to_end [OF start P [unfolded sample_boot_def] _ _ _ this, unfolded cfg,
      of "hd (rl_scoped_limits sample_quota_config)" "''anonymous''" 5]
  have "card {i. \<exists>x ctx now. Does i (Sent x) \<in> set sample_labels \<and> Does i (Checked ctx now (Ret True)) \<in> set sample_labels \<and>
      scope_value ctx Consumer = ''anonymous'' \<and> now \<le> 5 \<and> 5 < now + 60000000000} \<le> 10"
    using window by (simp add: sample_quota_config_def rule_policy_def rule_window_def from_secs_def)
  with P show ?thesis by (auto simp: sample_labels_def sample_events_def)
qed

text \<open>
  C8. The shutdown closes the gateway to new requests.  In every execution, no request that arrives
  after the shutdown has set the flag finds the gateway not draining, and none is sent upstream.
\<close>

theorem late_requests_refused:
  assumes "execution base app (booted base app sh0 checks ctrl_c now clock) (u @ Does s Set_Draining # v) P"
    and "Arrives i \<in> set v"
  shows "Does i (Sent x) \<notin> set (u @ Does s Set_Draining # v) \<and>
    Does i (Saw_Draining False) \<notin> set (u @ Does s Set_Draining # v)"
proof -
  let ?P0 = "booted base app sh0 checks ctrl_c now clock" and ?tr = "u @ Does s Set_Draining # v"
  have "Does i (Saw_Draining False) \<notin> set ?tr"
  proof
    assume "Does i (Saw_Draining False) \<in> set ?tr"
    then obtain u' v' where split: "?tr = u' @ Does i (Saw_Draining False) # v'" by (meson split_list)
    from saw_not_draining [OF assms(1) [unfolded split]] have "Does s Set_Draining \<notin> set u'"
      by (force simp: shared_events_def)
    with split have mem: "Does i (Saw_Draining False) \<in> set u"
      by (auto simp: append_eq_append_conv2 append_eq_Cons_conv Cons_eq_append_conv)
    from execution_at [OF assms(1)] obtain Q Q' where Q: "execution base app ?P0 u Q"
      "process_step base app Q (Does s Set_Draining) Q'" "execution base app Q' v P" by blast
    have "length (ps_tasks Q) \<le> length (ps_tasks Q')" using Q(2) by (auto elim: process_step.cases)
    with arrival_index [OF Q(3) assms(2)] have "length (ps_tasks Q) \<le> i" by simp
    then have "own i u = []"
      using steps.always_holds [OF Q(1)] booted_invariants by blast
    with mem show False by (metis own_iff empty_iff list.set(1))
  qed
  with own_send [OF assms(1)] show ?thesis by blast
qed

lemma sample_shutdown:
  "ps_tasks sample_boot ! 0 = spawned (graceful_shutdown_signal default_shutdown_config (Inr ()) 0 (\<lambda>k. k * 50000000))"
  "0 < sample_id"
  by (simp_all add: sample_boot_def booted_def sample_env_simps sample_config_def default_server_config_def)

lemma sample_shutdown_now:
  "ac_now (ps_tasks sample_boot ! 0) = Op (\<lambda>sh. (Set_Draining, sh\<lparr>sh_draining := True\<rparr>))
     (\<lambda>_. drain_test (from_millis (sd_drain_timeout_ms default_shutdown_config)) (\<lambda>k. k * 50000000) 0)"
  by (simp add: sample_shutdown spawned_def graceful_shutdown_signal_def Let_def)

theorem late_requests_refused_witness:
  "\<exists>P. sample_execution ([] @ Does 0 Set_Draining # [Arrives sample_id]) P \<and>
     Does sample_id (Sent sample_sent) \<notin> set ([] @ Does 0 Set_Draining # [Arrives sample_id])"
proof -
  have "handler_of sample_gateway_env sample_app sample_handler"
    unfolding sample_handler_def by (rule handler_of.proxy) (simp add: same_platform_def)
  note arrive = process_step.arrive [OF this]
  note signal = execution_op [of sample_gateway_env sample_app sample_boot "[]" sample_boot 0,
      OF execution.init sample_shutdown(2) sample_shutdown_now, unfolded fst_conv append_Nil]
  obtain P where P: "sample_execution [Does 0 Set_Draining] P" "length (ps_tasks P) = sample_id"
    by (rule that [OF signal]) simp
  from execution.continue [OF P(1) arrive] P(2) obtain P' where
    "sample_execution ([] @ Does 0 Set_Draining # [Arrives sample_id]) P'" by auto
  with late_requests_refused [OF this [unfolded sample_boot_def], folded sample_boot_def] show ?thesis by auto
qed

text \<open>The sample request, stopped between its test of the flag and the constructor of its guard.\<close>

definition sample_rest :: "(shared, event, bool) task" where
  "sample_rest = andthen (guarded (proxy_body sample_app sample_gateway_env sample_request)) (\<lambda>_. Done True)"

lemma sample_handler_tree:
  "andthen sample_handler (\<lambda>_. Done True) = Op (\<lambda>sh. (Bumped Requests, sh\<lparr>sh_metrics := inc_request (sh_metrics sh)\<rparr>))
     (\<lambda>_. Op (\<lambda>sh. (Saw_Draining (sh_draining sh), sh)) (\<lambda>sh. if sh_draining sh then Done True else sample_rest))"
  by (simp add: sample_handler_def proxy_handler_def bump_def load_draining_def return_def sample_rest_def fun_eq_iff)

lemma sample_rest_alone:
  assumes "sh_request_counter sh = 0" and "sh_limiter sh = Map.empty"
    and "sh_registries sh 1 = upstream_registry sample_upstream"
  shows "events (alone_history sample_rest sh) = Entered # sample_events @ [Exited]"
  using assms sample_body_alone [of "sh\<lparr>sh_in_flight := sh_in_flight sh + 1\<rparr>"]
  by (simp add: sample_rest_def guarded_alt)

lemma sample_race:
  "\<exists>P. sample_execution ([Arrives sample_id, Does sample_id (Bumped Requests), Does sample_id (Saw_Draining False),
      Does 0 Set_Draining] @ Does 0 (Saw_In_Flight 0) # map (Does sample_id) (Entered # sample_events @ [Exited])) P \<and>
    ac_now (ps_tasks P ! 0) = Done True"
proof -
  let ?sh = "initial_shared sample_config"
  let ?P1 = "sample_boot\<lparr>ps_tasks := ps_tasks sample_boot @ [request_activity sample_handler]\<rparr>"
  have now: "ac_now (ps_tasks ?P1 ! sample_id) = andthen sample_handler (\<lambda>_. Done True)"
    by (simp add: request_activity_def spawned_def)
  from execution_op [OF sample_arrival _ now [unfolded sample_handler_tree]] obtain P2 where
    P2: "sample_execution [Arrives sample_id, Does sample_id (Bumped Requests)] P2"
    "ps_shared P2 = ?sh\<lparr>sh_metrics := inc_request (sh_metrics ?sh)\<rparr>" "length (ps_tasks P2) = Suc sample_id"
    "ac_now (ps_tasks P2 ! sample_id) = Op (\<lambda>sh. (Saw_Draining (sh_draining sh), sh)) (\<lambda>sh. if sh_draining sh then Done True else sample_rest)"
    "ps_tasks P2 ! 0 = ps_tasks sample_boot ! 0"
    using sample_shutdown(2) by (fastforce simp: sample_boot_shared operated_def nth_append)
  from execution_op [OF P2(1) _ P2(4)] P2(2,3,5) obtain P3 where
    P3: "sample_execution [Arrives sample_id, Does sample_id (Bumped Requests), Does sample_id (Saw_Draining False)] P3"
    "ps_shared P3 = ?sh\<lparr>sh_metrics := inc_request (sh_metrics ?sh)\<rparr>" "length (ps_tasks P3) = Suc sample_id"
    "ac_now (ps_tasks P3 ! sample_id) = sample_rest" "ps_tasks P3 ! 0 = ps_tasks sample_boot ! 0"
    using sample_shutdown(2) sample_initial(1) by (fastforce simp: operated_def)
  have "ac_now (ps_tasks P3 ! 0) = Op (\<lambda>sh. (Set_Draining, sh\<lparr>sh_draining := True\<rparr>))
     (\<lambda>_. drain_test (from_millis (sd_drain_timeout_ms default_shutdown_config)) (\<lambda>k. k * 50000000) 0)"
    using P3(5) sample_shutdown_now by simp
  from execution_alone [OF P3(1) _ this] P3 obtain P4 where
    P4: "sample_execution ([Arrives sample_id, Does sample_id (Bumped Requests), Does sample_id (Saw_Draining False)]
      @ [Does 0 Set_Draining, Does 0 (Saw_In_Flight 0)]) P4"
    "ps_shared P4 = ?sh\<lparr>sh_metrics := inc_request (sh_metrics ?sh), sh_draining := True\<rparr>"
    "ac_now (ps_tasks P4 ! 0) = Done True" "length (ps_tasks P4) = Suc sample_id" "ac_now (ps_tasks P4 ! sample_id) = sample_rest"
    using sample_shutdown(2) by (auto simp: drain_test_def initial_shared_def)
  have "events (alone_history sample_rest (ps_shared P4)) = Entered # sample_events @ [Exited]"
    unfolding P4(2) by (rule sample_rest_alone) (use sample_initial in simp_all)
  with execution_alone [OF P4(1) _ P4(5)] P4(3,4) sample_shutdown(2) show ?thesis by fastforce
qed

text \<open>
  C18. The shutdown can overlook a request.  The test of the flag and the constructor of the guard are
  two operations, so there is an execution in which a request sees the gateway not draining, then
  the shutdown sets the flag, finds no request in flight and is over, and only then the request is
  counted and sent upstream.
\<close>

theorem shutdown_overlooks_request:
  "\<exists>u v i P. sample_execution (u @ Does 0 (Saw_In_Flight 0) # v) P \<and> ac_now (ps_tasks P ! 0) = Done True \<and>
     Does i (Saw_Draining False) \<in> set u \<and> Does 0 Set_Draining \<in> set u \<and>
     Does i Entered \<in> set v \<and> Does i (Sent sample_sent) \<in> set v"
proof -
  from sample_race obtain P where "sample_execution ([Arrives sample_id, Does sample_id (Bumped Requests),
      Does sample_id (Saw_Draining False), Does 0 Set_Draining] @ Does 0 (Saw_In_Flight 0)
      # map (Does sample_id) (Entered # sample_events @ [Exited])) P" "ac_now (ps_tasks P ! 0) = Done True" by blast
  moreover have "Does sample_id (Sent sample_sent) \<in> set (map (Does sample_id) (Entered # sample_events @ [Exited]))"
    by (simp add: sample_events_def)
  ultimately show ?thesis
    by (intro exI [of _ "[Arrives sample_id, Does sample_id (Bumped Requests), Does sample_id (Saw_Draining False),
        Does 0 Set_Draining]"] exI [of _ "map (Does sample_id) (Entered # sample_events @ [Exited])"]
        exI [of _ sample_id] exI [of _ P]) simp
qed

section \<open>The request numbers\<close>

text \<open>What a task did at a point of its own is at a point of the execution.\<close>

lemma own_Cons: "own i (l # tr) = (case l of Does j e \<Rightarrow> if j = i then e # own i tr else own i tr | _ \<Rightarrow> own i tr)"
  by (auto simp: own_def List.map_filter_def split: label.splits)

lemma own_split:
  "own i tr = before @ e # after \<Longrightarrow> \<exists>u v. tr = u @ Does i e # v \<and> own i u = before \<and> own i v = after"
proof (induction tr arbitrary: before)
  case (Cons l tr)
  show ?case
  proof (cases "own i [l] = [] \<or> before \<noteq> []")
    case True
    then have "\<exists>b. before = own i [l] @ b \<and> own i tr = b @ e # after"
      using Cons.prems by (cases l) (auto simp: own_Cons Cons_eq_append_conv split: if_splits)
    then obtain b where b: "before = own i [l] @ b" "own i tr = b @ e # after" by blast
    from Cons.IH [OF b(2)] obtain u v where "tr = u @ Does i e # v" "own i u = b" "own i v = after" by blast
    with b(1) own_simps(2) [of i "[l]" u] show ?thesis by (intro exI [of _ "l # u"] exI [of _ v]) simp
  next
    case False
    with Cons.prems show ?thesis
      by (intro exI [of _ "[]"] exI [of _ tr]) (cases l; auto simp: own_Cons split: if_splits)
  qed
qed simp

text \<open>The number that an attempt draws is the number of attempts of the whole process before it.\<close>

lemma number_drawn:
  assumes "startup env = Inr (app, sh0)"
    and "execution base app (booted base app sh0 checks ctrl_c now clock) (u @ Does i (Took_Number n) # v) P"
  shows "n = of_nat (length (numbers_drawn (shared_events u)))"
proof -
  let ?P0 = "booted base app sh0 checks ctrl_c now clock" and ?u = "u @ [Does i (Took_Number n)]"
  from execution_append [of base app ?P0 ?u v P] assms(2) obtain Q where Q: "execution base app ?P0 ?u Q" by auto
  have "\<forall>a\<in>set (ps_tasks ?P0). legal (ge_ovf base) app a []" using booted_invariants by blast
  from counters_replay [OF execution_trace [OF Q this]] startup_state [OF assms(1)]
  have "\<forall>j<length (numbers_drawn (shared_events ?u)). numbers_drawn (shared_events ?u) ! j = of_nat j"
    by (simp add: booted_def initial_shared_def)
  moreover have "numbers_drawn (shared_events ?u) = numbers_drawn (shared_events u) @ [n]" by (simp add: component_ops)
  ultimately show ?thesis by (metis length_append_singleton lessI nth_append_length)
qed

text \<open>With all answers yes a round robin takes the slot of its number.\<close>

lemma answered_all: "length oks = length ts \<Longrightarrow> False \<notin> set oks \<Longrightarrow> answered ts oks = ts"
  by (induction oks ts rule: list_induct2) auto

lemma asked_no: "length oks = length ts \<Longrightarrow> False \<in> set oks \<Longrightarrow>
   \<exists>key now. Asked addr key now False \<in> set (asked addr u clock i ts oks)"
  by (induction oks ts arbitrary: i rule: list_induct2) (auto, blast)

lemma asked_numbers: "numbers_drawn (asked addr u clock i ts oks) = []"
  by (induction addr u clock i ts oks rule: asked.induct) (simp_all add: component_ops)

text \<open>
  C22. The round robin of the whole process.  In an execution from a successful start in which all
  upstreams are balanced by round robin and every question for a target was answered with yes so
  far, every send goes to the target in the slot that its attempt's number selects, where the
  number counts all attempts of the process before it, of all upstreams (while there are not more than
  \<open>2 ^ 32\<close>): so the attempts take the slots in turn, however they interleave.
\<close>

theorem round_robin_end_to_end:
  assumes "startup env = Inr (app, sh0)"
    and "execution base app (booted base app sh0 checks ctrl_c now clock) (u @ Does i (Sent x) # v) P"
    and "\<forall>up\<in>set (gc_upstreams (app_config app)). u_strategy up = RoundRobin \<and> total_weight (u_targets up) < 2 ^ 32"
    and "\<forall>addr key now. Asked addr key now False \<notin> set (shared_events u)"
    and "length (numbers_drawn (shared_events u)) \<le> 2 ^ 32"
  shows "\<exists>up\<in>set (gc_upstreams (app_config app)). \<exists>u1 n u2. u = u1 @ Does i (Took_Number n) # u2 \<and>
    numbers_drawn (own i u2) = [] \<and>
    se_target x = target_key (u_name up) (ut_id (weighted_slots (u_targets up) !
      (length (numbers_drawn (shared_events u1)) mod total_weight (u_targets up))))"
proof -
  let ?tr = "u @ Does i (Sent x) # v"
  have "Does i (Sent x) \<in> set ?tr" by simp
  from own_history [OF assms(2) this] obtain env' :: "('a, 'b) gateway_env" and req h q where
    run: "run (proxy_handler app env' req) h q" and h: "events h = own i ?tr" by blast
  have "events h = own i u @ Sent x # own i v" using h by (simp add: own_Cons)
  from handler_send [OF run this] have "justified_send app env' req (own i u) x" by blast
  then obtain r identity up addr pq body before n clock' oks target where
    passed: "stage_passed app env' req r identity up addr before"
    and own: "own i u = before @ Took_Number n # asked addr (u_name up) clock' 0 (u_targets up) oks"
    and oks: "length oks = length (u_targets up)"
    and select: "select_target (ge_ovf env') (ge_hash env') (u_strategy up) (answered (u_targets up) oks)
        (Some (client_key r req)) n = Ret (Some target)"
    and x: "x = upstream_request env' req r up pq body target" unfolding justified_send_def by blast
  from passed have up: "up \<in> set (gc_upstreams (app_config app))" by (auto simp: stage_passed_def find_Some_iff)
  from own_split [OF own] obtain u1 u2 where u: "u = u1 @ Does i (Took_Number n) # u2"
    and u2: "own i u2 = asked addr (u_name up) clock' 0 (u_targets up) oks" by blast
  have "False \<notin> set oks"
  proof
    assume "False \<in> set oks"
    from asked_no [OF oks this] obtain key now where "Asked addr key now False \<in> set (own i u2)" unfolding u2 by blast
    then have "Asked addr key now False \<in> set (shared_events u)" by (force simp: own_iff u shared_events_def)
    with assms(4) show False by blast
  qed
  then have all: "answered (u_targets up) oks = u_targets up" by (rule answered_all [OF oks])
  let ?j = "length (numbers_drawn (shared_events u1))" and ?w = "total_weight (u_targets up)"
  have n: "n = of_nat ?j" by (rule number_drawn [OF assms(1)]) (use assms(2) u in simp)
  have "?j < 2 ^ 32" using assms(5) by (simp add: u component_ops shared_events_def)
  then have "unat n mod 2 ^ 32 = ?j" by (simp add: n unat_of_nat)
  moreover have "pick_weighted_target (ge_ovf env') (u_targets up) n = Ret (Some target)" and "?w < 2 ^ 32"
    using select assms(3) up by (auto simp: all select_target_def)
  ultimately have "target = weighted_slots (u_targets up) ! (?j mod ?w)"
    by (simp add: pick_weighted_target_slots split: if_splits)
  moreover have "numbers_drawn (own i u2) = []" by (simp add: u2 asked_numbers)
  ultimately show ?thesis using up u x by (intro bexI [of _ up] exI [of _ u1] exI [of _ n] exI [of _ u2]) (simp_all add: upstream_request_def)
qed

theorem round_robin_end_to_end_witness:
  "\<exists>P up. sample_execution sample_labels P \<and> up \<in> set (gc_upstreams sample_config) \<and>
     se_target sample_sent = target_key (u_name up) (ut_id (weighted_slots (u_targets up) ! 0))"
proof -
  let ?u = "Arrives sample_id # map (Does sample_id) ([Bumped Requests, Saw_Draining False, Entered] @ take 6 sample_events)"
  let ?v = "map (Does sample_id) [Noted 1 (RecordSuccess ''svc-b:a''), Exited]"
  obtain P where P: "sample_execution sample_labels P" using sample_complete by blast
  have labels: "sample_labels = ?u @ Does sample_id (Sent sample_sent) # ?v"
    by (simp add: sample_labels_def sample_events_def)
  have start: "startup sample_startup = Inr (sample_app, initial_shared sample_config)"
    unfolding sample_app_def by (rule sample_startup_ok)
  have "total_weight sample_targets < 2 ^ 32" by (simp add: total_weight_def sample_targets_def)
  then have ups: "\<forall>up\<in>set (gc_upstreams (app_config sample_app)). u_strategy up = RoundRobin \<and> total_weight (u_targets up) < 2 ^ 32"
    by (simp add: sample_env_simps sample_config_def sample_upstream_def)
  have yes: "\<forall>addr key now. Asked addr key now False \<notin> set (shared_events ?u)"
    by (simp add: shared_events_def sample_events_def)
  have one: "numbers_drawn (shared_events ?u) = [0]"
    by (auto simp: shared_events_def sample_events_def component_ops)
  have "execution sample_gateway_env sample_app (booted sample_gateway_env sample_app (initial_shared sample_config)
      (\<lambda>_. sample_check) (Inr ()) 0 (\<lambda>k. k * 50000000)) (?u @ Does sample_id (Sent sample_sent) # ?v) P"
    using P unfolding sample_boot_def [symmetric] labels [symmetric] .
  from round_robin_end_to_end [OF start this ups yes] one
  obtain up u1 n u2 where up: "up \<in> set (gc_upstreams sample_config)" and u: "?u = u1 @ Does sample_id (Took_Number n) # u2"
    and x: "se_target sample_sent = target_key (u_name up) (ut_id (weighted_slots (u_targets up) !
      (length (numbers_drawn (shared_events u1)) mod total_weight (u_targets up))))"
    unfolding sample_env_simps by fastforce
  have "length (numbers_drawn (shared_events ?u)) = Suc (length (numbers_drawn (shared_events u1))
      + length (numbers_drawn (shared_events u2)))"
    unfolding u by (simp add: shared_events_def component_ops)
  with one have "length (numbers_drawn (shared_events u1)) = 0" by simp
  with P up x show ?thesis by auto
qed

section \<open>The clock of the limiter\<close>

text \<open>The first operations of a task that runs without interruption.\<close>

fun solo :: "nat \<Rightarrow> ('s, 'e, 'a) task \<Rightarrow> 's \<Rightarrow> 'e list \<times> ('s, 'e, 'a) task \<times> 's" where
  "solo 0 p s = ([], p, s)"
| "solo (Suc n) (Done a) s = ([], Done a, s)"
| "solo (Suc n) (Op f k) s = (let (es, q, s') = solo n (k s) (snd (f s)) in (fst (f s) # es, q, s'))"

lemma execution_solo:
  assumes "execution base app P0 tr P" and "i < length (ps_tasks P)"
    and "solo n (ac_now (ps_tasks P ! i)) (ps_shared P) = (es, q, sh)"
  shows "\<exists>P'. execution base app P0 (tr @ map (Does i) es) P' \<and> ps_shared P' = sh \<and> ac_now (ps_tasks P' ! i) = q \<and>
    length (ps_tasks P') = length (ps_tasks P) \<and> (\<forall>j. j \<noteq> i \<longrightarrow> ps_tasks P' ! j = ps_tasks P ! j)"
  using assms
proof (induction n arbitrary: tr P es)
  case (Suc n)
  show ?case
  proof (cases "ac_now (ps_tasks P ! i)")
    case (Op f k)
    let ?P = "P\<lparr>ps_shared := snd (f (ps_shared P)), ps_tasks := (ps_tasks P)[i := operated (ps_tasks P ! i) f k (ps_shared P)]\<rparr>"
    from Suc.prems(3) Op obtain es' where es: "es = fst (f (ps_shared P)) # es'"
      and rest: "solo n (ac_now (ps_tasks ?P ! i)) (ps_shared ?P) = (es', q, sh)"
      using Suc.prems(2) by (auto simp: operated_def Let_def split: prod.splits)
    from Suc.IH [OF execution_op [OF Suc.prems(1,2) Op] _ rest] Suc.prems(2) es show ?thesis by auto
  qed (use Suc.prems in auto)
qed auto

text \<open>A gateway whose limiter allows a client two requests in every second, and requests to it.\<close>

definition race_limits :: rate_limit_config where
  "race_limits = sample_quota_config\<lparr>rl_scoped_limits :=
     [\<lparr>sl_scope = Client, sl_limit = 2, sl_quota = None, sl_window_seconds = 1, sl_policy = None\<rparr>]\<rparr>"

definition race_config :: gateway_config where
  "race_config = sample_config\<lparr>gc_rate_limit := race_limits\<rparr>"

definition race_startup :: startup_env where
  "race_startup = sample_startup\<lparr>su_json_from_str := (\<lambda>_. Inr race_config)\<rparr>"

definition race_app :: app where
  "race_app = initial_app race_config []"

definition race_boot :: process where
  "race_boot = booted sample_gateway_env race_app (initial_shared race_config) (\<lambda>_. sample_check) (Inr ()) 0 (\<lambda>k. k * 50000000)"

abbreviation race_execution :: "label list \<Rightarrow> process \<Rightarrow> bool" where
  "race_execution \<equiv> execution sample_gateway_env race_app race_boot"

abbreviation race_context :: rate_limit_context where
  "race_context \<equiv> limiter_context (last sample_routes) sample_request sample_identity"

abbreviation race_handler :: "instant \<Rightarrow> unit proc" where
  "race_handler t \<equiv> proxy_handler race_app (sample_gateway_env\<lparr>ge_now := t\<rparr>) sample_request"

abbreviation race_check :: "instant \<Rightarrow> shared \<Rightarrow> event \<times> shared" where
  "race_check t sh \<equiv> (let r = check_with_context False race_limits race_context t (sh_limiter sh)
     in (Checked race_context t (verdict r), after_check r sh))"

lemma race_startup_ok: "startup race_startup = Inr (race_app, initial_shared race_config)"
proof -
  have "load_from_path (\<lambda>_. Inr []) (\<lambda>_. Inr race_config) (\<lambda>_. Inl ''yaml'') ''gateway.json'' = Inr race_config" by code_simp
  moreover have "gc_plugins race_config = []" by (simp add: race_config_def sample_config_def)
  ultimately show ?thesis
    by (simp add: startup_def config_path_def race_startup_def sample_startup_def from_config_def plugin_manager_new_def race_app_def)
qed

lemma race_like: "sample_like race_app (sample_gateway_env\<lparr>ge_now := t\<rparr>)"
  by (simp add: sample_like_def sample_env_simps race_app_def initial_app_def race_config_def sample_config_def)
    (simp add: sample_upstream_def build_runtime_registry_def)

lemma race_body: "\<exists>g. proxy_body race_app (sample_gateway_env\<lparr>ge_now := t\<rparr>) sample_request =
   seq (limiter_call False race_limits race_context t) g"
  using sample_like_body [OF race_like]
  by (auto simp: sample_env_simps race_app_def initial_app_def race_config_def simp del: limiter_call_simps)

lemma race_handler_tree:
  "\<exists>k. andthen (race_handler t) (\<lambda>_. Done True) = Op (\<lambda>sh. (Bumped Requests, sh\<lparr>sh_metrics := inc_request (sh_metrics sh)\<rparr>))
     (\<lambda>_. Op (\<lambda>sh. (Saw_Draining (sh_draining sh), sh)) (\<lambda>sh. if sh_draining sh then Done True
       else Op (\<lambda>sh. (Entered, sh\<lparr>sh_in_flight := sh_in_flight sh + 1\<rparr>))
         (\<lambda>_. Op (\<lambda>sh. (Read_Clock t, sh)) (\<lambda>_. Op (race_check t) k))))"
proof -
  from race_body obtain g where body: "proxy_body race_app (sample_gateway_env\<lparr>ge_now := t\<rparr>) sample_request =
    seq (limiter_call False race_limits race_context t) g" by blast
  have "rl_enabled race_limits" by (simp add: race_limits_def sample_quota_config_def)
  then show ?thesis
    by (auto simp: proxy_handler_def bump_def load_draining_def return_def guarded_alt body fun_eq_iff)
qed

lemma race_arrives:
  assumes "race_execution tr P" and "\<not> sh_draining (ps_shared P)" and "n = length (ps_tasks P)"
  shows "\<exists>P' k. race_execution (tr @ Arrives n # map (Does n) [Bumped Requests, Saw_Draining False, Entered, Read_Clock t]) P' \<and>
    sh_limiter (ps_shared P') = sh_limiter (ps_shared P) \<and> \<not> sh_draining (ps_shared P') \<and>
    length (ps_tasks P') = Suc n \<and> (\<forall>j<n. ps_tasks P' ! j = ps_tasks P ! j) \<and> ac_now (ps_tasks P' ! n) = Op (race_check t) k"
proof -
  let ?P = "P\<lparr>ps_tasks := ps_tasks P @ [request_activity (race_handler t)]\<rparr>"
  have "handler_of sample_gateway_env race_app (race_handler t)"
    by (rule handler_of.proxy) (simp add: same_platform_def)
  from execution.continue [OF assms(1) process_step.arrive [OF this]] assms(3)
  have P: "race_execution (tr @ [Arrives n]) ?P" by simp
  from race_handler_tree obtain k where tree: "ac_now (ps_tasks ?P ! n) =
     Op (\<lambda>sh. (Bumped Requests, sh\<lparr>sh_metrics := inc_request (sh_metrics sh)\<rparr>))
     (\<lambda>_. Op (\<lambda>sh. (Saw_Draining (sh_draining sh), sh)) (\<lambda>sh. if sh_draining sh then Done True
       else Op (\<lambda>sh. (Entered, sh\<lparr>sh_in_flight := sh_in_flight sh + 1\<rparr>))
         (\<lambda>_. Op (\<lambda>sh. (Read_Clock t, sh)) (\<lambda>_. Op (race_check t) k))))"
    by (auto simp: assms(3) request_activity_def spawned_def)
  have "solo 4 (ac_now (ps_tasks ?P ! n)) (ps_shared ?P) =
      ([Bumped Requests, Saw_Draining False, Entered, Read_Clock t], Op (race_check t) k,
       (ps_shared P)\<lparr>sh_metrics := inc_request (sh_metrics (ps_shared P)), sh_in_flight := sh_in_flight (ps_shared P) + 1\<rparr>)"
    unfolding tree using assms(2) by (simp add: numeral_eq_Suc del: One_nat_def)
  from execution_solo [OF P _ this] assms(2,3) show ?thesis
    by (fastforce simp: nth_append)
qed

lemma race_checks:
  assumes "race_execution tr P" and "i < length (ps_tasks P)" and "ac_now (ps_tasks P ! i) = Op (race_check t) k"
    and "check_with_context False race_limits race_context t (sh_limiter (ps_shared P)) = Ret (ok, states)"
  shows "\<exists>P'. race_execution (tr @ [Does i (Checked race_context t (Ret ok))]) P' \<and> sh_limiter (ps_shared P') = states \<and>
    sh_draining (ps_shared P') = sh_draining (ps_shared P) \<and>
    length (ps_tasks P') = length (ps_tasks P) \<and> (\<forall>j. j \<noteq> i \<longrightarrow> ps_tasks P' ! j = ps_tasks P ! j)"
  using execution_op [OF assms(1-3)] assms(4)
  by (auto simp: verdict_def after_check_def)

lemma race_run:
  "verdicts (limiter_run False race_limits Map.empty
     [(race_context, 0), (race_context, 0), (race_context, 1000000000), (race_context, 999999999)]) = Some [True, True, True, True]"
  by (simp add: rust_simps Let_def word_le_nat_alt race_limits_def sample_quota_config_def limiter_context_def)

text \<open>The requests \<open>n + 2\<close> and \<open>n + 3\<close> read the clock one after the other, and check in the other order.\<close>

definition race_start :: "nat \<Rightarrow> instant \<Rightarrow> label list" where
  "race_start n t = Arrives n # map (Does n) [Bumped Requests, Saw_Draining False, Entered, Read_Clock t]"

definition race_accept :: "nat \<Rightarrow> instant \<Rightarrow> label" where
  "race_accept n t = Does n (Checked race_context t (Ret True))"

abbreviation race_labels :: "nat \<Rightarrow> label list" where
  "race_labels n \<equiv> race_start n 0 @ race_accept n 0 # race_start (n + 1) 0 @ race_accept (n + 1) 0 #
     race_start (n + 2) 999999999 @ race_start (n + 3) 1000000000 @
     [race_accept (n + 3) 1000000000, race_accept (n + 2) 999999999]"

text \<open>A request that arrives and checks at once.\<close>

lemma race_pass:
  assumes "race_execution tr P" and "\<not> sh_draining (ps_shared P)" and "n = length (ps_tasks P)"
    and "check_with_context False race_limits race_context t (sh_limiter (ps_shared P)) = Ret (True, states)"
  shows "\<exists>P'. race_execution (tr @ race_start n t @ [race_accept n t]) P' \<and> sh_limiter (ps_shared P') = states \<and>
    \<not> sh_draining (ps_shared P') \<and> length (ps_tasks P') = Suc n \<and> (\<forall>j<n. ps_tasks P' ! j = ps_tasks P ! j)"
proof -
  from race_arrives [OF assms(1-3), of t] obtain P1 k where
    P1: "race_execution (tr @ race_start n t) P1" "sh_limiter (ps_shared P1) = sh_limiter (ps_shared P)"
    "\<not> sh_draining (ps_shared P1)" "length (ps_tasks P1) = Suc n" "\<forall>j<n. ps_tasks P1 ! j = ps_tasks P ! j"
    "ac_now (ps_tasks P1 ! n) = Op (race_check t) k" unfolding race_start_def by blast
  have "n < length (ps_tasks P1)" using P1(4) by simp
  from race_checks [OF P1(1) this P1(6) assms(4) [folded P1(2)]] obtain P' where
    "race_execution ((tr @ race_start n t) @ [race_accept n t]) P'" "sh_limiter (ps_shared P') = states"
    "sh_draining (ps_shared P') = sh_draining (ps_shared P1)" "length (ps_tasks P') = length (ps_tasks P1)"
    "\<forall>j. j \<noteq> n \<longrightarrow> ps_tasks P' ! j = ps_tasks P1 ! j" unfolding race_accept_def by blast
  with P1(3-5) show ?thesis by (intro exI [of _ P']) simp
qed

lemma race_happens: "\<exists>P. race_execution (race_labels (length (ps_tasks race_boot))) P"
proof -
  let ?n = "length (ps_tasks race_boot)" and ?check = "check_with_context False race_limits race_context"
  from verdicts_Some [OF race_run] obtain L1 L2 L3 L4 where L: "?check 0 Map.empty = Ret (True, L1)" "?check 0 L1 = Ret (True, L2)"
    "?check 1000000000 L2 = Ret (True, L3)" "?check 999999999 L3 = Ret (True, L4)" by auto
  have boot: "sh_limiter (ps_shared race_boot) = Map.empty" "\<not> sh_draining (ps_shared race_boot)"
    by (simp_all add: race_boot_def booted_def initial_shared_def)
  from race_pass [OF execution.init boot(2) refl L(1) [folded boot(1)]] obtain P1 where
    P1: "race_execution (race_start ?n 0 @ [race_accept ?n 0]) P1" "sh_limiter (ps_shared P1) = L1"
    "\<not> sh_draining (ps_shared P1)" "?n + 1 = length (ps_tasks P1)" by auto
  from race_pass [OF P1(1,3,4) L(2) [folded P1(2)]] obtain P2 where
    P2: "race_execution ((race_start ?n 0 @ [race_accept ?n 0]) @ race_start (?n + 1) 0 @ [race_accept (?n + 1) 0]) P2"
    "sh_limiter (ps_shared P2) = L2" "\<not> sh_draining (ps_shared P2)" "?n + 2 = length (ps_tasks P2)" by auto
  from race_arrives [OF P2(1,3,4), of 999999999, folded race_start_def] obtain P3 k where
    P3: "race_execution (((race_start ?n 0 @ [race_accept ?n 0]) @ race_start (?n + 1) 0 @ [race_accept (?n + 1) 0])
      @ race_start (?n + 2) 999999999) P3" "sh_limiter (ps_shared P3) = L2" "\<not> sh_draining (ps_shared P3)"
    "?n + 3 = length (ps_tasks P3)" "ac_now (ps_tasks P3 ! (?n + 2)) = Op (race_check 999999999) k"
    using P2(2) by (auto simp del: One_nat_def)
  from race_pass [OF P3(1,3,4) L(3) [folded P3(2)]] P3(5) obtain P4 where
    P4: "race_execution ((((race_start ?n 0 @ [race_accept ?n 0]) @ race_start (?n + 1) 0 @ [race_accept (?n + 1) 0])
      @ race_start (?n + 2) 999999999) @ race_start (?n + 3) 1000000000 @ [race_accept (?n + 3) 1000000000]) P4"
    "sh_limiter (ps_shared P4) = L3" "length (ps_tasks P4) = ?n + 4"
    "ac_now (ps_tasks P4 ! (?n + 2)) = Op (race_check 999999999) k" by (auto simp del: One_nat_def)
  from race_checks [OF P4(1) _ P4(4) L(4) [folded P4(2)]] P4(3) show ?thesis
    by (auto simp: race_accept_def simp del: One_nat_def)
qed

text \<open>The instants that the requests have read, in the order of the readings.\<close>

definition clock_readings :: "event list \<Rightarrow> instant list" where
  "clock_readings es = List.map_filter (\<lambda>e. case e of Read_Clock now \<Rightarrow> Some now | _ \<Rightarrow> None) es"

text \<open>
  C19. The sliding window can be exceeded although the clock never runs backwards.  A request reads the
  clock before it takes the lock of the limiter.  There is an execution of a started gateway in
  which the requests read a monotonic clock, one request reads it just before and one just after the
  hits of the window expire, and the later reading takes the lock first: it removes the expired hits,
  and the earlier one no longer finds them.  Three requests of a client are accepted in one window of
  a rule that allows two.
\<close>

theorem clock_race_exceeds_limit:
  "\<exists>tr P rule t. startup race_startup = Inr (race_app, initial_shared race_config) \<and> race_execution tr P \<and>
     sorted (clock_readings (shared_events tr)) \<and>
     rl_scoped_limits (gc_rate_limit (app_config race_app)) = [rule] \<and>
     rule_policy (gc_rate_limit (app_config race_app)) rule = SlidingWindow \<and>
     unat (sl_limit rule) < card {i. \<exists>ctx now. Does i (Checked ctx now (Ret True)) \<in> set tr \<and>
       scope_value ctx (sl_scope rule) = client_key (last sample_routes) sample_request \<and> now \<le> t \<and> t < now + rule_window rule}"
proof -
  let ?n = "length (ps_tasks race_boot)" and ?rule = "hd (rl_scoped_limits race_limits)"
  from race_happens obtain P where P: "race_execution (race_labels ?n) P" by blast
  have clock: "sorted (clock_readings (shared_events (race_labels n)))" for n
    by (simp add: race_start_def race_accept_def shared_events_def clock_readings_def List.map_filter_def)
  have cfg: "gc_rate_limit (app_config race_app) = race_limits"
    by (simp add: race_app_def initial_app_def race_config_def)
  have rule: "rl_scoped_limits race_limits = [?rule]" "rule_policy race_limits ?rule = SlidingWindow"
    "sl_scope ?rule = Client" "rule_window ?rule = 1000000000" "unat (sl_limit ?rule) = 2"
    by (simp_all add: race_limits_def sample_quota_config_def rule_policy_def rule_window_def from_secs_def)
  let ?S = "\<lambda>n. {i. \<exists>ctx now. Does i (Checked ctx now (Ret True)) \<in> set (race_labels n) \<and>
    scope_value ctx Client = client_key (last sample_routes) sample_request \<and> now \<le> 999999999 \<and> 999999999 < now + 1000000000}"
  have accepted: "Does i (Checked ctx now (Ret True)) \<in> set (race_labels n) \<longleftrightarrow> ctx = race_context \<and>
      (now = 0 \<and> i \<in> {n, n + 1} \<or> now = 1000000000 \<and> i = n + 3 \<or> now = 999999999 \<and> i = n + 2)" for i n ctx now
    by (auto simp: race_start_def race_accept_def)
  have "scope_value race_context Client = client_key (last sample_routes) sample_request"
    by (simp add: limiter_context_def)
  then have "{n, n + 1, n + 2} \<subseteq> ?S n" for n unfolding accepted by simp
  moreover have "finite (?S n)" for n
    by (rule finite_subset [of _ "{n, n + 1, n + 2, n + 3}"]) (unfold accepted, auto)
  ultimately have "2 < card (?S n)" for n using card_mono [of "?S n" "{n, n + 1, n + 2}"] by simp
  with P clock cfg rule race_startup_ok show ?thesis
    by (intro exI [of _ "race_labels ?n"] exI [of _ P] exI [of _ ?rule] exI [of _ 999999999]) simp
qed

end
