(* ===== verification/Failover.thy ===== *)
theory Failover
  imports Retry_Spec Process
begin

text \<open>
  Failover: the balancer, the registry and the loop over the attempts together.  Round robin gives
  consecutive attempts consecutive slots, so that a request with at least as many attempts as there
  are slots meets every target, and succeeds if one of them answers.
\<close>

section \<open>Attempts that find every target available\<close>

definition slot :: "upstream_config \<Rightarrow> usize \<Rightarrow> upstream_target" where
  "slot up n = weighted_slots (u_targets up) ! (unat n mod 2 ^ 32 mod total_weight (u_targets up))"

text \<open>The conditions on the upstream and on the events.\<close>

definition rotating :: "upstream_config \<Rightarrow> bool" where
  "rotating up \<longleftrightarrow> u_strategy up = RoundRobin \<and> 0 < total_weight (u_targets up) \<and> total_weight (u_targets up) < 2 ^ 32"

definition all_available :: "event list \<Rightarrow> bool" where
  "all_available es \<longleftrightarrow> (\<forall>addr key now. Asked addr key now False \<notin> set es)"

lemma all_available_append [simp]: "all_available (es @ es') \<longleftrightarrow> all_available es \<and> all_available es'"
  by (auto simp: all_available_def)

lemma selected_slot:
  assumes "rotating up" and "length oks = length (u_targets up)" and "all_available (drawn env up addr k n oks)"
  shows "selected env up key oks n = Ret (Some (slot up n))"
proof -
  have "False \<notin> set oks"
    using asked_no [OF assms(2)] assms(3) by (fastforce simp: all_available_def drawn_def)
  then have "answered (u_targets up) oks = u_targets up" by (rule answered_all [OF assms(2)])
  moreover have "u_targets up \<noteq> []" using assms(1) by (auto simp: rotating_def)
  ultimately show ?thesis
    using assms(1) by (simp add: selected_def rotating_def select_target_def pick_weighted_target_slots slot_def)
qed

lemma drawn_numbers [simp]: "numbers_drawn (drawn env up addr k n oks) = [n]"
proof -
  have "drawn env up addr k n oks = [Took_Number n] @ asked addr (u_name up) (at_clock (ge_attempt env k)) 0 (u_targets up) oks"
    by (simp add: drawn_def)
  moreover have "numbers_drawn [Took_Number n] = [n]" by (simp add: component_ops)
  ultimately show ?thesis by (simp only: component_ops_append asked_numbers append_Nil2)
qed

lemma outcome_numbers: "numbers_drawn (Sent x # outcome_events env addr m k x) = []"
  by (simp add: outcome_events_def component_ops split: sum.split)

lemma attempt_sends_slot:
  assumes "attempt app env req r up addr pq body m k es ph" and "rotating up" and "\<not> timed_out app env k" and "all_available es"
  shows "\<exists>n. numbers_drawn es = [n] \<and> sent_requests es = [upstream_request env req r up pq body (slot up n)] \<and>
    ph = next_phase app env req r m k (upstream_request env req r up pq body (slot up n))"
  using assms(1)
proof (cases rule: attempt.cases)
  case (sends oks n target x)
  with assms(4) have "all_available (drawn env up addr k n oks)" by simp
  from selected_slot [OF assms(2) sends(4) this] sends have "target = slot up n" by simp
  with sends show ?thesis
    by (intro exI [of _ n]) (simp add: drawn_numbers outcome_numbers unsent_events [OF unsent_drawn] outcome_events_simps)
next
  case (crash oks n)
  with selected_slot [OF assms(2) crash(4), of env addr k n "client_key r req"] assms(4) show ?thesis by simp
next
  case (no_target oks n)
  with selected_slot [OF assms(2) no_target(4), of env addr k n "client_key r req"] assms(4) show ?thesis by simp
qed (use assms(3) in simp)

text \<open>Then the loop goes on until an outcome is not transient or the attempts are used up.\<close>

lemma attempts_send_slots:
  "attempts app env req r up addr pq body m k es ph \<Longrightarrow> k \<le> m \<Longrightarrow> rotating up \<Longrightarrow> all_available es \<Longrightarrow>
   (\<forall>j\<le>m. \<not> timed_out app env j) \<Longrightarrow>
   \<exists>ns x. sent_requests es = map (\<lambda>n. upstream_request env req r up pq body (slot up n)) (numbers_drawn es) \<and>
     numbers_drawn es = ns @ [x] \<and>
     (let j = k + length ns; y = upstream_request env req r up pq body (slot up x)
      in (transient env j y \<longrightarrow> j = m) \<and> j \<le> m \<and> ph = next_phase app env req r m j y)"
proof (induction rule: attempts.induct)
  case (last k es ph)
  with attempt_sends_slot [OF last.hyps(1)] obtain n where "numbers_drawn es = [n]"
    "sent_requests es = [upstream_request env req r up pq body (slot up n)]"
    "ph = next_phase app env req r m k (upstream_request env req r up pq body (slot up n))" by blast
  with last.hyps(2) last.prems(1) show ?case
    by (intro exI [of _ "[]"] exI [of _ n]) (auto simp: Let_def next_phase_def split: if_splits)
next
  case (again k es k' es' ph)
  have k': "k < m" "k' = Suc k" using next_phase_last [OF again.hyps(1)] by simp_all
  with again.prems attempt_sends_slot [OF again.hyps(1)] obtain n where n: "numbers_drawn es = [n]"
    "sent_requests es = [upstream_request env req r up pq body (slot up n)]" by auto
  from again.IH again.prems k' obtain ns x where
    "sent_requests es' = map (\<lambda>n. upstream_request env req r up pq body (slot up n)) (numbers_drawn es')"
    "numbers_drawn es' = ns @ [x]"
    "let j = k' + length ns; y = upstream_request env req r up pq body (slot up x)
      in (transient env j y \<longrightarrow> j = m) \<and> j \<le> m \<and> ph = next_phase app env req r m j y" by auto
  with n k' show ?case by (intro exI [of _ "n # ns"] exI [of _ x]) (simp add: Let_def)
qed

text \<open>Consecutive numbers, as many as there are slots, meet every slot.\<close>

lemma consecutive_slots:
  assumes "rotating up" and "t \<in> set (u_targets up)" and "0 < ut_weight t"
    and "unat c mod 2 ^ 32 + m \<le> 2 ^ 32" and "total_weight (u_targets up) \<le> m"
  shows "\<exists>i<m. slot up (c + of_nat i) = t"
proof -
  let ?w = "total_weight (u_targets up)" and ?c = "unat c mod 2 ^ 32"
  have "t \<in> set (weighted_slots (u_targets up))" using assms(2,3) by (simp add: set_weighted_slots)
  then obtain j where j: "j < ?w" "weighted_slots (u_targets up) ! j = t" by (auto simp: in_set_conv_nth)
  define i where "i = (j + (?w - ?c mod ?w)) mod ?w"
  have w: "0 < ?w" using assms(1) by (simp add: rotating_def)
  have i: "i < m" using w assms(5) by (simp add: i_def less_le_trans [OF mod_less_divisor])
  have "(?c + i) mod ?w = (?c mod ?w + (j + (?w - ?c mod ?w))) mod ?w"
    unfolding i_def by (metis mod_add_left_eq mod_add_right_eq)
  also have "?c mod ?w + (j + (?w - ?c mod ?w)) = j + ?w"
    using mod_less_divisor [OF w, of ?c] by linarith
  finally have "(?c + i) mod ?w = j" using j(1) by simp
  moreover have "unat (c + of_nat i) mod 2 ^ 32 = ?c + i" by (rule unat_plus_mod32) (use i assms(4) in simp)
  ultimately show ?thesis using i j by (intro exI [of _ i]) (simp add: slot_def)
qed

section \<open>Properties\<close>

lemma idle_numbers: "list_all idle es \<Longrightarrow> numbers_drawn es = []"
  by (induction es) (auto simp: component_ops idle_def split: event.splits)

text \<open>A target whose answers are never retried.\<close>

definition reliable :: "('h, 'j) gateway_env \<Rightarrow> upstream_config \<Rightarrow> upstream_target \<Rightarrow> bool" where
  "reliable env up t \<longleftrightarrow> 0 < ut_weight t \<and>
     (\<forall>k x. se_target x = target_key (u_name up) (ut_id t) \<longrightarrow> \<not> transient env k x)"

lemma attempts_succeed:
  assumes "attempts app env req r up addr pq body m 1 es ph" and "1 \<le> m" and "rotating up" and "all_available es"
    and "\<forall>j\<le>m. \<not> timed_out app env j"
    and "t \<in> set (u_targets up)" and "reliable env up t" and "total_weight (u_targets up) \<le> m"
    and "numbers_drawn es = map (\<lambda>i. c + of_nat i) [0..<length (numbers_drawn es)]"
    and "unat c mod 2 ^ 32 + length (numbers_drawn es) \<le> 2 ^ 32"
  shows "\<exists>resp. ph = Replied (respond app env req r resp) \<and> \<not> should_retry_status (ur_status resp)"
proof -
  let ?x = "\<lambda>n. upstream_request env req r up pq body (slot up n)"
  from attempts_send_slots [OF assms(1-5)] obtain ns n where
    sent: "sent_requests es = map ?x (numbers_drawn es)" and ns: "numbers_drawn es = ns @ [n]"
    and last: "transient env (1 + length ns) (?x n) \<longrightarrow> 1 + length ns = m"
    and ph: "ph = next_phase app env req r m (1 + length ns) (?x n)"
    unfolding Let_def by blast
  have earlier: "transient env (1 + i) (?x (ns ! i))" if "i < length ns" for i
    using attempts_answer [OF assms(1,2)] that unfolding sent ns by (auto simp: Let_def nth_append)
  have "\<not> transient env (1 + length ns) (?x n)"
  proof
    assume bad: "transient env (1 + length ns) (?x n)"
    with last have m: "length (numbers_drawn es) = m" by (simp add: ns)
    with assms(10) have "unat c mod 2 ^ 32 + m \<le> 2 ^ 32" by simp
    from consecutive_slots [OF assms(3,6) _ this assms(8)] assms(7) obtain i where
      i: "i < m" "slot up (c + of_nat i) = t" by (auto simp: reliable_def)
    have "numbers_drawn es ! i = c + of_nat i" using i(1) m by (subst assms(9)) simp
    with i have "slot up ((ns @ [n]) ! i) = t" by (simp add: ns)
    moreover have "transient env (1 + i) (?x ((ns @ [n]) ! i))"
      using earlier [of i] bad i(1) m by (cases "i < length ns") (auto simp: ns nth_append less_Suc_eq)
    ultimately show False using assms(7) by (auto simp: reliable_def upstream_request_def)
  qed
  then show ?thesis by (auto simp: ph next_phase_def transient_def split: sum.splits)
qed

text \<open>
  C11. One reliable target is enough.  Let every upstream be balanced by round robin, have not more
  slots than attempts are allowed, and have a target whose answers are never retried.  If a request draws
  a number, so that it comes to be forwarded, its attempts draw consecutive numbers (no other
  request draws between them), every target is found available and the deadline does not pass, then
  the request is answered with the response of an upstream whose status is not retried, however the
  other targets fail.
\<close>

theorem failover_succeeds:
  assumes "run (proxy_handler app env req) h (Done result)" and "numbers_drawn (events h) \<noteq> []"
    and "\<forall>up\<in>set (gc_upstreams (app_config app)). u_strategy up = RoundRobin \<and>
      total_weight (u_targets up) \<le> attempts_allowed app req \<and> total_weight (u_targets up) < 2 ^ 32 \<and>
      (\<exists>t\<in>set (u_targets up). reliable env up t)"
    and "numbers_drawn (events h) = map (\<lambda>i. c + of_nat i) [0..<length (numbers_drawn (events h))]"
    and "unat c mod 2 ^ 32 + length (numbers_drawn (events h)) \<le> 2 ^ 32"
    and "\<forall>addr key now. Asked addr key now False \<notin> set (events h)"
    and "\<forall>j\<le>attempts_allowed app req. \<not> timed_out app env j"
  shows "\<exists>r resp. result = Return (respond app env req r resp) \<and> \<not> should_retry_status (ur_status resp)"
proof -
  have "does (proxy_handler app env req) (events h) result" using assms(1) by (auto simp: does_def)
  moreover have "\<not> list_all idle (events h)" using assms(2) idle_numbers by blast
  ultimately obtain r up addr pq body ph where
    f: "forwards app env req (events h) r up addr pq body ph" "phase_flow ph result"
    using does_handler by blast
  from f(1) obtain pre mid post where es: "events h = pre @ mid @ post" "list_all idle pre" "list_all idle post"
    and mid: "attempts app env req r up addr pq body (attempts_allowed app req) 1 mid ph"
    and up: "up \<in> set (gc_upstreams (app_config app))"
    unfolding forwards_def by (auto simp: find_Some_iff)
  have numbers: "numbers_drawn (events h) = numbers_drawn mid" using es by (simp add: idle_numbers)
  from assms(3) up obtain t where t: "t \<in> set (u_targets up)" "reliable env up t" and w: "u_strategy up = RoundRobin"
    "total_weight (u_targets up) \<le> attempts_allowed app req" "total_weight (u_targets up) < 2 ^ 32" by blast
  have "0 < total_weight (u_targets up)" using t by (auto simp: reliable_def total_weight_0_iff intro: ccontr)
  with w have "rotating up" by (simp add: rotating_def)
  moreover have "all_available mid" using assms(6) by (auto simp: all_available_def es)
  ultimately obtain resp where "ph = Replied (respond app env req r resp)" "\<not> should_retry_status (ur_status resp)"
    using attempts_succeed [OF mid attempts_allowed_pos _ _ assms(7) t w(2) assms(4) [unfolded numbers]
        assms(5) [unfolded numbers]] by blast
  with f(2) show ?thesis by auto
qed

text \<open>A gateway with four attempts whose targets \<open>a\<close> always fail and whose targets \<open>b\<close> answer.\<close>

definition failing_config :: gateway_config where
  "failing_config = sample_config\<lparr>gc_server := default_server_config\<lparr>sv_proxy := default_proxy_runtime_config
     \<lparr>pr_retries := default_retry_config\<lparr>rc_max_attempts := 4\<rparr>\<rparr>\<rparr>\<rparr>"

definition failing_app :: app where
  "failing_app = initial_app failing_config []"

definition failing_attempt :: "ref_headers attempt_env" where
  "failing_attempt = sample_attempt\<lparr>at_result :=
     (\<lambda>x. if se_target x \<in> {''svc-a:a'', ''svc-b:a''} then Inl ''connection refused'' else Inr sample_response)\<rparr>"

definition failing_env :: "(ref_headers, json) gateway_env" where
  "failing_env = sample_gateway_env\<lparr>ge_attempt := (\<lambda>_. failing_attempt)\<rparr>"

abbreviation failing_send :: "upstream_target \<Rightarrow> sent" where
  "failing_send \<equiv> upstream_request failing_env sample_request (last sample_routes) sample_upstream ''/api/v1/users?page=2'' []"

definition failing_events :: "event list" where
  "failing_events =
     [Took_Number 0, Asked 1 ''svc-b:a'' 0 True, Asked 1 ''svc-b:b'' 1 True, Sent (failing_send (hd sample_targets)),
      Noted 1 (RecordFailure ''svc-b:a'' 0), Bumped Upstream_Failures,
      Took_Number 1, Asked 1 ''svc-b:a'' 0 True, Asked 1 ''svc-b:b'' 1 True, Sent (failing_send (last sample_targets)),
      Noted 1 (RecordSuccess ''svc-b:b'')]"

lemma failing_env_simps:
  "ge_ovf failing_env = False" "ge_hash failing_env = (\<lambda>_. 0)" "ge_now failing_env = 0" "ge_http failing_env = ref_api"
  "ge_attempt failing_env k = failing_attempt" "ge_token failing_env = sample_token_api"
  "ge_body failing_env = ge_body sample_gateway_env"
  "at_elapsed failing_attempt = 0" "at_clock failing_attempt = (\<lambda>i. i)" "at_failed_at failing_attempt = 0"
  "app_config failing_app = failing_config" "gc_rate_limit failing_config = gc_rate_limit sample_config"
  "gc_upstreams failing_config = gc_upstreams sample_config"
  by (simp_all add: failing_env_def failing_attempt_def sample_env_simps failing_app_def initial_app_def failing_config_def,
      simp_all add: sample_attempt_def)

lemma failing_attempts: "attempts_allowed failing_app sample_request = 4"
  by (simp add: failing_env_simps max_attempts_alt failing_config_def default_server_config_def default_proxy_runtime_config_def
      default_retry_config_def sample_request_def should_retry_method_def)

lemma failing_like: "sample_like failing_app failing_env"
  by (simp add: sample_like_def failing_env_simps)
    (simp add: failing_config_def failing_app_def initial_app_def sample_config_def sample_upstream_def build_runtime_registry_def)

lemma failing_results:
  "se_target (failing_send (hd sample_targets)) = ''svc-b:a''" "se_target (failing_send (last sample_targets)) = ''svc-b:b''"
  by (simp_all add: upstream_request_def sample_upstream_def sample_targets_def target_key_def)

lemma failing_outcomes:
  "transient failing_env k (failing_send (hd sample_targets))" "\<not> transient failing_env k (failing_send (last sample_targets))"
  "at_result failing_attempt (failing_send (hd sample_targets)) = Inl ''connection refused''"
  "at_result failing_attempt (failing_send (last sample_targets)) = Inr sample_response"
  by (simp_all add: transient_def failing_env_simps failing_results failing_attempt_def should_retry_status_def
      sample_response_def)

lemma failing_select:
  "selected failing_env sample_upstream key [True, True] 0 = Ret (Some (hd sample_targets))"
  "selected failing_env sample_upstream key [True, True] 1 = Ret (Some (last sample_targets))"
  by (simp_all add: selected_def failing_env_simps sample_upstream_def sample_targets_def select_target_def
      pick_weighted_target_slots)

lemma failing_in_time: "\<not> timed_out failing_app failing_env k"
  by (simp add: timed_out_def failing_env_simps failing_config_def default_server_config_def default_proxy_runtime_config_def
      from_millis_def)

abbreviation failing_answer :: response where
  "failing_answer \<equiv> respond failing_app failing_env sample_request (last sample_routes) sample_response"

lemma failing_machine:
  "attempts failing_app failing_env sample_request (last sample_routes) sample_upstream 1 ''/api/v1/users?page=2'' [] 4 1
     failing_events (Replied failing_answer)"
proof -
  let ?attempt = "attempt failing_app failing_env sample_request (last sample_routes) sample_upstream 1 ''/api/v1/users?page=2'' [] 4"
  let ?drawn = "\<lambda>k n. drawn failing_env sample_upstream 1 k n [True, True]"
  let ?a = "failing_send (hd sample_targets)" and ?b = "failing_send (last sample_targets)"
  have two: "length [True, True] = length (u_targets sample_upstream)"
    by (simp add: sample_upstream_def sample_targets_def)
  have a: "?attempt 1 (?drawn 1 0 @ Sent ?a # outcome_events failing_env 1 4 1 ?a) (Trying 2)"
    by (rule back_subst [of "?attempt 1 _", OF attempt.sends [OF failing_in_time two failing_select(1) refl]])
      (simp add: next_phase_def failing_outcomes numeral_2_eq_2)
  have b: "?attempt 2 (?drawn 2 1 @ Sent ?b # outcome_events failing_env 1 4 2 ?b) (Replied failing_answer)"
    by (rule back_subst [of "?attempt 2 _", OF attempt.sends [OF failing_in_time two failing_select(2) refl]])
      (simp add: next_phase_def failing_outcomes failing_env_simps)
  have drawn: "?drawn k n = [Took_Number n, Asked 1 ''svc-b:a'' 0 True, Asked 1 ''svc-b:b'' 1 True]" for k n
    by (simp add: drawn_def failing_env_simps sample_upstream_def sample_targets_def target_key_def)
  have ok: "\<not> is_server_error ref_api (ur_status sample_response)"
    by (simp add: sample_response_def ref_status.server_error)
  have "failing_events = (?drawn 1 0 @ Sent ?a # outcome_events failing_env 1 4 1 ?a)
      @ (?drawn 2 1 @ Sent ?b # outcome_events failing_env 1 4 2 ?b)"
    by (simp add: failing_events_def drawn outcome_events_def outcome_def failing_outcomes failing_env_simps failing_results
        ok del: One_nat_def)
  then show ?thesis using attempts.again [OF a attempts.last [OF b]] by simp
qed

lemma failing_run:
  "\<exists>h. run (proxy_handler failing_app failing_env sample_request) h (Done (Return failing_answer)) \<and>
     events h = [Bumped Requests, Saw_Draining False, Entered, Read_Clock 0,
       Checked (limiter_context (last sample_routes) sample_request sample_identity) 0 (Ret True), Loaded_Counter 0]
       @ failing_events @ [Exited]"
proof -
  let ?sh = "initial_shared sample_config" and ?ctx = "limiter_context (last sample_routes) sample_request sample_identity"
  let ?fwd = "forward failing_app failing_env sample_request (last sample_routes) sample_upstream 1"
  have path: "rewrite_path_and_query (last sample_routes) (rq_path sample_request)
      (original_path_and_query sample_request) = Ret ''/api/v1/users?page=2''" by code_simp
  have body: "ge_body failing_env (sv_max_request_body_bytes (gc_server (app_config failing_app))) = Inr []"
    by (simp add: failing_env_simps sample_gateway_env_def)
  have "does ?fwd failing_events (Return failing_answer)"
    unfolding does_forward [OF path body] failing_attempts using failing_machine by (intro exI [of _ "Replied failing_answer"]) simp
  then have count: "does (seq load_counter (\<lambda>_. ?fwd)) (Loaded_Counter 0 # failing_events) (Return failing_answer)"
    unfolding load_counter_def does_query [of sh_request_counter, OF some_number] by blast
  have body: "does (proxy_body failing_app failing_env sample_request)
      ([Read_Clock 0, Checked ?ctx 0 (Ret True), Loaded_Counter 0] @ failing_events) (Return failing_answer)"
    using count sample_check sample_initial(3)
    by (auto simp: sample_like_body [OF failing_like] failing_env_simps sample_limiter_enabled Let_def intro!: exI [of _ ?sh])
  have "does (andthen (proxy_body failing_app failing_env sample_request) (\<lambda>result.
      Op (\<lambda>sh. (Exited, sh\<lparr>sh_in_flight := sh_in_flight sh - 1\<rparr>)) (\<lambda>_. Done result)))
    (([Read_Clock 0, Checked ?ctx 0 (Ret True), Loaded_Counter 0] @ failing_events) @ [Exited]) (Return failing_answer)"
    unfolding does_andthen using body by (intro exI conjI) (auto simp: does_Op)
  then have "does (proxy_handler failing_app failing_env sample_request) ([Bumped Requests, Saw_Draining False, Entered, Read_Clock 0,
       Checked ?ctx 0 (Ret True), Loaded_Counter 0] @ failing_events @ [Exited]) (Return failing_answer)"
    using sample_initial(1)
    by (auto simp: proxy_handler_def bump_def load_draining_def guarded_alt intro!: exI [of _ ?sh])
  then show ?thesis by (simp add: does_def)
qed

theorem failover_succeeds_witness:
  "\<exists>h r resp. run (proxy_handler failing_app failing_env sample_request) h (Done (Return failing_answer)) \<and>
     Sent (failing_send (hd sample_targets)) \<in> set (events h) \<and>
     failing_answer = respond failing_app failing_env sample_request r resp \<and> \<not> should_retry_status (ur_status resp)"
proof -
  from failing_run obtain h where run: "run (proxy_handler failing_app failing_env sample_request) h (Done (Return failing_answer))"
    and h: "events h = [Bumped Requests, Saw_Draining False, Entered, Read_Clock 0,
       Checked (limiter_context (last sample_routes) sample_request sample_identity) 0 (Ret True), Loaded_Counter 0]
       @ failing_events @ [Exited]" by blast
  have numbers: "numbers_drawn (events h) = [0, 1]"
    unfolding h by (auto simp: failing_events_def component_ops)
  have "\<forall>up\<in>set (gc_upstreams (app_config failing_app)). u_strategy up = RoundRobin \<and>
      total_weight (u_targets up) \<le> attempts_allowed failing_app sample_request \<and> total_weight (u_targets up) < 2 ^ 32 \<and>
      (\<exists>t\<in>set (u_targets up). reliable failing_env up t)"
    unfolding failing_attempts unfolding failing_env_simps
    by (auto simp: sample_config_def sample_upstream_def sample_targets_def reliable_def transient_def failing_env_simps
        failing_attempt_def target_key_def should_retry_status_def sample_response_def)
  from failover_succeeds [OF run _ this, of 0] have "\<exists>r resp. Return failing_answer = (Return (respond failing_app failing_env sample_request r resp) :: unit flow) \<and>
      \<not> should_retry_status (ur_status resp)"
    using failing_in_time unfolding numbers unfolding h by (auto simp: failing_events_def)
  with run show ?thesis by (auto simp: h failing_events_def)
qed

end
