(* ===== verification/Unit_Tests.thy ===== *)
theory Unit_Tests
  imports Gateway
begin

text \<open>
  The unit tests of the source files, as predicates over the model, and that each holds.  The tests
  are the behaviour the authors wrote down, so they check the definitions against the source from
  another side than the properties do.  A sleep of a test is a later instant of the clock; a
  token that a test encodes is one that the decoder accepts under the secret it was encoded with
  and for the issuer and audience it names.
\<close>

section \<open>balancer.rs\<close>

definition selected_id :: "upstream_target option rust \<Rightarrow> string option" where
  "selected_id r = (case r of Panic \<Rightarrow> None | Ret t \<Rightarrow> map_option ut_id t)"

definition picks_weighted_round_robin :: "bool \<Rightarrow> hasher \<Rightarrow> bool" where
  "picks_weighted_round_robin ovf hash \<longleftrightarrow>
     (let pick = (\<lambda>n. selected_id (select_target ovf hash RoundRobin sample_targets None n))
      in pick 0 = Some ''a'' \<and> pick 1 = Some ''b'' \<and> pick 3 = Some ''b'')"

definition picks_weighted_least_connections :: "bool \<Rightarrow> hasher \<Rightarrow> bool" where
  "picks_weighted_least_connections ovf hash \<longleftrightarrow>
     selected_id (select_target ovf hash LeastConnections sample_targets None 0) = Some ''b''"

definition hash_requires_key :: "bool \<Rightarrow> hasher \<Rightarrow> bool" where
  "hash_requires_key ovf hash \<longleftrightarrow> select_target ovf hash Hash sample_targets None 0 = Ret None"

section \<open>router.rs\<close>

definition matches_longest_path_prefix :: bool where
  "matches_longest_path_prefix \<longleftrightarrow>
     map_option r_name (match_route sample_routes ''/api/v1/users'' Http1) = Some ''api-v1''"

definition enforces_protocol :: bool where
  "enforces_protocol \<longleftrightarrow>
     match_route
       [\<lparr>r_name = ''grpc'', r_path_prefix = ''/'', r_upstream = ''svc'', r_protocols = [Grpc],
         r_transform = default_transform, r_traffic_split = default_traffic_split,
         r_fault_injection = default_fault_injection\<rparr>] ''/'' Http2 = None"

definition traffic_split_defaults_to_disabled_canary :: bool where
  "traffic_split_defaults_to_disabled_canary \<longleftrightarrow>
     ts_canary_upstream default_traffic_split = None \<and> ts_canary_percentage default_traffic_split = 0"

section \<open>config.rs\<close>

definition rejects_unknown_upstream_reference :: bool where
  "rejects_unknown_upstream_reference \<longleftrightarrow>
     (case validate
        \<lparr>gc_server = default_server_config,
         gc_routes =
           [\<lparr>r_name = ''r1'', r_path_prefix = ''/'', r_upstream = ''missing'', r_protocols = [],
             r_transform = default_transform, r_traffic_split = default_traffic_split,
             r_fault_injection = default_fault_injection\<rparr>],
         gc_upstreams = [], gc_security = default_security_config,
         gc_rate_limit = default_rate_limit_config, gc_plugins = []\<rparr>
      of Inl err \<Rightarrow> contains err ''unknown upstream'' | Inr _ \<Rightarrow> False)"

section \<open>main.rs\<close>

definition protocol_of :: "http_version \<Rightarrow> string option \<Rightarrow> protocol" where
  "protocol_of version content_type =
     request_protocol ref_api version
       (case content_type of None \<Rightarrow> hm_new ref_api
        | Some v \<Rightarrow> hm_insert ref_api (hm_new ref_api) ''content-type'' v)"

definition detects_grpc_protocol_from_http2_content_type :: bool where
  "detects_grpc_protocol_from_http2_content_type \<longleftrightarrow> protocol_of HTTP_2 (Some ''application/grpc+proto'') = Grpc"

definition keeps_http2_protocol_without_grpc_content_type :: bool where
  "keeps_http2_protocol_without_grpc_content_type \<longleftrightarrow> protocol_of HTTP_2 None = Http2"

definition detects_grpc_protocol_from_base_media_type :: bool where
  "detects_grpc_protocol_from_base_media_type \<longleftrightarrow> protocol_of HTTP_2 (Some ''application/grpc'') = Grpc"

definition keeps_http1_protocol_even_with_grpc_content_type :: bool where
  "keeps_http1_protocol_even_with_grpc_content_type \<longleftrightarrow> protocol_of HTTP_11 (Some ''application/grpc'') = Http1"

definition detects_grpc_protocol_with_content_type_parameters :: bool where
  "detects_grpc_protocol_with_content_type_parameters \<longleftrightarrow>
     protocol_of HTTP_2 (Some ''application/grpc; charset=utf-8'') = Grpc"

definition detects_grpc_protocol_case_insensitively :: bool where
  "detects_grpc_protocol_case_insensitively \<longleftrightarrow> protocol_of HTTP_2 (Some ''Application/GRPC'') = Grpc"

section \<open>observability.rs and wasm_abi.rs\<close>

definition renders_prometheus_metrics :: bool where
  "renders_prometheus_metrics \<longleftrightarrow>
     (let rendered = render_prometheus (inc_error (inc_request default_metrics))
      in contains rendered ''gateway_requests_total 1'' \<and> contains rendered ''gateway_errors_total 1'')"

definition abi_version_is_set :: bool where
  "abi_version_is_set \<longleftrightarrow> ABI_VERSION = 1 \<and> PLUGIN_CONTRACT_VERSION = 1"

section \<open>resilience.rs\<close>

definition target_keys_are_stable :: bool where
  "target_keys_are_stable \<longleftrightarrow> target_key ''users'' ''a'' = ''users:a''"

definition retry_policy_is_idempotent_aware :: bool where
  "retry_policy_is_idempotent_aware \<longleftrightarrow>
     should_retry_method GET True False \<and> \<not> should_retry_method PUT True False \<and>
     should_retry_method PUT True True \<and> \<not> should_retry_method POST True False \<and>
     should_retry_method POST False False"

text \<open>The failure at instant \<open>t\<close>, the first question before a millisecond is over, the others after the sleep.\<close>

definition circuit_opens_and_recovers :: "instant \<Rightarrow> bool" where
  "circuit_opens_and_recovers t \<longleftrightarrow>
     (let key = ''svc:a'';
          registry = record_failure test_registry key t;
          (a1, registry) = is_available registry key t;
          (a2, registry) = is_available registry key (t + from_millis 2);
          registry = record_success registry key
      in \<not> a1 \<and> a2 \<and> fst (is_available registry key (t + from_millis 2)))"

section \<open>plugin.rs\<close>

definition deny_access_plugin :: gateway_plugin where
  "deny_access_plugin =
     \<lparr>gp_name = ''deny'', gp_contract_version = PLUGIN_CONTRACT_VERSION,
      gp_supports_phase = (\<lambda>phase. phase = Access), gp_init = Inr (),
      gp_execute = (\<lambda>_ _. \<lparr>pr_allowed = False, pr_reason = Some ''blocked''\<rparr>), gp_teardown = Inr ()\<rparr>"

text \<open>The list of the phases it has seen is not read by any test.\<close>

definition phase_recorder_plugin :: gateway_plugin where
  "phase_recorder_plugin =
     \<lparr>gp_name = ''recorder'', gp_contract_version = PLUGIN_CONTRACT_VERSION,
      gp_supports_phase = (\<lambda>phase. phase \<in> set [Access, HeaderFilter, BodyFilter, Log]), gp_init = Inr (),
      gp_execute = (\<lambda>_ _. \<lparr>pr_allowed = True, pr_reason = None\<rparr>), gp_teardown = Inr ()\<rparr>"

definition users_context :: plugin_context where
  "users_context = \<lparr>px_route = ''users'', px_path = ''/users''\<rparr>"

definition short_circuits_on_denied_plugin :: bool where
  "short_circuits_on_denied_plugin \<longleftrightarrow>
     (case register deny_access_plugin plugin_manager_new of
        (Inl _, _) \<Rightarrow> False
      | (Inr _, manager) \<Rightarrow>
          (let result = run_phase (pm_plugins manager) Access users_context
           in \<not> pr_allowed result \<and> pr_reason result = Some ''blocked''))"

definition executes_plugins_in_phase_order_matrix :: bool where
  "executes_plugins_in_phase_order_matrix \<longleftrightarrow>
     (case register phase_recorder_plugin plugin_manager_new of
        (Inl _, _) \<Rightarrow> False
      | (Inr _, manager) \<Rightarrow> pr_allowed (run_request_pipeline (pm_plugins manager) users_context))"

definition validates_wasm_plugin_schema_and_runtime_contract :: bool where
  "validates_wasm_plugin_schema_and_runtime_contract \<longleftrightarrow>
     \<not> isl (fst (from_config \<lparr>pe_path_exists = (\<lambda>p. p = ''/tmp/gateway-core-rust-test-plugin.wasm''),
         pe_to_vec = (\<lambda>_. Inr [])\<rparr>
       [\<lparr>pc_name = ''wasm-auth'', pc_module = ''plugins.wasm_auth'',
         pc_wasm_path = Some ''/tmp/gateway-core-rust-test-plugin.wasm'', pc_runtime = ''wasm'',
         pc_contract_version = PLUGIN_CONTRACT_VERSION, pc_phases = [''access'', ''log''],
         pc_capabilities = [''read_headers'', ''emit_logs'']\<rparr>]))"

definition rejects_invalid_capability_name :: bool where
  "rejects_invalid_capability_name \<longleftrightarrow> isl (parse_capabilities [''unknown_capability''])"

definition wasm_capabilities_align_with_expected_matrix :: bool where
  "wasm_capabilities_align_with_expected_matrix \<longleftrightarrow>
     length [ReadHeaders, WriteHeaders, ReadBody, WriteBody, RewritePath, EmitLogs] = 6"

section \<open>rate_limit.rs\<close>

definition token_bucket_enforces_capacity :: "bool \<Rightarrow> instant \<Rightarrow> bool" where
  "token_bucket_enforces_capacity ovf t \<longleftrightarrow>
     (let cfg = \<lparr>rl_enabled = True, rl_policy = TokenBucket, rl_capacity = 2, rl_refill_per_second = 1,
            rl_fixed_window_seconds = 60, rl_sliding_window_seconds = 60, rl_scoped_limits = []\<rparr>;
          ctx = \<lparr>rc_route = ''default-route'', rc_service = ''default-service'', rc_consumer = None,
            rc_client = ''client-a''\<rparr>
      in verdicts (limiter_run ovf cfg Map.empty [(ctx, t), (ctx, t), (ctx, t)]) = Some [True, True, False])"

definition fixed_window_resets_after_window :: "bool \<Rightarrow> instant \<Rightarrow> bool" where
  "fixed_window_resets_after_window ovf t \<longleftrightarrow>
     (let cfg = \<lparr>rl_enabled = True, rl_policy = FixedWindow, rl_capacity = 100, rl_refill_per_second = 100,
            rl_fixed_window_seconds = 1, rl_sliding_window_seconds = 60,
            rl_scoped_limits = [\<lparr>sl_scope = Client, sl_limit = 1, sl_quota = None, sl_window_seconds = 1,
              sl_policy = Some FixedWindow\<rparr>]\<rparr>;
          ctx = \<lparr>rc_route = ''r'', rc_service = ''s'', rc_consumer = None, rc_client = ''a''\<rparr>
      in verdicts (limiter_run ovf cfg Map.empty [(ctx, t), (ctx, t), (ctx, t + from_millis 1100)])
         = Some [True, False, True])"

definition scoped_consumer_quota_is_enforced :: "bool \<Rightarrow> instant \<Rightarrow> bool" where
  "scoped_consumer_quota_is_enforced ovf t \<longleftrightarrow>
     (let cfg = \<lparr>rl_enabled = True, rl_policy = SlidingWindow, rl_capacity = 100, rl_refill_per_second = 100,
            rl_fixed_window_seconds = 60, rl_sliding_window_seconds = 60,
            rl_scoped_limits = [\<lparr>sl_scope = Consumer, sl_limit = 10, sl_quota = Some 2, sl_window_seconds = 60,
              sl_policy = Some SlidingWindow\<rparr>]\<rparr>;
          ctx = \<lparr>rc_route = ''r'', rc_service = ''s'', rc_consumer = Some ''user-1'', rc_client = ''10.0.0.1''\<rparr>
      in verdicts (limiter_run ovf cfg Map.empty [(ctx, t), (ctx, t), (ctx, t)]) = Some [True, True, False])"

definition scoped_route_and_service_limits_are_combined :: "bool \<Rightarrow> instant \<Rightarrow> bool" where
  "scoped_route_and_service_limits_are_combined ovf t \<longleftrightarrow>
     (let cfg = \<lparr>rl_enabled = True, rl_policy = SlidingWindow, rl_capacity = 100, rl_refill_per_second = 100,
            rl_fixed_window_seconds = 60, rl_sliding_window_seconds = 60,
            rl_scoped_limits =
              [\<lparr>sl_scope = Route, sl_limit = 2, sl_quota = None, sl_window_seconds = 60,
                sl_policy = Some SlidingWindow\<rparr>,
               \<lparr>sl_scope = Service, sl_limit = 3, sl_quota = None, sl_window_seconds = 60,
                sl_policy = Some SlidingWindow\<rparr>]\<rparr>;
          ctx = \<lparr>rc_route = ''users'', rc_service = ''svc-users'', rc_consumer = None, rc_client = ''10.0.0.1''\<rparr>
      in verdicts (limiter_run ovf cfg Map.empty [(ctx, t), (ctx, t), (ctx, t)]) = Some [True, True, False])"

section \<open>security.rs\<close>

text \<open>A decoder that knows one encoded token, its secret and its claims.\<close>

definition issued :: "string \<Rightarrow> string \<Rightarrow> json \<Rightarrow> json token_api" where
  "issued token secret claims = sample_token_api
     \<lparr>jwt_decode := (\<lambda>t s v.
        if t = token \<and> s = secret \<and>
           (v_issuer v = None \<or> j_get sample_token_api claims ''iss'' = map_option JStr (v_issuer v)) \<and>
           (v_audience v = None \<or> j_get sample_token_api claims ''aud'' = map_option JStr (v_audience v))
        then Inr claims else Inl ''InvalidToken'')\<rparr>"

definition authenticates_as ::
    "json token_api \<Rightarrow> security_config \<Rightarrow> ref_headers \<Rightarrow> auth_mode \<Rightarrow> string list \<Rightarrow> string list option \<Rightarrow> bool" where
  "authenticates_as tok cfg headers mode roles groups \<longleftrightarrow>
     (case authenticate ref_api tok cfg headers of
        Inl _ \<Rightarrow> False
      | Inr identity \<Rightarrow> ai_mode identity = mode \<and> ai_roles identity = roles \<and>
          (case groups of None \<Rightarrow> True | Some gs \<Rightarrow> ai_groups identity = gs))"

definition bearer_headers :: "string \<Rightarrow> ref_headers" where
  "bearer_headers token = hm_insert ref_api (hm_new ref_api) ''authorization'' (''Bearer '' @ token)"

definition denies_disabled_auth_mode :: bool where
  "denies_disabled_auth_mode \<longleftrightarrow>
     \<not> authorize (default_security_config\<lparr>sc_enabled_modes := [Jwt]\<rparr>)
         \<lparr>ac_mode = OAuth2, ac_roles = [''reader''], ac_groups = [], ac_subject = None, ac_route_name = ''users''\<rparr>"

definition enforces_route_rbac :: bool where
  "enforces_route_rbac \<longleftrightarrow>
     \<not> authorize (default_security_config
           \<lparr>sc_enabled_modes := [Jwt], sc_rbac := [\<lparr>rb_role = ''admin'', rb_route = ''users''\<rparr>]\<rparr>)
         \<lparr>ac_mode = Jwt, ac_roles = [''reader''], ac_groups = [], ac_subject = None, ac_route_name = ''users''\<rparr>"

definition authenticates_valid_jwt :: "string \<Rightarrow> bool" where
  "authenticates_valid_jwt token \<longleftrightarrow>
     authenticates_as (issued token ''secret'' (JObj [(''roles'', JArr [JStr ''admin''])]))
       (default_security_config\<lparr>sc_enabled_modes := [Jwt],
          sc_jwt := \<lparr>jwt_secret = ''secret'', jwt_roles_claim = ''roles'', jwt_groups_claim = ''groups''\<rparr>\<rparr>)
       (bearer_headers token) Jwt [''admin''] None"

definition authenticates_valid_oauth2_token :: "string \<Rightarrow> bool" where
  "authenticates_valid_oauth2_token token \<longleftrightarrow>
     authenticates_as (issued token ''oauth-secret''
         (JObj [(''scope'', JStr ''read write''), (''groups'', JArr [JStr ''engineering'']),
           (''iss'', JStr ''https://issuer.example''), (''aud'', JStr ''gateway-api'')]))
       (default_security_config\<lparr>sc_enabled_modes := [OAuth2],
          sc_oauth2 := \<lparr>ic_secret = ''oauth-secret'', ic_issuer = ''https://issuer.example'',
            ic_audience = ''gateway-api'', ic_roles_claim = ''scope'', ic_groups_claim = ''groups''\<rparr>\<rparr>)
       (bearer_headers token) OAuth2 [''read'', ''write''] (Some [''engineering''])"

definition authenticates_valid_openid_connect_token :: "string \<Rightarrow> bool" where
  "authenticates_valid_openid_connect_token token \<longleftrightarrow>
     authenticates_as (issued token ''oidc-secret''
         (JObj [(''roles'', JArr [JStr ''admin'']), (''groups'', JArr [JStr ''sre'']),
           (''iss'', JStr ''https://idp.example''), (''aud'', JStr ''gateway-api'')]))
       (default_security_config\<lparr>sc_enabled_modes := [OpenIdConnect],
          sc_openid_connect := \<lparr>ic_secret = ''oidc-secret'', ic_issuer = ''https://idp.example'',
            ic_audience = ''gateway-api'', ic_roles_claim = ''roles'', ic_groups_claim = ''groups''\<rparr>\<rparr>)
       (bearer_headers token) OpenIdConnect [''admin''] (Some [''sre''])"

definition enforces_group_rbac :: bool where
  "enforces_group_rbac \<longleftrightarrow>
     authorize (default_security_config
         \<lparr>sc_enabled_modes := [Jwt], sc_group_rbac := [\<lparr>gb_group = ''platform'', gb_route = ''users''\<rparr>]\<rparr>)
       \<lparr>ac_mode = Jwt, ac_roles = [], ac_groups = [''platform''], ac_subject = None, ac_route_name = ''users''\<rparr>"

definition authenticates_mtls_identity_from_headers :: bool where
  "authenticates_mtls_identity_from_headers \<longleftrightarrow>
     authenticate ref_api sample_token_api
       (default_security_config\<lparr>sc_enabled_modes := [Mtls],
          sc_mtls := \<lparr>mt_subject_header = ''x-client-subject'', mt_roles_header = ''x-client-roles'',
            mt_groups_header = ''x-client-groups'', mt_allowed_subjects = [''CN=svc-a'']\<rparr>\<rparr>)
       (hm_insert ref_api (hm_insert ref_api (hm_insert ref_api (hm_new ref_api)
          ''x-client-subject'' ''CN=svc-a'') ''x-client-roles'' ''admin,writer'')
          ''x-client-groups'' ''platform,ops'')
     = Inr \<lparr>ai_mode = Mtls, ai_roles = [''admin'', ''writer''], ai_groups = [''platform'', ''ops''],
         ai_subject = Some ''CN=svc-a''\<rparr>"

definition enforces_route_subject_binding :: bool where
  "enforces_route_subject_binding \<longleftrightarrow>
     authorize (default_security_config
         \<lparr>sc_enabled_modes := [Mtls], sc_subject_rbac := [\<lparr>sb_subject = ''CN=svc-a'', sb_route = ''users''\<rparr>]\<rparr>)
       \<lparr>ac_mode = Mtls, ac_roles = [], ac_groups = [], ac_subject = Some ''CN=svc-a'', ac_route_name = ''users''\<rparr>"

definition falls_back_to_later_enabled_auth_mode :: "string \<Rightarrow> bool" where
  "falls_back_to_later_enabled_auth_mode token \<longleftrightarrow>
     authenticates_as (issued token ''oauth-secret'' (JObj [(''scope'', JStr ''read'')]))
       (default_security_config\<lparr>sc_enabled_modes := [Jwt, OAuth2],
          sc_jwt := \<lparr>jwt_secret = [], jwt_roles_claim = ''roles'', jwt_groups_claim = ''groups''\<rparr>,
          sc_oauth2 := \<lparr>ic_secret = ''oauth-secret'', ic_issuer = [], ic_audience = [],
            ic_roles_claim = ''scope'', ic_groups_claim = ''groups''\<rparr>\<rparr>)
       (bearer_headers token) OAuth2 [''read''] None"

section \<open>The tests pass\<close>

lemma balancer_tests_pass:
  "picks_weighted_round_robin ovf hash" "picks_weighted_least_connections ovf hash" "hash_requires_key ovf hash"
  by (simp_all add: picks_weighted_round_robin_def picks_weighted_least_connections_def hash_requires_key_def
      selected_id_def select_target_def pick_weighted_target_def sample_targets_def
      least_connections_key_def add_chk_def Let_def)

lemma router_tests_pass:
  "matches_longest_path_prefix" "enforces_protocol" "traffic_split_defaults_to_disabled_canary"
  by code_simp+

lemma config_tests_pass: "rejects_unknown_upstream_reference"
  by code_simp

lemma main_tests_pass:
  "detects_grpc_protocol_from_http2_content_type" "keeps_http2_protocol_without_grpc_content_type"
  "detects_grpc_protocol_from_base_media_type" "keeps_http1_protocol_even_with_grpc_content_type"
  "detects_grpc_protocol_with_content_type_parameters" "detects_grpc_protocol_case_insensitively"
  by code_simp+

lemma observability_tests_pass: "renders_prometheus_metrics"
  by code_simp

lemma wasm_abi_tests_pass: "abi_version_is_set"
  by code_simp

lemma resilience_tests_pass:
  "target_keys_are_stable" "retry_policy_is_idempotent_aware" "circuit_opens_and_recovers t"
  by (simp_all add: target_keys_are_stable_def target_key_def retry_policy_is_idempotent_aware_def
      should_retry_method_def circuit_opens_and_recovers_def is_available_def record_success_def
      test_registry_failed admit_def note_success_def sat_add_def duration_since_def from_millis_def
      Let_def split_beta)

lemma plugin_tests_pass:
  "short_circuits_on_denied_plugin" "executes_plugins_in_phase_order_matrix"
  "rejects_invalid_capability_name" "wasm_capabilities_align_with_expected_matrix"
  by code_simp+

lemma plugin_start_test_passes: "validates_wasm_plugin_schema_and_runtime_contract"
  by (simp add: validates_wasm_plugin_schema_and_runtime_contract_def from_config_def
      build_declared_plugin_def validate_plugin_schema_def sample_plugin_trims ensure_def check_wasm_path_def
      register_def declared_gateway_plugin_def PLUGIN_CONTRACT_VERSION_def Let_def)

lemmas limiter_test_simps = rust_simps Let_def word_le_nat_alt from_millis_def token_bucket_def
  refill_bucket_def f64_add_def f64_sub_def f64_mul_def f64.rnd_0 f64_of_nat_def
  f64.rnd_nat [of 1, simplified] f64.rnd_nat [of 2, simplified]

lemma fixed_window_test_passes: "fixed_window_resets_after_window ovf t"
  by (simp add: fixed_window_resets_after_window_def limiter_test_simps)

lemma quota_test_passes: "scoped_consumer_quota_is_enforced ovf t"
  by (simp add: scoped_consumer_quota_is_enforced_def limiter_test_simps)

lemma combined_limits_test_passes: "scoped_route_and_service_limits_are_combined ovf t"
  by (simp add: scoped_route_and_service_limits_are_combined_def limiter_test_simps)

lemma token_bucket_test_passes: "token_bucket_enforces_capacity ovf t"
  by (simp add: token_bucket_enforces_capacity_def limiter_test_simps apply_legacy_token_bucket_def)

lemma security_authorize_tests_pass:
  "denies_disabled_auth_mode" "enforces_route_rbac" "enforces_group_rbac" "enforces_route_subject_binding"
  by code_simp+

lemma security_authenticate_tests_pass:
  "authenticates_valid_jwt ''header.claims.signature''"
  "authenticates_valid_oauth2_token ''header.claims.signature''"
  "authenticates_valid_openid_connect_token ''header.claims.signature''"
  "authenticates_mtls_identity_from_headers"
  "falls_back_to_later_enabled_auth_mode ''header.claims.signature''"
  by code_simp+

end
