(* ===== verification/Spec2Isabelle.thy ===== *)
theory Spec2Isabelle
  imports Sliding_Spec Breaker_Spec Failover Unit_Tests
begin

text \<open>
  A verification of the Rust gateway core, \<open>gateway-core-rust/src\<close>: an HTTP reverse proxy with
  routing, load balancing, authentication, rate limits, plugins, health checks, circuit breakers,
  retries and graceful shutdown.

  \<^bold>\<open>How the program is put together.\<close>  \<open>main.rs\<close> loads and validates a configuration (\<open>config.rs\<close>), starts the
  plugins (\<open>plugin.rs\<close>), builds one runtime registry per upstream (\<open>resilience.rs\<close>), spawns the health
  checks and serves requests until a shutdown drains them.  A request goes through the router
  (\<open>router.rs\<close>), the access plugins, authentication and authorization (\<open>security.rs\<close>), the limiter
  (\<open>rate_limit.rs\<close>) and fault injection; then an upstream is selected, a target of it is picked among
  those that the registry admits (\<open>balancer.rs\<close>), the request is sent, retried or answered, and the
  outcome is recorded.  The metrics (\<open>observability.rs\<close>) count what happens.

  \<^bold>\<open>The theories\<close>, in the order of their imports:

  \<^item> \<open>Prelude\<close>: results, panics (\<open>rust\<close>), machine integers with checked, wrapping and saturating addition,
    clock instants, strings, and the lemmas all theories share.  \<open>F64\<close>: the double-precision numbers the
    limiter computes with, as a rounding function that satisfies the laws of rounding to nearest.
  \<^item> \<open>Balancer\<close>, \<open>Router\<close>, \<open>Wasm_Abi\<close>, \<open>Observability\<close>, \<open>Rate_Limit\<close>, \<open>Security\<close>, \<open>Config\<close>, \<open>Resilience\<close>, \<open>Plugin\<close>: the
    source file of the same name, each with its records, operations and properties.
  \<^item> \<open>Http_Api\<close>: what the code uses of header maps, methods, versions and status codes, as a record of
    operations with their documented laws as locales, interpreted on a list of name and value pairs.
  \<^item> \<open>Sliding_Spec\<close>: a reference limiter for the sliding window, and that the code gives its verdicts.
    \<open>Breaker_Spec\<close>: an abstract specification of one target's availability, and that the registry
    refines it for every key.  \<open>Retry_Spec\<close>: a machine for the loop over the attempts of a request, and
    that the traces of the code are exactly those of the machine.
  \<^item> \<open>Task\<close>: programs of atomic operations over a shared state, their histories under interference, loops,
    and the rules to reason about them (results, number of operations, weakest preconditions).
  \<^item> \<open>Proxy\<close>: the helper functions of \<open>main.rs\<close>.  \<open>Gateway\<close>: \<open>AppState\<close>, the in-flight guard and the request
    handlers as tasks.  \<open>Server\<close>: the start, the health-check tasks and the shutdown.  \<open>Process\<close>: the
    executions of the whole process, all tasks together with requests that arrive and are abandoned.
  \<^item> \<open>Failover\<close>: the balancer and the loop over the attempts together.
  \<^item> \<open>Unit_Tests\<close>: the unit tests of the source files, as predicates that hold of the model.

  \<^bold>\<open>State and effects.\<close>  Fallible functions return a sum with the error text, possible panics are the
  value \<open>Panic\<close>.  Whether integer overflow panics or wraps is a compiler setting, given as the
  parameter \<open>ovf\<close> where it matters.  A mutex-protected map is a map that the operations take and
  return; a lock poisoned by a panic is recovered, as in the code.  Every call of the clock is an
  argument.  The handlers, the health checks and the shutdown are tasks: trees of operations, each of
  which is one atomic instruction or one section under a mutex, with an event that names the
  operation and its answer.  Other tasks may run before every operation, not only at the awaits, so
  a history of a task relates the states before and after each of its operations and nothing
  between them.  An execution of the process interleaves the operations of all tasks in any order,
  with arriving requests and with requests dropped in the middle; its labels record every operation.

  \<^bold>\<open>Parameters.\<close>  Code outside the repository is an argument: header maps and status codes (\<open>http_api\<close>),
  token verification and JSON access (\<open>token_api\<close>), file reading and the JSON and YAML parsers, the
  existence of paths and the serialisation of the plugin context (\<open>plugin_env\<close>), the hash function
  of the standard library (\<open>hasher\<close>), the answers of upstreams and of health probes, the clock.

  \<^bold>\<open>What is shown.\<close>

  \<^item> Handler: in every history nothing is sent upstream unless the request was admitted by every stage,
    and then only proper requests to targets just found available, at most as many as configured;
    every request is answered within a bounded number of operations, with a well-formed response.
    The loop over the attempts has exactly the traces of its specification: every send is followed
    by the record of its outcome, only transient outcomes are retried, the last send determines the
    answer, and with round robin and enough attempts one reliable target is enough for a good one.
  \<^item> Limiter: quotas, sliding and fixed windows and token buckets bound what is accepted; the sliding
    window is exact; with scoped limits or a window policy a refused check changes nothing, and
    the bucket without scoped limits only refills; rules of one scope interfere, so the bounds of
    windows and bursts are for scopes with one rule, and for instants that do not run backwards.
  \<^item> Resilience: the invariant of counters and circuit, refusal while a circuit is open, the number of
    probes when it recovers, ejection and recovery, and the refinement of the abstract breaker.
  \<^item> Selection: fairness of the round robin, minimality of least connections (by integer quotient), soundness and
    completeness of every strategy and of the pick among available targets, longest-prefix routing.
  \<^item> Security: identities come from verified tokens or the certificate header, bound routes need the
    bound roles and groups, the lists of values in headers and claims are read exactly, whatever white
    space surrounds them.
  \<^item> Configuration and plugins: a start succeeds exactly on valid configurations and loadable plugins, a
    failed start tears down what it initialised; the sandbox denies by size only.
  \<^item> Process: in every execution the shared state is the replay of the operations that were performed, the in-flight count is the number of live
    guards, quotas and sliding windows bound what is sent upstream, and no request that arrives after
    the shutdown began is sent.  A request that passed the test of the flag before can be overlooked
    by the shutdown.  Round robin takes the slots of the targets in turn over all attempts of the
    process, and the window bound needs that the requests take the lock of the limiter in the
    order in which they read the clock: an execution with a monotonic clock exceeds it.
    Health checks end with the shutdown, and the shutdown ends.

  \<^bold>\<open>Termination and bounds.\<close>  Recursion over lists is structural, and a task is a well-founded tree, so it
  ends after finitely many of its operations; for the handler an explicit bound is proved.  The two
  loops that may run for ever, the health checks and the drain loop, are given by the program of each
  round, with histories that go through any number of rounds; that they end is proved as a bound on
  the operations after the flag is set and on the number of tests.

  \<^bold>\<open>Not modelled.\<close>  The setup of the logging library (\<open>init_tracing\<close>) and all log output; the server loop of the
  web framework and the scheduler of the runtime, beyond that any interleaving may happen; redirects
  that the HTTP client follows within one send; the sleeps between attempts, which touch no shared
  state; the order of the start in which the health checks are spawned before the address is parsed; how a
  response body is streamed after the handler has returned; the derived serialisation and schema
  code, except for the default values of the configuration.  Atomics are taken to be sequentially
  consistent, while the code uses relaxed ordering.  The
  repository also holds a gateway written in Lua, with its build files, tests and fixtures, which is
  a different program.
\<close>

end
